(* ===== verification/Line64_Prelude.thy ===== *)
theory Line64_Prelude
  imports Main "HOL-Library.Word"
begin

text \<open>
  Shared vocabulary of the development: the machine integers of the C++ sources, the
  copies \<open>std::copy\<close> and \<open>std::copy_n\<close> make between spans, and the arithmetic of ring
  indices. Byte sizes of objects in memory are lengths of lists and therefore naturals;
  every counter, sequence number and capacity is a 64-bit word, so that wrap-around is part
  of the model. The collections \<open>queue_defs\<close> and \<open>ring_simps\<close> carry the component proofs.
\<close>

unbundle bit_operations_syntax

section \<open>Machine types\<close>

type_synonym byte = "8 word"
type_synonym u32 = "32 word"
type_synonym u64 = "64 word"

named_theorems queue_defs "definitions of the queue operations"
named_theorems ring_simps "ring-index and counter arithmetic"

section \<open>Definitions\<close>

text \<open>\<open>std::copy_n(src, n, dst)\<close>: the first \<open>n\<close> elements of \<open>dst\<close> are overwritten.\<close>

definition copy_n :: "nat \<Rightarrow> 'a list \<Rightarrow> 'a list \<Rightarrow> 'a list" where
  "copy_n n src dst = take n src @ drop n dst"

text \<open>The position of counter value \<open>t + k\<close> in a ring of \<open>c\<close> slots, as the code computes it.\<close>

definition ring_index :: "u64 \<Rightarrow> u64 \<Rightarrow> nat" where
  "ring_index c p = unat (p mod c)"

text \<open>The modification order of an atomic counter that started at 0 and was advanced \<open>n\<close> times.\<close>

definition counter :: "nat \<Rightarrow> u64 list" where
  "counter n = map of_nat [0..<Suc n]"

text \<open>
  Counter values reached by counting up from \<open>t\<close> by \<open>k\<close> keep their ring order: either the
  64-bit counter does not wrap on the way, or the capacity divides \<open>2 ^ 64\<close>.
\<close>

definition ring_safe :: "u64 \<Rightarrow> u64 \<Rightarrow> nat \<Rightarrow> bool" where
  "ring_safe c t k \<longleftrightarrow> unat t + k < 2 ^ 64 \<or> unat c dvd 2 ^ 64"

section \<open>Copies between spans\<close>

lemma length_copy_n [simp]:
  "n \<le> length src \<Longrightarrow> n \<le> length dst \<Longrightarrow> length (copy_n n src dst) = length dst"
  by (simp add: copy_n_def)

lemma take_copy_n [simp]: "n \<le> length src \<Longrightarrow> take n (copy_n n src dst) = take n src"
  by (simp add: copy_n_def)

lemma drop_copy_n [simp]: "n \<le> length src \<Longrightarrow> drop n (copy_n n src dst) = drop n dst"
  by (simp add: copy_n_def)

lemma copy_n_0 [simp]: "copy_n 0 src dst = dst"
  by (simp add: copy_n_def)

lemma copy_n_step:
  assumes "k < length src" "k < length dst"
  shows "(copy_n k src dst)[k := src ! k] = copy_n (Suc k) src dst"
  using assms
  by (simp add: copy_n_def take_Suc_conv_app_nth list_update_append
      Cons_nth_drop_Suc [symmetric] del: append_assoc)

lemma upt_Suc_shift: "[0..<Suc n] = 0 # map Suc [0..<n]"
  by (simp add: map_Suc_upt upt_conv_Cons del: upt_Suc)

section \<open>Counters and ring indices\<close>

lemma unat_less_2p64 [simp]: "unat (x :: u64) < 2 ^ 64"
  using unsigned_less [of x] by simp

lemma unat_of_nat_64: "n < 2 ^ 64 \<Longrightarrow> unat (of_nat n :: u64) = n"
  by (simp add: unat_of_nat)

lemma unat_ucast_u32 [simp]: "unat (ucast (v :: u32) :: u64) = unat v"
proof -
  have "unat v < 2 ^ 32" using unsigned_less [of v] by simp
  then show ?thesis by (simp add: unsigned_ucast_eq take_bit_nat_eq_self)
qed

lemma word_of_unat: "of_nat (unat x) = (x :: u64)"
  by simp

lemma unat_Suc_word [ring_simps]: "unat (x :: u64) + 1 < 2 ^ 64 \<Longrightarrow> unat (x + 1) = unat x + 1"
  by (simp add: unat_word_ariths)

lemma unat_plus_of_nat:
  "unat (x :: u64) + k < 2 ^ 64 \<Longrightarrow> unat (x + of_nat k) = unat x + k"
  by (simp add: unat_word_ariths unat_of_nat)

lemma unat_minus_le: "unat (y :: u64) \<le> unat x \<Longrightarrow> unat (x - y) = unat x - unat y"
  by (simp add: unat_sub word_le_nat_alt)

lemma word_plus_of_nat_diff: "(t :: u64) + of_nat (unat (h - t)) = h"
  by simp

lemma ring_index_less [simp]: "c \<noteq> 0 \<Longrightarrow> ring_index c p < unat c"
  by (simp add: ring_index_def unat_mod unat_gt_0)

lemma ring_index_plus [ring_simps]:
  assumes "ring_safe c t k"
  shows "ring_index c (t + of_nat k) = (unat t + k) mod unat c"
proof -
  have "unat (t + of_nat k) = (unat t + k) mod 2 ^ 64"
    by (simp add: unat_word_ariths unat_of_nat mod_simps)
  then show ?thesis
    using assms unfolding ring_safe_def
    by (auto simp: ring_index_def unat_mod mod_mod_cancel)
qed

lemma ring_safe_mono: "ring_safe c t k \<Longrightarrow> j \<le> k \<Longrightarrow> ring_safe c t j"
  by (auto simp: ring_safe_def)

lemma mod_add_inj:
  fixes a i j c :: nat
  assumes "(a + i) mod c = (a + j) mod c" "i < c" "j < c"
  shows "i = j"
proof -
  have *: "i = j" if "i \<le> j" "(a + i) mod c = (a + j) mod c" "j < c" for i j
  proof -
    from that have "c dvd (a + j) - (a + i)"
      by (metis mod_eq_dvd_iff_nat add_le_cancel_left)
    then have "c dvd j - i" by simp
    with that show ?thesis by (auto dest: dvd_imp_le)
  qed
  show ?thesis
    using assms * [of i j] * [of j i] by (cases "i \<le> j") auto
qed

lemma ring_index_inj:
  assumes "ring_safe c t k" "i \<le> k" "j \<le> k" "i < unat c" "j < unat c"
    and "ring_index c (t + of_nat i) = ring_index c (t + of_nat j)"
  shows "i = j"
proof -
  have "(unat t + i) mod unat c = (unat t + j) mod unat c"
    using assms ring_index_plus ring_safe_mono by metis
  then show ?thesis using assms(4,5) by (rule mod_add_inj)
qed

text \<open>Two numbers with the same residue are equal or a whole turn of the ring apart.\<close>

lemma same_residue_gap:
  fixes p q c :: nat
  assumes "p mod c = q mod c" "p < q"
  shows "p + c \<le> q"
proof -
  have "c dvd q - p"
    using assms by (metis mod_eq_dvd_iff_nat less_imp_le)
  then have "c \<le> q - p" using assms(2) by (auto dest: dvd_imp_le)
  then show ?thesis using assms(2) by simp
qed

lemma residue_neq:
  fixes p q c :: nat
  assumes "p \<noteq> q" "p < q + c" "q < p + c"
  shows "p mod c \<noteq> q mod c"
  using assms same_residue_gap [of p c q] same_residue_gap [of q c p] by (cases "p < q") auto

section \<open>Counter histories\<close>

lemma length_counter [simp]: "length (counter n) = Suc n"
  by (simp add: counter_def)

lemma counter_nth [simp]: "i \<le> n \<Longrightarrow> counter n ! i = of_nat i"
  by (simp add: counter_def del: upt_Suc)

lemma last_counter [simp]: "last (counter n) = of_nat n"
  by (simp add: counter_def)

lemma counter_Suc: "counter n @ [of_nat n + 1] = counter (Suc n)"
  by (simp add: counter_def add.commute)

lemma counter_0 [simp]: "counter 0 = [0]"
  by (simp add: counter_def)

end
