(* ===== verification/Results.thy ===== *)
theory Results
  imports Line64_Prelude
begin

text \<open>
  The status codes and result structures every queue returns
  (\<open>include/orbitqueue/result.h\<close>), and the exception a constructor throws. A C++ function
  that may throw is modelled as a sum with the exception on the left.
\<close>

section \<open>Definitions\<close>

datatype queue_status =
    Success
  | Empty
  | Full
  | Closed
  | Message_too_large
  | Invalid_capacity
  | Invalid_consumer
  | Consumer_lagged
  | Overwritten
  | Would_block

record write_result =
  wr_status :: queue_status
  wr_sequence :: u64

record read_result =
  rr_status :: queue_status
  rr_bytes_read :: nat
  rr_sequence :: u64

datatype cpp_exception = Invalid_argument string | Logic_error string

definition ok :: "queue_status \<Rightarrow> bool" where
  "ok status \<longleftrightarrow> status = Success"

fun to_string :: "queue_status \<Rightarrow> string" where
  "to_string Success = ''success''"
| "to_string Empty = ''empty''"
| "to_string Full = ''full''"
| "to_string Closed = ''closed''"
| "to_string Message_too_large = ''message_too_large''"
| "to_string Invalid_capacity = ''invalid_capacity''"
| "to_string Invalid_consumer = ''invalid_consumer''"
| "to_string Consumer_lagged = ''consumer_lagged''"
| "to_string Overwritten = ''overwritten''"
| "to_string Would_block = ''would_block''"

text \<open>Aggregate initialisation \<open>{status, sequence}\<close> and \<open>{status, bytes, sequence}\<close>.\<close>

definition write_res :: "queue_status \<Rightarrow> u64 \<Rightarrow> write_result" where
  "write_res st sq = \<lparr>wr_status = st, wr_sequence = sq\<rparr>"

definition read_res :: "queue_status \<Rightarrow> nat \<Rightarrow> u64 \<Rightarrow> read_result" where
  "read_res st n sq = \<lparr>rr_status = st, rr_bytes_read = n, rr_sequence = sq\<rparr>"

section \<open>Lemmas\<close>

lemma ok_iff [simp]: "ok st \<longleftrightarrow> st = Success"
  by (simp add: ok_def)

lemma write_res_sel [simp]:
  "wr_status (write_res st sq) = st" "wr_sequence (write_res st sq) = sq"
  by (simp_all add: write_res_def)

lemma read_res_sel [simp]:
  "rr_status (read_res st n sq) = st" "rr_bytes_read (read_res st n sq) = n"
  "rr_sequence (read_res st n sq) = sq"
  by (simp_all add: read_res_def)

lemma write_res_inject [simp]:
  "write_res st sq = write_res st' sq' \<longleftrightarrow> st = st' \<and> sq = sq'"
  by (simp add: write_res_def)

lemma read_res_inject [simp]:
  "read_res st n sq = read_res st' n' sq' \<longleftrightarrow> st = st' \<and> n = n' \<and> sq = sq'"
  by (simp add: read_res_def)

lemma to_string_inject: "to_string st = to_string st' \<longleftrightarrow> st = st'"
  by (cases st; cases st') simp_all

end
