(* ===== verification/Fixed_Message.thy ===== *)
theory Fixed_Message
  imports Results
begin

text \<open>
  \<open>FixedMessage<MaxPayloadSize>\<close> (\<open>include/orbitqueue/fixed_message.h\<close>): bounded inline
  storage with a size and a logical sequence. The template argument is the parameter \<open>N\<close>.

  Besides the whole-operation functions \<open>fm_assign\<close> and \<open>fm_copy_to\<close>, the theory gives the
  same operations as sequences of single memory accesses (\<open>fm_writes\<close>, \<open>fm_read_step\<close>): the
  concurrent models interleave these accesses with other threads, and the lemmas
  \<open>fm_writes_assign\<close> and \<open>fm_read_copy_to\<close> show that running them undisturbed is the
  whole operation.
\<close>

section \<open>Definitions\<close>

record fixed_message =
  fm_storage :: "byte list"
  fm_size :: nat
  fm_sequence :: u64

definition fm_new :: "nat \<Rightarrow> fixed_message" where
  "fm_new N = \<lparr>fm_storage = replicate N 0, fm_size = 0, fm_sequence = 0\<rparr>"

definition fm_assign ::
    "nat \<Rightarrow> fixed_message \<Rightarrow> byte list \<Rightarrow> u64 \<Rightarrow> write_result \<times> fixed_message" where
  "fm_assign N m payload sequence =
     (if length payload > N then (write_res Message_too_large sequence, m)
      else let m' = m\<lparr>fm_storage := copy_n (length payload) payload (fm_storage m),
                      fm_size := length payload,
                      fm_sequence := sequence\<rparr>
           in (write_res Success (fm_sequence m'), m'))"

definition fm_copy_to :: "fixed_message \<Rightarrow> byte list \<Rightarrow> read_result \<times> byte list" where
  "fm_copy_to m destination =
     (if length destination < fm_size m
      then (read_res Message_too_large 0 (fm_sequence m), destination)
      else (read_res Success (fm_size m) (fm_sequence m),
            copy_n (fm_size m) (fm_storage m) destination))"

subsection \<open>The same operations, one memory access at a time\<close>

datatype fm_write = Write_byte nat byte | Write_size nat | Write_sequence u64

fun fm_do :: "fm_write \<Rightarrow> fixed_message \<Rightarrow> fixed_message" where
  "fm_do (Write_byte k b) m = m\<lparr>fm_storage := (fm_storage m)[k := b]\<rparr>"
| "fm_do (Write_size n) m = m\<lparr>fm_size := n\<rparr>"
| "fm_do (Write_sequence sq) m = m\<lparr>fm_sequence := sq\<rparr>"

definition fm_writes :: "byte list \<Rightarrow> u64 \<Rightarrow> fm_write list" where
  "fm_writes payload sequence =
     map (\<lambda>k. Write_byte k (payload ! k)) [0..<length payload] @
     [Write_size (length payload), Write_sequence sequence]"

datatype fm_reader =
    Read_size "byte list"
  | Read_short "byte list"
  | Read_bytes "byte list" nat nat
  | Read_done read_result "byte list"

fun fm_read_step :: "fixed_message \<Rightarrow> fm_reader \<Rightarrow> fm_reader" where
  "fm_read_step m (Read_size dest) =
     (if length dest < fm_size m then Read_short dest else Read_bytes dest (fm_size m) 0)"
| "fm_read_step m (Read_short dest) =
     Read_done (read_res Message_too_large 0 (fm_sequence m)) dest"
| "fm_read_step m (Read_bytes dest n k) =
     (if k < n then Read_bytes (dest[k := fm_storage m ! k]) n (Suc k)
      else Read_done (read_res Success n (fm_sequence m)) dest)"
| "fm_read_step m (Read_done r dest) = Read_done r dest"

subsection \<open>Well-formedness and contents\<close>

definition fm_wf :: "nat \<Rightarrow> fixed_message \<Rightarrow> bool" where
  "fm_wf N m \<longleftrightarrow> length (fm_storage m) = N \<and> fm_size m \<le> N"

definition fm_payload :: "fixed_message \<Rightarrow> byte list" where
  "fm_payload m = take (fm_size m) (fm_storage m)"

text \<open>The message holds exactly this payload under this sequence.\<close>

definition fm_holds :: "nat \<Rightarrow> byte list \<Rightarrow> u64 \<Rightarrow> fixed_message \<Rightarrow> bool" where
  "fm_holds N payload sq m \<longleftrightarrow>
     fm_wf N m \<and> fm_payload m = payload \<and> fm_sequence m = sq"

text \<open>
  Where a reader stands while it copies a message that holds \<open>payload\<close> into what was
  \<open>dest0\<close>.
\<close>

fun fm_reading :: "byte list \<Rightarrow> u64 \<Rightarrow> byte list \<Rightarrow> fm_reader \<Rightarrow> bool" where
  "fm_reading payload sq dest0 (Read_size dest) \<longleftrightarrow> dest = dest0"
| "fm_reading payload sq dest0 (Read_short dest) \<longleftrightarrow>
     dest = dest0 \<and> length dest0 < length payload"
| "fm_reading payload sq dest0 (Read_bytes dest n k) \<longleftrightarrow>
     n = length payload \<and> n \<le> length dest0 \<and> k \<le> n \<and> dest = copy_n k payload dest0"
| "fm_reading payload sq dest0 (Read_done r dest) \<longleftrightarrow>
     (if length dest0 < length payload
      then r = read_res Message_too_large 0 sq \<and> dest = dest0
      else r = read_res Success (length payload) sq \<and>
           dest = copy_n (length payload) payload dest0)"

text \<open>How many steps the copy still needs at most.\<close>

fun r_rank :: "nat \<Rightarrow> fm_reader \<Rightarrow> nat" where
  "r_rank N (Read_done r d) = 0"
| "r_rank N (Read_short d) = 1"
| "r_rank N (Read_bytes d n k) = n - k + 1"
| "r_rank N (Read_size d) = N + 2"

section \<open>Whole operations\<close>

lemma fm_new_wf [simp]: "fm_wf N (fm_new N)"
  by (simp add: fm_wf_def fm_new_def)

lemma fm_assign_too_large [simp]:
  "length payload > N \<Longrightarrow> fm_assign N m payload sq = (write_res Message_too_large sq, m)"
  by (simp add: fm_assign_def)

lemma fm_assign_status:
  "length payload \<le> N \<Longrightarrow> fst (fm_assign N m payload sq) = write_res Success sq"
  by (simp add: fm_assign_def Let_def)

lemma fm_assign_holds:
  assumes "fm_wf N m" "length payload \<le> N"
  shows "fm_holds N payload sq (snd (fm_assign N m payload sq))"
  using assms
  by (simp add: fm_assign_def fm_holds_def fm_wf_def fm_payload_def Let_def)

lemma fm_assign_wf:
  assumes "fm_wf N m"
  shows "fm_wf N (snd (fm_assign N m payload sq))"
proof (cases "length payload \<le> N")
  case True
  then show ?thesis using assms fm_assign_holds by (auto simp: fm_holds_def)
next
  case False
  then show ?thesis using assms by simp
qed

lemma fm_holds_size: "fm_holds N payload sq m \<Longrightarrow> fm_size m = length payload"
  by (auto simp: fm_holds_def fm_wf_def fm_payload_def)

lemma fm_holds_nth:
  assumes "fm_holds N payload sq m" "k < length payload"
  shows "fm_storage m ! k = payload ! k"
proof -
  have "payload = take (length payload) (fm_storage m)"
    using assms(1) fm_holds_size [OF assms(1)] by (simp add: fm_holds_def fm_payload_def)
  then show ?thesis using assms(2) by (metis nth_take)
qed

lemma fm_copy_to_holds:
  assumes "fm_holds N payload sq m"
  shows "fm_copy_to m dest =
    (if length dest < length payload then (read_res Message_too_large 0 sq, dest)
     else (read_res Success (length payload) sq, copy_n (length payload) payload dest))"
proof -
  have "fm_size m = length payload" using assms by (rule fm_holds_size)
  moreover from this have "take (length payload) (fm_storage m) = payload"
    and "fm_sequence m = sq"
    using assms by (simp_all add: fm_holds_def fm_payload_def)
  ultimately show ?thesis by (simp add: fm_copy_to_def copy_n_def)
qed

section \<open>Single accesses\<close>

lemma fm_do_length [simp]: "length (fm_storage (fm_do w m)) = length (fm_storage m)"
  by (cases w) simp_all

lemma fm_write_bytes:
  assumes "n \<le> length payload" "n \<le> length (fm_storage m)"
  shows "fold fm_do (map (\<lambda>k. Write_byte k (payload ! k)) [0..<n]) m
         = m\<lparr>fm_storage := copy_n n payload (fm_storage m)\<rparr>"
  using assms
  by (induction n) (simp_all add: copy_n_step)

lemma fm_do_wf:
  assumes "w \<in> set (fm_writes payload sq)" "length payload \<le> N" "fm_wf N m"
  shows "fm_wf N (fm_do w m)"
  using assms by (auto simp: fm_writes_def fm_wf_def)

lemma fm_writes_assign:
  assumes "length (fm_storage m) = N" "length payload \<le> N"
  shows "fold fm_do (fm_writes payload sq) m = snd (fm_assign N m payload sq)"
  using assms
  by (simp add: fm_writes_def fm_write_bytes fm_assign_def Let_def)

lemma fm_writes_holds:
  assumes "length (fm_storage m) = N" "length payload \<le> N"
  shows "fm_holds N payload sq (fold fm_do (fm_writes payload sq) m)"
  using assms
  by (simp add: fm_writes_assign fm_assign_def fm_holds_def fm_wf_def fm_payload_def Let_def)

text \<open>The write part of an assignment whose remaining accesses are \<open>todo\<close>.\<close>

lemma fm_writes_nonempty [simp]: "fm_writes payload sq \<noteq> []"
  by (simp add: fm_writes_def)

lemma fm_reading_step:
  assumes "fm_holds N payload sq m" "fm_reading payload sq dest0 r"
  shows "fm_reading payload sq dest0 (fm_read_step m r)"
proof -
  have size: "fm_size m = length payload" using assms(1) by (rule fm_holds_size)
  have seq: "fm_sequence m = sq" using assms(1) by (simp add: fm_holds_def)
  have nth: "fm_storage m ! k = payload ! k" if "k < length payload" for k
    using assms(1) that by (rule fm_holds_nth)
  show ?thesis
    using assms(2) size seq nth
    by (cases r) (auto simp: copy_n_step)
qed

lemma fm_read_done_iff: "fm_reading payload sq dest0 (Read_done r dest) \<Longrightarrow>
    fm_holds N payload sq m \<Longrightarrow> (r, dest) = fm_copy_to m dest0"
  by (auto simp: fm_copy_to_holds split: if_splits)

text \<open>An undisturbed reader needs at most two more steps than the payload has bytes.\<close>

lemma fm_read_bytes_run:
  assumes "fm_holds N payload sq m" "k \<le> length payload" "length payload \<le> length dest"
  shows "(fm_read_step m ^^ Suc (length payload - k))
           (Read_bytes (copy_n k payload dest) (length payload) k)
         = Read_done (read_res Success (length payload) sq) (copy_n (length payload) payload dest)"
  using assms(2)
proof (induction "length payload - k" arbitrary: k)
  case 0
  then show ?case using assms(1) by (simp add: fm_holds_def)
next
  case (Suc d)
  then have k: "k < length payload" by simp
  have "fm_storage m ! k = payload ! k" using assms(1) k by (rule fm_holds_nth)
  then have step: "fm_read_step m (Read_bytes (copy_n k payload dest) (length payload) k)
      = Read_bytes (copy_n (Suc k) payload dest) (length payload) (Suc k)"
    using k assms(3) by (simp add: copy_n_step)
  have "Suc (length payload - k) = Suc (Suc (length payload - Suc k))" using k by simp
  then show ?case
    using Suc.hyps(1) [of "Suc k"] Suc.hyps(2) k by (simp add: step funpow_swap1 del: fm_read_step.simps)
qed

lemma fm_read_copy_to:
  assumes "fm_holds N payload sq m"
  shows "(fm_read_step m ^^ (length payload + 2)) (Read_size dest)
         = Read_done (fst (fm_copy_to m dest)) (snd (fm_copy_to m dest))"
proof (cases "length dest < length payload")
  case True
  have fixed: "(fm_read_step m ^^ j) (Read_done r d) = Read_done r d" for j r d
    by (induction j) simp_all
  have "(fm_read_step m ^^ (length payload + 2)) (Read_size dest)
        = (fm_read_step m ^^ length payload) (fm_read_step m (fm_read_step m (Read_size dest)))"
    by (simp add: funpow_add funpow_swap1 numeral_2_eq_2)
  also have "\<dots> = Read_done (read_res Message_too_large 0 sq) dest"
    using True assms fm_holds_size [OF assms] by (simp add: fixed fm_holds_def)
  finally show ?thesis using True by (simp add: fm_copy_to_holds [OF assms])
next
  case False
  have "(fm_read_step m ^^ (length payload + 2)) (Read_size dest)
        = (fm_read_step m ^^ Suc (length payload)) (fm_read_step m (Read_size dest))"
    by (simp add: funpow_swap1 numeral_2_eq_2)
  also have "\<dots> = (fm_read_step m ^^ Suc (length payload))
                    (Read_bytes (copy_n 0 payload dest) (length payload) 0)"
    using False fm_holds_size [OF assms] by simp
  also have "\<dots> = Read_done (read_res Success (length payload) sq)
                              (copy_n (length payload) payload dest)"
    using fm_read_bytes_run [OF assms, of 0 dest] False by simp
  finally show ?thesis using False by (simp add: fm_copy_to_holds [OF assms])
qed

lemma read_step_rank:
  assumes "fm_holds N payload sq m" "\<And>res d. r \<noteq> Read_done res d"
  shows "r_rank N (fm_read_step m r) < r_rank N r"
proof -
  have "fm_size m \<le> N" using assms(1) by (simp add: fm_holds_def fm_wf_def)
  then show ?thesis using assms(2) by (cases r) auto
qed

end
