(* ===== verification/Contracts.thy ===== *)
theory Contracts
  imports Results
begin

text \<open>
  The interfaces the components promise to their clients, as locales, and what a client
  obtains from each promise, proved once. The queue theories interpret the locales on the
  model of the code.

  \<^item> \<open>invariant_system\<close>: a step relation with an inductive invariant, and \<open>finishing_system\<close>: one that
    can moreover always be brought to an end;
  \<^item> \<open>bounded_fifo\<close>: a bounded work-sharing queue (SPSC, MPMC, blocking);
  \<^item> \<open>multicast\<close>: a retained-history broadcast queue with one cursor per consumer.
\<close>

section \<open>Definitions\<close>

text \<open>The states reachable from an initial state.\<close>

inductive reachable :: "('s \<Rightarrow> bool) \<Rightarrow> ('s \<Rightarrow> 's \<Rightarrow> bool) \<Rightarrow> 's \<Rightarrow> bool"
  for init step where
  reach_init: "init s \<Longrightarrow> reachable init step s"
| reach_step: "reachable init step s \<Longrightarrow> step s t \<Longrightarrow> reachable init step t"

text \<open>A client of a work-sharing queue issues pushes and pops.\<close>

datatype 'i fifo_op = Op_push 'i | Op_pop

text \<open>
  Running a client program: the items whose push succeeded, the items popped, both in
  order, and the final queue.
\<close>

fun drive ::
    "('q \<Rightarrow> 'i \<Rightarrow> queue_status \<times> 'q) \<Rightarrow> ('q \<Rightarrow> queue_status \<times> 'i option \<times> 'q) \<Rightarrow>
     'q \<Rightarrow> 'i fifo_op list \<Rightarrow> 'i list \<times> 'i list \<times> 'q" where
  "drive push pop q [] = ([], [], q)"
| "drive push pop q (Op_push x # ops) =
     (case push q x of (st, q') \<Rightarrow>
       (case drive push pop q' ops of (ins, outs, q'') \<Rightarrow>
         ((if st = Success then x # ins else ins), outs, q'')))"
| "drive push pop q (Op_pop # ops) =
     (case pop q of (st, y, q') \<Rightarrow>
       (case drive push pop q' ops of (ins, outs, q'') \<Rightarrow>
         (ins, (case y of Some x \<Rightarrow> x # outs | None \<Rightarrow> outs), q'')))"

fun pushes :: "'i fifo_op list \<Rightarrow> 'i list" where
  "pushes [] = []"
| "pushes (Op_push x # ops) = x # pushes ops"
| "pushes (Op_pop # ops) = pushes ops"

text \<open>
  A producer and one consumer of a broadcast queue: publications and reads in any order. The run
  yields what the consumer received with its sequence numbers, how often it was told that it
  lagged, the final queue and the final cursor.
\<close>

datatype ('i, 'd) mc_op = Mc_publish 'i | Mc_read 'd

fun follow ::
    "('q \<Rightarrow> 'i \<Rightarrow> queue_status \<times> nat \<times> 'q) \<Rightarrow> ('q \<Rightarrow> nat \<Rightarrow> 'd \<Rightarrow> queue_status \<times> 'i option \<times> nat) \<Rightarrow>
     'q \<Rightarrow> nat \<Rightarrow> ('i, 'd) mc_op list \<Rightarrow> (nat \<times> 'i) list \<times> nat \<times> 'q \<times> nat" where
  "follow publish read q nx [] = ([], 0, q, nx)"
| "follow publish read q nx (Mc_publish x # ops) =
     (case publish q x of (st, sq, q') \<Rightarrow> follow publish read q' nx ops)"
| "follow publish read q nx (Mc_read d # ops) =
     (case read q nx d of (st, y, nx') \<Rightarrow>
       (case follow publish read q nx' ops of (got, lags, q', nx'') \<Rightarrow>
         ((case y of Some x \<Rightarrow> (nx, x) # got | None \<Rightarrow> got),
          (if st = Consumer_lagged then Suc lags else lags), q', nx'')))"

fun publications :: "('i, 'd) mc_op list \<Rightarrow> 'i list" where
  "publications [] = []"
| "publications (Mc_publish x # ops) = x # publications ops"
| "publications (Mc_read d # ops) = publications ops"

section \<open>Step relations with an invariant\<close>

locale invariant_system =
  fixes init :: "'s \<Rightarrow> bool" and step :: "'s \<Rightarrow> 's \<Rightarrow> bool" and inv :: "'s \<Rightarrow> bool"
  assumes init_inv: "init s \<Longrightarrow> inv s"
    and step_inv: "inv s \<Longrightarrow> step s t \<Longrightarrow> inv t"
begin

lemma reachable_inv: "reachable init step s \<Longrightarrow> inv s"
  by (induction rule: reachable.induct) (auto intro: init_inv step_inv)

lemma run_inv: "step\<^sup>*\<^sup>* s t \<Longrightarrow> inv s \<Longrightarrow> inv t"
  by (induction rule: rtranclp_induct) (auto intro: step_inv)

end

text \<open>A system that can always be brought to an end: outside its final states some step decreases a rank.\<close>

locale finishing_system = invariant_system +
  fixes rank :: "'a \<Rightarrow> nat" and final :: "'a \<Rightarrow> bool"
  assumes progress: "inv s \<Longrightarrow> \<not> final s \<Longrightarrow> \<exists>t. step s t \<and> rank t < rank s"
begin

lemma can_finish: "inv s \<Longrightarrow> \<exists>t. step\<^sup>*\<^sup>* s t \<and> final t"
proof (induction "rank s" arbitrary: s rule: less_induct)
  case less
  show ?case
  proof (cases "final s")
    case False
    then obtain t where t: "step s t" "rank t < rank s" using progress [OF less(2)] by blast
    then obtain u where "step\<^sup>*\<^sup>* t u" "final u" using less(1) step_inv [OF less(2)] by blast
    then show ?thesis using t(1) by (meson converse_rtranclp_into_rtranclp)
  qed blast
qed

end

section \<open>Bounded work-sharing queues\<close>

text \<open>
  \<open>room q n\<close> says that the counters of \<open>q\<close> leave room for \<open>n\<close> more pushes: position
  exhaustion is outside the supported lifetime of the lock-free queues. \<open>good\<close> is the set
  of items the queue can carry (payloads within the template bound).
\<close>

locale bounded_fifo =
  fixes inv :: "'q \<Rightarrow> bool"
    and contents :: "'q \<Rightarrow> 'i list"
    and cap :: "'q \<Rightarrow> nat"
    and room :: "'q \<Rightarrow> nat \<Rightarrow> bool"
    and good :: "'i \<Rightarrow> bool"
    and push :: "'q \<Rightarrow> 'i \<Rightarrow> queue_status \<times> 'q"
    and pop :: "'q \<Rightarrow> queue_status \<times> 'i option \<times> 'q"
  assumes bounded: "inv q \<Longrightarrow> length (contents q) \<le> cap q"
    and push_full: "inv q \<Longrightarrow> good x \<Longrightarrow> length (contents q) = cap q \<Longrightarrow> push q x = (Full, q)"
    and push_success: "inv q \<Longrightarrow> good x \<Longrightarrow> room q (Suc n) \<Longrightarrow> length (contents q) < cap q \<Longrightarrow>
      fst (push q x) = Success \<and> inv (snd (push q x)) \<and>
      contents (snd (push q x)) = contents q @ [x] \<and>
      cap (snd (push q x)) = cap q \<and> room (snd (push q x)) n"
    and pop_empty: "inv q \<Longrightarrow> contents q = [] \<Longrightarrow> pop q = (Empty, None, q)"
    and pop_success: "inv q \<Longrightarrow> contents q = x # xs \<Longrightarrow>
      \<exists>q'. pop q = (Success, Some x, q') \<and> inv q' \<and> contents q' = xs \<and> cap q' = cap q \<and>
           (\<forall>n. room q n \<longrightarrow> room q' n)"
    and room_less: "room q (Suc n) \<Longrightarrow> room q n"
begin

lemma drive_conserves:
  assumes "inv q" "\<forall>x \<in> set (pushes ops). good x" "room q (length (pushes ops))"
    and "drive push pop q ops = (ins, outs, q')"
  shows "contents q @ ins = outs @ contents q' \<and> inv q' \<and> cap q' = cap q"
  using assms
proof (induction ops arbitrary: q ins outs)
  case Nil
  then show ?case by simp
next
  case (Cons op ops)
  show ?case
  proof (cases op)
    case (Op_push x)
    obtain st q1 where p: "push q x = (st, q1)" by fastforce
    obtain ins1 outs1 q2 where d: "drive push pop q1 ops = (ins1, outs1, q2)"
      by (metis prod_cases3)
    have x: "good x" and room: "room q (Suc (length (pushes ops)))"
      using Cons.prems(2,3) Op_push by simp_all
    have res: "ins = (if st = Success then x # ins1 else ins1)" "outs = outs1" "q' = q2"
      using Cons.prems(4) Op_push p d by auto
    show ?thesis
    proof (cases "length (contents q) = cap q")
      case True
      then have "push q x = (Full, q)" using push_full Cons.prems(1) x by blast
      then have "st = Full" "q1 = q" using p by simp_all
      then show ?thesis
        using Cons.IH [of q ins1 outs1] Cons.prems Op_push d res room room_less by auto
    next
      case False
      then have lt: "length (contents q) < cap q" using bounded [OF Cons.prems(1)] by simp
      have "st = Success" "inv q1" "contents q1 = contents q @ [x]" "cap q1 = cap q"
        "room q1 (length (pushes ops))"
        using push_success [OF Cons.prems(1) x room lt] p by simp_all
      then show ?thesis
        using Cons.IH [of q1 ins1 outs1] Cons.prems Op_push d res by auto
    qed
  next
    case Op_pop
    show ?thesis
    proof (cases "contents q")
      case Nil
      then have "pop q = (Empty, None, q)" using pop_empty Cons.prems(1) by blast
      then show ?thesis
        using Cons.IH [of q ins outs] Cons.prems Op_pop by (auto split: prod.splits)
    next
      case (Cons x xs)
      obtain q1 where q1: "pop q = (Success, Some x, q1)" "inv q1" "contents q1 = xs"
          "cap q1 = cap q" "\<forall>n. room q n \<longrightarrow> room q1 n"
        using pop_success [OF Cons.prems(1) Cons] by blast
      obtain ins1 outs1 q2 where d: "drive push pop q1 ops = (ins1, outs1, q2)"
        by (metis prod_cases3)
      have res: "ins = ins1" "outs = x # outs1" "q' = q2"
        using Cons.prems(4) Op_pop q1(1) d by auto
      show ?thesis
        using Cons.IH [of q1 ins1 outs1] Cons.prems Op_pop d res q1 Cons by auto
    qed
  qed
qed

lemma push_status:
  assumes "inv q" "good x" "room q (Suc n)"
  shows "fst (push q x) = (if length (contents q) = cap q then Full else Success)"
  using assms bounded [OF assms(1)] push_full push_success [OF assms]
  by (auto simp: le_less)

lemma pop_status:
  assumes "inv q"
  shows "fst (pop q) = (if contents q = [] then Empty else Success)"
  using assms pop_empty pop_success by (cases "contents q") (auto, fastforce)

end

section \<open>Broadcast queues with retained history\<close>

text \<open>
  \<open>hist q log\<close> says that \<open>log\<close> are all payloads published so far; the queue retains the last
  \<open>cap q\<close> of them. Sequence numbers start at 1 and stay below \<open>lim\<close>.
\<close>

locale multicast =
  fixes hist :: "'q \<Rightarrow> 'i list \<Rightarrow> bool"
    and cap :: "'q \<Rightarrow> nat"
    and lim :: nat
    and good :: "'i \<Rightarrow> bool"
    and fits :: "'i \<Rightarrow> 'd \<Rightarrow> bool"
    and publish :: "'q \<Rightarrow> 'i \<Rightarrow> queue_status \<times> nat \<times> 'q"
    and read :: "'q \<Rightarrow> nat \<Rightarrow> 'd \<Rightarrow> queue_status \<times> 'i option \<times> nat"
  assumes cap_pos: "hist q log \<Longrightarrow> 0 < cap q"
    and publish_appends: "hist q log \<Longrightarrow> good x \<Longrightarrow> Suc (length log) < lim \<Longrightarrow>
      \<exists>q'. publish q x = (Success, Suc (length log), q') \<and> hist q' (log @ [x]) \<and> cap q' = cap q"
    and read_empty: "hist q log \<Longrightarrow> length log < lim \<Longrightarrow> read q (Suc (length log)) d = (Empty, None, Suc (length log))"
    and read_lagged: "hist q log \<Longrightarrow> length log < lim \<Longrightarrow> 0 < nx \<Longrightarrow> nx + cap q \<le> length log \<Longrightarrow>
      read q nx d = (Consumer_lagged, None, Suc (length log) - cap q)"
    and read_retained: "hist q log \<Longrightarrow> length log < lim \<Longrightarrow> 0 < nx \<Longrightarrow> nx \<le> length log \<Longrightarrow>
      length log < nx + cap q \<Longrightarrow>
      read q nx d = (if fits (log ! (nx - 1)) d then (Success, Some (log ! (nx - 1)), Suc nx)
                       else (Message_too_large, None, nx))"
begin

lemma read_cases:
  assumes "hist q log" "length log < lim" "0 < nx" "nx \<le> Suc (length log)"
  obtains "read q nx d = (Empty, None, nx)"
  | old where "read q nx d = (Consumer_lagged, None, old)" "nx < old" "old \<le> Suc (length log)"
  | "read q nx d = (Message_too_large, None, nx)"
  | "read q nx d = (Success, Some (log ! (nx - 1)), Suc nx)" "nx \<le> length log"
proof -
  consider "nx = Suc (length log)" | "nx + cap q \<le> length log"
    | "nx \<le> length log" "length log < nx + cap q" using assms(4) by linarith
  then show ?thesis
  proof cases
    case 1
    then show ?thesis using that(1) read_empty [OF assms(1,2)] by simp
  next
    case 2
    then show ?thesis
      using that(2) [of "Suc (length log) - cap q"] read_lagged [OF assms(1-3)] by simp
  next
    case 3
    then show ?thesis
      using that(3,4) read_retained [OF assms(1-3)] by (cases "fits (log ! (nx - 1)) d") auto
  qed
qed

text \<open>
  What a consumer receives are payloads of the history under their sequence numbers, in strictly
  increasing order; without a lag report nothing is missing in between.
\<close>

lemma follow_delivers:
  assumes "hist q log" "\<forall>x \<in> set (publications ops). good x" "0 < nx" "nx \<le> Suc (length log)"
    and "length log + length (publications ops) < lim"
    and "follow publish read q nx ops = (got, lags, q', nx')"
  shows "hist q' (log @ publications ops) \<and> nx \<le> nx' \<and>
    nx' \<le> Suc (length log + length (publications ops)) \<and> sorted_wrt (<) (map fst got) \<and>
    (\<forall>(s, x) \<in> set got. nx \<le> s \<and> s < nx' \<and> x = (log @ publications ops) ! (s - 1)) \<and>
    (lags = 0 \<longrightarrow> map fst got = [nx..<nx'])"
  using assms
proof (induction ops arbitrary: q log nx got lags q' nx')
  case Nil
  then show ?case by simp
next
  case (Cons op ops)
  show ?case
  proof (cases op)
    case (Mc_publish x)
    obtain q1 where q1: "publish q x = (Success, Suc (length log), q1)" "hist q1 (log @ [x])"
    proof -
      have "good x" "Suc (length log) < lim" using Cons.prems(2,5) Mc_publish by simp_all
      then show ?thesis using that publish_appends [OF Cons.prems(1)] by blast
    qed
    show ?thesis
      using Cons.IH [OF q1(2), of nx got lags q' nx'] Cons.prems Mc_publish q1(1) by simp
  next
    case (Mc_read d)
    obtain st y n1 where r: "read q nx d = (st, y, n1)" by (metis prod_cases3)
    obtain got1 lags1 q1 n2 where f: "follow publish read q n1 ops = (got1, lags1, q1, n2)"
      by (metis prod_cases4)
    have res: "got = (case y of Some x \<Rightarrow> (nx, x) # got1 | None \<Rightarrow> got1)"
      "lags = (if st = Consumer_lagged then Suc lags1 else lags1)" "q' = q1" "nx' = n2"
      using Cons.prems(6) Mc_read r f by auto
    have pubs: "publications (op # ops) = publications ops" using Mc_read by simp
    have lim: "length log < lim" using Cons.prems(5) by simp
    have n1: "nx \<le> n1" "0 < n1" "n1 \<le> Suc (length log)"
      "y = None \<or> n1 = Suc nx \<and> y = Some (log ! (nx - 1)) \<and> nx \<le> length log"
      "st \<noteq> Consumer_lagged \<longrightarrow> y = None \<longrightarrow> n1 = nx" "st = Consumer_lagged \<longrightarrow> y = None"
      by (rule read_cases [OF Cons.prems(1) lim Cons.prems(3,4), of d];
          use r Cons.prems(3,4) in auto)+
    note IH = Cons.IH [OF Cons.prems(1) _ n1(2,3) _ f]
    have IH: "hist q' (log @ publications ops) \<and> n1 \<le> nx' \<and>
      nx' \<le> Suc (length log + length (publications ops)) \<and> sorted_wrt (<) (map fst got1) \<and>
      (\<forall>(s, x) \<in> set got1. n1 \<le> s \<and> s < nx' \<and> x = (log @ publications ops) ! (s - 1)) \<and>
      (lags1 = 0 \<longrightarrow> map fst got1 = [n1..<nx'])"
      using IH Cons.prems(2,5) pubs res(3,4) by simp
    show ?thesis
    proof (cases y)
      case None
      then show ?thesis using IH n1 res pubs by (auto split: if_splits)
    next
      case (Some x)
      then have x: "n1 = Suc nx" "x = log ! (nx - 1)" "nx \<le> length log" "st \<noteq> Consumer_lagged"
        using n1 by auto
      have "nx - 1 < length log" using x(3) Cons.prems(3) by linarith
      then have "x = (log @ publications ops) ! (nx - 1)" using x(2) by (simp add: nth_append)
      moreover have "[nx..<nx'] = nx # [n1..<nx']" using IH x(1) by (simp add: upt_rec [of "nx"])
      moreover have "\<forall>s \<in> fst ` set got1. nx < s" using IH x(1) by fastforce
      moreover have "got = (nx, x) # got1" "lags = lags1" using res x(4) Some by simp_all
      ultimately show ?thesis using IH x(1,3) pubs n1 by auto
    qed
  qed
qed

end

end
