(* ===== verification/Spsc_Queue.thy ===== *)
theory Spsc_Queue
  imports Fixed_Message Contracts
begin

text \<open>
  \<open>SPSCQueue<MaxPayloadSize>\<close> (\<open>include/orbitqueue/spsc_queue.h\<close>), each operation as one
  function from the queue to its result and the new queue. The interleaving of a producer
  and a consumer thread is in \<open>Spsc_Concurrent\<close>.
\<close>

section \<open>Definitions\<close>

record spsc_queue =
  spsc_capacity :: u64
  spsc_slots :: "fixed_message list"
  spsc_head :: u64
  spsc_tail :: u64

definition spsc_make :: "nat \<Rightarrow> u64 \<Rightarrow> cpp_exception + spsc_queue" where
  "spsc_make N capacity =
     (if capacity = 0
      then Inl (Invalid_argument ''SPSCQueue capacity must be greater than zero'')
      else Inr \<lparr>spsc_capacity = capacity, spsc_slots = replicate (unat capacity) (fm_new N),
                spsc_head = 0, spsc_tail = 0\<rparr>)"

definition spsc_try_push ::
    "nat \<Rightarrow> spsc_queue \<Rightarrow> byte list \<Rightarrow> write_result \<times> spsc_queue" where
  "spsc_try_push N q payload =
     (if length payload > N then (write_res Message_too_large 0, q)
      else let head = spsc_head q in
        if head - spsc_tail q = spsc_capacity q then (write_res Full 0, q)
        else let sequence = head + 1;
                 i = ring_index (spsc_capacity q) head;
                 (result, slot) = fm_assign N (spsc_slots q ! i) payload sequence
             in (result, q\<lparr>spsc_slots := (spsc_slots q)[i := slot], spsc_head := sequence\<rparr>))"

definition spsc_try_pop ::
    "spsc_queue \<Rightarrow> byte list \<Rightarrow> read_result \<times> byte list \<times> spsc_queue" where
  "spsc_try_pop q destination =
     (let tail = spsc_tail q in
      if tail = spsc_head q then (read_res Empty 0 0, destination, q)
      else let (result, destination') =
                 fm_copy_to (spsc_slots q ! ring_index (spsc_capacity q) tail) destination
           in if ok (rr_status result) then (result, destination', q\<lparr>spsc_tail := tail + 1\<rparr>)
              else (result, destination', q))"

definition spsc_empty :: "spsc_queue \<Rightarrow> bool" where
  "spsc_empty q \<longleftrightarrow> spsc_head q = spsc_tail q"

definition spsc_full :: "spsc_queue \<Rightarrow> bool" where
  "spsc_full q \<longleftrightarrow> spsc_head q - spsc_tail q = spsc_capacity q"

subsection \<open>Contents and invariant\<close>

definition spsc_count :: "spsc_queue \<Rightarrow> nat" where
  "spsc_count q = unat (spsc_head q - spsc_tail q)"

text \<open>The slot of the \<open>k\<close>-th unread message.\<close>

definition spsc_slot :: "spsc_queue \<Rightarrow> nat \<Rightarrow> fixed_message" where
  "spsc_slot q k = spsc_slots q ! ring_index (spsc_capacity q) (spsc_tail q + of_nat k)"

definition spsc_contents :: "spsc_queue \<Rightarrow> byte list list" where
  "spsc_contents q = map (\<lambda>k. fm_payload (spsc_slot q k)) [0..<spsc_count q]"

definition spsc_inv :: "nat \<Rightarrow> spsc_queue \<Rightarrow> bool" where
  "spsc_inv N q \<longleftrightarrow>
     spsc_capacity q \<noteq> 0 \<and> length (spsc_slots q) = unat (spsc_capacity q) \<and>
     (\<forall>m \<in> set (spsc_slots q). fm_wf N m) \<and>
     spsc_count q \<le> unat (spsc_capacity q) \<and>
     ring_safe (spsc_capacity q) (spsc_tail q) (spsc_count q) \<and>
     (\<forall>k < spsc_count q. fm_sequence (spsc_slot q k) = spsc_tail q + of_nat k + 1)"

text \<open>
  Room for \<open>n\<close> more publications before the 64-bit head counter is exhausted; a capacity
  that divides \<open>2 ^ 64\<close> never runs out.
\<close>

definition spsc_room :: "spsc_queue \<Rightarrow> nat \<Rightarrow> bool" where
  "spsc_room q n \<longleftrightarrow> ring_safe (spsc_capacity q) (spsc_head q) n"

text \<open>The two operations as a client with a full-size destination uses them.\<close>

definition spsc_push_op :: "nat \<Rightarrow> spsc_queue \<Rightarrow> byte list \<Rightarrow> queue_status \<times> spsc_queue" where
  "spsc_push_op N q payload = (case spsc_try_push N q payload of (r, q') \<Rightarrow> (wr_status r, q'))"

definition spsc_pop_op ::
    "nat \<Rightarrow> spsc_queue \<Rightarrow> queue_status \<times> byte list option \<times> spsc_queue" where
  "spsc_pop_op N q =
     (case spsc_try_pop q (replicate N 0) of (r, dest, q') \<Rightarrow>
        (rr_status r,
         (if ok (rr_status r) then Some (take (rr_bytes_read r) dest) else None), q'))"

section \<open>Helper lemmas\<close>

lemma spsc_count_le: "spsc_inv N q \<Longrightarrow> spsc_count q \<le> unat (spsc_capacity q)"
  by (simp add: spsc_inv_def)

lemma spsc_full_iff_count:
  "spsc_head q - spsc_tail q = spsc_capacity q \<longleftrightarrow> spsc_count q = unat (spsc_capacity q)"
  by (simp add: spsc_count_def word_unat_eq_iff)

lemma spsc_empty_iff_count: "spsc_tail q = spsc_head q \<longleftrightarrow> spsc_count q = 0"
  by (auto simp: spsc_count_def unat_eq_0)

lemma spsc_head_eq: "spsc_head q = spsc_tail q + of_nat (spsc_count q)"
  by (simp add: spsc_count_def)

lemma length_spsc_contents [simp]: "length (spsc_contents q) = spsc_count q"
  by (simp add: spsc_contents_def)

lemma spsc_slot_wf: "spsc_inv N q \<Longrightarrow> fm_wf N (spsc_slot q k)"
  by (auto simp: spsc_inv_def spsc_slot_def)

lemma spsc_slot_holds:
  assumes "spsc_inv N q" "k < spsc_count q"
  shows "fm_holds N (spsc_contents q ! k) (spsc_tail q + of_nat k + 1) (spsc_slot q k)"
  using assms spsc_slot_wf [OF assms(1)]
  by (simp add: fm_holds_def spsc_contents_def spsc_inv_def)

lemma spsc_payload_bound:
  assumes "spsc_inv N q" "p \<in> set (spsc_contents q)"
  shows "length p \<le> N"
  using assms spsc_slot_wf [OF assms(1)]
  by (auto simp: spsc_contents_def fm_payload_def fm_wf_def)

text \<open>Within the supported lifetime the next publication does not break the ring order.\<close>

lemma spsc_room_tail:
  assumes "spsc_inv N q" "spsc_room q n"
  shows "ring_safe (spsc_capacity q) (spsc_tail q) (spsc_count q + n)"
proof (cases "unat (spsc_capacity q) dvd 2 ^ 64")
  case True
  then show ?thesis by (simp add: ring_safe_def)
next
  case False
  then have "unat (spsc_tail q) + spsc_count q < 2 ^ 64"
    using assms(1) by (simp add: spsc_inv_def ring_safe_def)
  then have "unat (spsc_head q) = unat (spsc_tail q) + spsc_count q"
    by (subst spsc_head_eq) (simp add: unat_plus_of_nat)
  then show ?thesis using assms(2) False by (simp add: spsc_room_def ring_safe_def)
qed

text \<open>What a successful push writes, and that it leaves every unread slot alone.\<close>

lemma spsc_push_step:
  assumes inv: "spsc_inv N q" and size: "length payload \<le> N"
    and nfull: "spsc_count q < unat (spsc_capacity q)"
  obtains q' where "spsc_try_push N q payload = (write_res Success (spsc_head q + 1), q')"
    and "spsc_capacity q' = spsc_capacity q" and "spsc_tail q' = spsc_tail q"
    and "spsc_head q' = spsc_head q + 1" and "spsc_count q' = Suc (spsc_count q)"
    and "length (spsc_slots q') = length (spsc_slots q)"
    and "\<forall>m \<in> set (spsc_slots q'). fm_wf N m"
    and "fm_holds N payload (spsc_head q + 1) (spsc_slot q' (spsc_count q))"
    and "\<And>k. spsc_room q 1 \<Longrightarrow> k < spsc_count q \<Longrightarrow> spsc_slot q' k = spsc_slot q k"
proof -
  define i where "i = ring_index (spsc_capacity q) (spsc_head q)"
  define m where "m = snd (fm_assign N (spsc_slots q ! i) payload (spsc_head q + 1))"
  define q' where "q' = q\<lparr>spsc_slots := (spsc_slots q)[i := m], spsc_head := spsc_head q + 1\<rparr>"
  have i: "i < length (spsc_slots q)" using inv by (simp add: i_def spsc_inv_def)
  have wf: "fm_wf N (spsc_slots q ! i)" using inv i by (simp add: spsc_inv_def)
  have holds: "fm_holds N payload (spsc_head q + 1) m"
    unfolding m_def using wf size by (rule fm_assign_holds)
  have ih: "ring_index (spsc_capacity q) (spsc_tail q + of_nat (spsc_count q)) = i"
    by (simp add: i_def flip: spsc_head_eq)
  have "unat (spsc_capacity q) < 2 ^ 64" by (rule unat_less_2p64)
  then have cnt: "spsc_count q' = Suc (spsc_count q)"
    using nfull unat_Suc_word [of "spsc_head q - spsc_tail q"]
    by (simp add: q'_def spsc_count_def algebra_simps)
  have res: "spsc_try_push N q payload = (write_res Success (spsc_head q + 1), q')"
    using size nfull fm_assign_status [OF size, of "spsc_slots q ! i" "spsc_head q + 1"]
    by (simp add: spsc_try_push_def spsc_full_iff_count Let_def i_def [symmetric] m_def q'_def
        case_prod_beta)
  have frame: "spsc_slot q' k = spsc_slot q k" if "spsc_room q 1" "k < spsc_count q" for k
  proof -
    have safe: "ring_safe (spsc_capacity q) (spsc_tail q) (spsc_count q)"
      using inv by (simp add: spsc_inv_def)
    have "ring_index (spsc_capacity q) (spsc_tail q + of_nat k) \<noteq> i"
      using ring_index_inj [OF safe, of k "spsc_count q"] that(2) nfull ih by auto
    then show ?thesis by (simp add: spsc_slot_def q'_def)
  qed
  show ?thesis
  proof (rule that [OF res])
    show "\<forall>m \<in> set (spsc_slots q'). fm_wf N m"
      using inv holds set_update_subset_insert [of "spsc_slots q" i m]
      by (auto simp: q'_def spsc_inv_def fm_holds_def)
    show "fm_holds N payload (spsc_head q + 1) (spsc_slot q' (spsc_count q))"
      using holds i ih by (simp add: spsc_slot_def q'_def)
  qed (use cnt frame in \<open>simp_all add: q'_def\<close>)
qed

lemma spsc_push_success:
  assumes inv: "spsc_inv N q" and size: "length payload \<le> N"
    and nfull: "spsc_count q < unat (spsc_capacity q)" and room: "spsc_room q (Suc n)"
  obtains q' where "spsc_try_push N q payload = (write_res Success (spsc_head q + 1), q')"
    and "spsc_inv N q'" and "spsc_contents q' = spsc_contents q @ [payload]"
    and "spsc_capacity q' = spsc_capacity q" and "spsc_tail q' = spsc_tail q"
    and "spsc_room q' n"
proof -
  have room1: "spsc_room q 1"
    using room ring_safe_mono [of "spsc_capacity q" "spsc_head q" "Suc n" 1]
    by (simp add: spsc_room_def)
  obtain q' where q': "spsc_try_push N q payload = (write_res Success (spsc_head q + 1), q')"
    and cap: "spsc_capacity q' = spsc_capacity q" and tail: "spsc_tail q' = spsc_tail q"
    and head: "spsc_head q' = spsc_head q + 1" and cnt: "spsc_count q' = Suc (spsc_count q)"
    and len: "length (spsc_slots q') = length (spsc_slots q)"
    and wf: "\<forall>m \<in> set (spsc_slots q'). fm_wf N m"
    and new: "fm_holds N payload (spsc_head q + 1) (spsc_slot q' (spsc_count q))"
    and frame: "\<And>k. spsc_room q 1 \<Longrightarrow> k < spsc_count q \<Longrightarrow> spsc_slot q' k = spsc_slot q k"
    using spsc_push_step [OF inv size nfull] by blast
  have old: "spsc_slot q' k = spsc_slot q k" if "k < spsc_count q" for k
    using frame room1 that by blast
  have seqs: "fm_sequence (spsc_slot q' k) = spsc_tail q' + of_nat k + 1"
    if "k < Suc (spsc_count q)" for k
  proof (cases "k = spsc_count q")
    case True
    then show ?thesis using new tail by (simp add: fm_holds_def spsc_head_eq)
  next
    case False
    then show ?thesis using that old tail inv by (simp add: spsc_inv_def)
  qed
  have safe: "ring_safe (spsc_capacity q') (spsc_tail q') (spsc_count q')"
    using spsc_room_tail [OF inv room1] cap tail cnt by simp
  have inv': "spsc_inv N q'"
    using inv cap len wf cnt nfull safe seqs by (simp add: spsc_inv_def)
  have "spsc_contents q' = spsc_contents q @ [payload]"
    using old new cnt by (simp add: spsc_contents_def fm_holds_def)
  moreover have "spsc_room q' n"
  proof (cases "unat (spsc_capacity q) dvd 2 ^ 64")
    case True
    then show ?thesis using cap by (simp add: spsc_room_def ring_safe_def)
  next
    case False
    then have "unat (spsc_head q) + Suc n < 2 ^ 64"
      using room by (simp add: spsc_room_def ring_safe_def)
    then show ?thesis
      using head cap by (simp add: spsc_room_def ring_safe_def unat_Suc_word)
  qed
  ultimately show ?thesis using that q' inv' cap tail by blast
qed

lemma spsc_pop_result:
  assumes inv: "spsc_inv N q" and ne: "spsc_contents q = p # ps"
  shows "spsc_try_pop q dest =
    (if length dest < length p then (read_res Message_too_large 0 (spsc_tail q + 1), dest, q)
     else (read_res Success (length p) (spsc_tail q + 1), copy_n (length p) p dest,
           q\<lparr>spsc_tail := spsc_tail q + 1\<rparr>))"
proof -
  have cnt: "0 < spsc_count q" using ne length_spsc_contents [of q] by simp
  have "fm_holds N p (spsc_tail q + 1) (spsc_slot q 0)"
    using spsc_slot_holds [OF inv cnt] ne by simp
  then show ?thesis
    using cnt
    by (simp add: spsc_try_pop_def spsc_empty_iff_count fm_copy_to_holds spsc_slot_def Let_def)
qed

lemma spsc_pop_inv:
  assumes inv: "spsc_inv N q" and ne: "spsc_contents q = p # ps"
  defines "q' \<equiv> q\<lparr>spsc_tail := spsc_tail q + 1\<rparr>"
  shows "spsc_inv N q' \<and> spsc_contents q' = ps"
proof -
  have cnt: "0 < spsc_count q" using ne length_spsc_contents [of q] by simp
  then obtain n where n: "spsc_count q = Suc n" by (cases "spsc_count q") auto
  have "spsc_count q' = unat (spsc_head q - spsc_tail q - 1)"
    by (simp add: q'_def spsc_count_def algebra_simps)
  moreover have "spsc_head q - spsc_tail q \<noteq> 0" using n by (auto simp: spsc_count_def)
  ultimately have cnt': "spsc_count q' = n"
    using n unat_minus_one [of "spsc_head q - spsc_tail q"] by (simp add: spsc_count_def)
  have tail': "spsc_tail q' = spsc_tail q + 1" by (simp add: q'_def)
  have slot: "spsc_slot q' k = spsc_slot q (Suc k)" for k
    by (simp add: spsc_slot_def q'_def add.assoc)
  have safe: "ring_safe (spsc_capacity q) (spsc_tail q + 1) n"
  proof (cases "unat (spsc_capacity q) dvd 2 ^ 64")
    case False
    then have "unat (spsc_tail q) + Suc n < 2 ^ 64"
      using inv n by (simp add: spsc_inv_def ring_safe_def)
    then show ?thesis by (simp add: ring_safe_def unat_Suc_word)
  qed (simp add: ring_safe_def)
  have "spsc_contents q = map (\<lambda>k. fm_payload (spsc_slot q k)) (0 # map Suc [0..<n])"
    by (simp only: spsc_contents_def n upt_Suc_shift)
  then have "spsc_contents q' = ps"
    using ne by (simp add: spsc_contents_def cnt' slot o_def)
  moreover have "spsc_inv N q'"
    unfolding spsc_inv_def
  proof (intro conjI)
    show "\<forall>k < spsc_count q'. fm_sequence (spsc_slot q' k) = spsc_tail q' + word_of_nat k + 1"
      using inv n by (auto simp: spsc_inv_def cnt' slot tail' algebra_simps)
  qed (use inv n cnt' safe in \<open>auto simp: spsc_inv_def q'_def\<close>)
  ultimately show ?thesis by simp
qed

section \<open>The bounded FIFO contract\<close>

lemma spsc_make_inv:
  assumes "capacity \<noteq> 0"
  obtains q where "spsc_make N capacity = Inr q" "spsc_inv N q" "spsc_contents q = []"
    "spsc_capacity q = capacity" "spsc_head q = 0" "spsc_tail q = 0"
  using assms
  by (simp add: spsc_make_def spsc_inv_def spsc_count_def spsc_contents_def ring_safe_def)

lemma spsc_push_op_success:
  assumes "spsc_inv N q" "length p \<le> N" "spsc_room q (Suc n)"
    and "length (spsc_contents q) < unat (spsc_capacity q)"
  shows "fst (spsc_push_op N q p) = Success \<and> spsc_inv N (snd (spsc_push_op N q p)) \<and>
    spsc_contents (snd (spsc_push_op N q p)) = spsc_contents q @ [p] \<and>
    unat (spsc_capacity (snd (spsc_push_op N q p))) = unat (spsc_capacity q) \<and>
    spsc_room (snd (spsc_push_op N q p)) n"
proof -
  have cnt: "spsc_count q < unat (spsc_capacity q)" using assms(4) by simp
  show ?thesis
    by (rule spsc_push_success [OF assms(1,2) cnt assms(3)]) (simp add: spsc_push_op_def)
qed

lemma spsc_pop_op_success:
  assumes "spsc_inv N q" "spsc_contents q = p # ps"
  shows "\<exists>q'. spsc_pop_op N q = (Success, Some p, q') \<and> spsc_inv N q' \<and>
    spsc_contents q' = ps \<and> unat (spsc_capacity q') = unat (spsc_capacity q) \<and>
    (\<forall>n. spsc_room q n \<longrightarrow> spsc_room q' n)"
proof -
  have "length p \<le> N" using spsc_payload_bound [OF assms(1)] assms(2) by simp
  then show ?thesis
    using spsc_pop_result [OF assms, of "replicate N 0"] spsc_pop_inv [OF assms]
    by (simp add: spsc_pop_op_def spsc_room_def)
qed

interpretation spsc_fifo: bounded_fifo "spsc_inv N" spsc_contents "\<lambda>q. unat (spsc_capacity q)"
  spsc_room "\<lambda>p. length p \<le> N" "spsc_push_op N" "spsc_pop_op N" for N
proof
  show "length (spsc_contents q) \<le> unat (spsc_capacity q)" if "spsc_inv N q" for q
    using that by (simp add: spsc_inv_def)
  show "spsc_push_op N q p = (Full, q)"
    if "length p \<le> N" "length (spsc_contents q) = unat (spsc_capacity q)" for q p
    using that by (simp add: spsc_push_op_def spsc_try_push_def spsc_full_iff_count Let_def)
  show "spsc_pop_op N q = (Empty, None, q)" if "spsc_contents q = []" for q
    using that length_spsc_contents [of q]
    by (simp add: spsc_pop_op_def spsc_try_pop_def spsc_empty_iff_count)
  show "spsc_room q n" if "spsc_room q (Suc n)" for q n
    using that by (auto simp: spsc_room_def ring_safe_def)
qed (use spsc_push_op_success spsc_pop_op_success in blast)+

section \<open>Properties\<close>

text \<open>
  C16: Any program of pushes and pops on a freshly constructed SPSC queue is exactly-once FIFO:
  the accepted payloads, in order, are the popped payloads followed by what is still queued.
  The program may be as long as the 64-bit head counter allows, and unboundedly long when the
  capacity divides \<open>2 ^ 64\<close>.
\<close>

theorem spsc_exactly_once_fifo:
  assumes "spsc_make N capacity = Inr q" and "\<forall>p \<in> set (pushes ops). length p \<le> N"
    and "length (pushes ops) < 2 ^ 64 \<or> unat capacity dvd 2 ^ 64"
    and "drive (spsc_push_op N) (spsc_pop_op N) q ops = (ins, outs, q')"
  shows "ins = outs @ spsc_contents q' \<and> spsc_inv N q' \<and>
         length (spsc_contents q') \<le> unat capacity"
proof -
  have "capacity \<noteq> 0" using assms(1) by (auto simp: spsc_make_def)
  then have q: "spsc_inv N q" "spsc_contents q = []" "spsc_capacity q = capacity"
    "spsc_head q = 0"
    using spsc_make_inv [of capacity N] assms(1) by auto
  have room: "spsc_room q (length (pushes ops))"
    using assms(3) q by (auto simp: spsc_room_def ring_safe_def)
  show ?thesis
    using spsc_fifo.drive_conserves [OF q(1) assms(2) room assms(4)]
      spsc_fifo.bounded [of N q'] q by simp
qed

theorem spsc_exactly_once_fifo_witness:
  "\<exists>q ins outs q'. spsc_make 1 2 = Inr q \<and>
     drive (spsc_push_op 1) (spsc_pop_op 1) q
       [Op_push [7], Op_push [8], Op_push [9], Op_pop, Op_push []] = (ins, outs, q') \<and>
     ins = [[7], [8], []] \<and> outs = [[7]] \<and> ins = outs @ spsc_contents q'"
proof -
  let ?ops = "[Op_push [7], Op_push [8], Op_push [9], Op_pop, Op_push []]"
  obtain q where q: "spsc_make 1 2 = Inr q" by (rule spsc_make_inv [of 2 1]) auto
  obtain ins outs q' where d: "drive (spsc_push_op 1) (spsc_pop_op 1) q ?ops = (ins, outs, q')"
    by (metis prod_cases3)
  have "fst (drive (spsc_push_op 1) (spsc_pop_op 1) (projr (spsc_make 1 2)) ?ops) = [[7], [8], []] \<and>
    fst (snd (drive (spsc_push_op 1) (spsc_pop_op 1) (projr (spsc_make 1 2)) ?ops)) = [[7]]"
    by code_simp
  then have "ins = [[7], [8], []]" "outs = [[7]]" using q d by simp_all
  moreover have "ins = outs @ spsc_contents q'"
    using spsc_exactly_once_fifo [OF q _ _ d] by simp
  ultimately show ?thesis using q d by blast
qed

text \<open>
  A pop into a destination smaller than the oldest message reports the size error and the
  message's sequence and changes nothing; a retry with enough room then delivers that message.
\<close>

lemma spsc_short_pop_retry:
  assumes "spsc_inv N q" "spsc_contents q = p # ps" "length small < length p" "length p \<le> length dest"
  shows "spsc_try_pop q small = (read_res Message_too_large 0 (spsc_tail q + 1), small, q) \<and>
    (\<exists>q'. spsc_try_pop q dest =
        (read_res Success (length p) (spsc_tail q + 1), p @ drop (length p) dest, q') \<and>
      spsc_inv N q' \<and> spsc_contents q' = ps)"
  using spsc_pop_result [OF assms(1,2)] spsc_pop_inv [OF assms(1,2)] assms(3,4)
  by (auto simp: copy_n_def)


end
