(* ===== verification/Spsc_Concurrent.thy ===== *)
theory Spsc_Concurrent
  imports Spsc_Queue
begin

text \<open>
  One producer thread and one consumer thread on an \<open>SPSCQueue\<close>, interleaved at the level of
  single memory accesses. Each atomic counter is its modification order (oldest value
  first); a thread's view of a counter is the index of the newest value it has observed, and
  a load returns any value not older than the view, so an acquire load may be stale. The bytes,
  size and sequence of a slot are ordinary memory, written and read one access at a time.

  \<open>spsc_psteps\<close> are the producer's steps (the body of \<open>try_push\<close>), \<open>spsc_csteps\<close> the
  consumer's (the body of \<open>try_pop\<close>). \<open>ss_pushed\<close> and \<open>ss_popped\<close> record published payloads
  and completed pops for the specification; no guard reads them.
\<close>

section \<open>Definitions\<close>

datatype spsc_producer =
    P_idle
  | P_check "byte list" u64
  | P_write "byte list" u64 "fm_write list"
  | P_done write_result

datatype spsc_consumer =
    C_idle
  | C_check "byte list" u64
  | C_read "byte list" u64 fm_reader
  | C_done read_result "byte list"

record spsc_sys =
  ss_slots :: "fixed_message list"
  ss_head :: "u64 list"
  ss_tail :: "u64 list"
  ss_tail_view :: nat
  ss_head_view :: nat
  ss_producer :: spsc_producer
  ss_consumer :: spsc_consumer
  ss_pushed :: "byte list list"
  ss_popped :: "(byte list \<times> read_result \<times> byte list) list"

text \<open>An atomic load: any value of the modification order from the thread's view on.\<close>

definition at_load :: "u64 list \<Rightarrow> nat \<Rightarrow> nat \<Rightarrow> u64 \<Rightarrow> bool" where
  "at_load hist view ts v \<longleftrightarrow> view \<le> ts \<and> ts < length hist \<and> v = hist ! ts"

definition spsc_sys_init :: "nat \<Rightarrow> u64 \<Rightarrow> spsc_sys \<Rightarrow> bool" where
  "spsc_sys_init N cap s \<longleftrightarrow> cap \<noteq> 0 \<and>
     s = \<lparr>ss_slots = replicate (unat cap) (fm_new N), ss_head = [0], ss_tail = [0],
          ss_tail_view = 0, ss_head_view = 0, ss_producer = P_idle, ss_consumer = C_idle,
          ss_pushed = [], ss_popped = []\<rparr>"

inductive spsc_pstep :: "nat \<Rightarrow> u64 \<Rightarrow> spsc_sys \<Rightarrow> spsc_sys \<Rightarrow> bool" for N cap where
  p_reject: "ss_producer s = P_idle \<Longrightarrow> length (payload :: byte list) > N \<Longrightarrow>
    spsc_pstep N cap s (s\<lparr>ss_producer := P_done (write_res Message_too_large 0)\<rparr>)"
| p_load_head: "ss_producer s = P_idle \<Longrightarrow> length payload \<le> N \<Longrightarrow> head = last (ss_head s) \<Longrightarrow>
    spsc_pstep N cap s (s\<lparr>ss_producer := P_check payload head\<rparr>)"
| p_full: "ss_producer s = P_check payload head \<Longrightarrow>
    at_load (ss_tail s) (ss_tail_view s) ts tail \<Longrightarrow> head - tail = cap \<Longrightarrow>
    spsc_pstep N cap s
      (s\<lparr>ss_tail_view := ts, ss_producer := P_done (write_res Full 0)\<rparr>)"
| p_claim: "ss_producer s = P_check payload head \<Longrightarrow>
    at_load (ss_tail s) (ss_tail_view s) ts tail \<Longrightarrow> head - tail \<noteq> cap \<Longrightarrow>
    spsc_pstep N cap s
      (s\<lparr>ss_tail_view := ts,
         ss_producer := P_write payload head (fm_writes payload (head + 1))\<rparr>)"
| p_write: "ss_producer s = P_write payload head (w # ws) \<Longrightarrow> i = ring_index cap head \<Longrightarrow>
    spsc_pstep N cap s
      (s\<lparr>ss_slots := (ss_slots s)[i := fm_do w (ss_slots s ! i)],
         ss_producer := P_write payload head ws\<rparr>)"
| p_publish: "ss_producer s = P_write payload head [] \<Longrightarrow>
    spsc_pstep N cap s
      (s\<lparr>ss_head := ss_head s @ [head + 1],
         ss_producer := P_done (write_res Success (head + 1)),
         ss_pushed := ss_pushed s @ [payload]\<rparr>)"
| p_return: "ss_producer s = P_done r \<Longrightarrow> spsc_pstep N cap s (s\<lparr>ss_producer := P_idle\<rparr>)"

inductive spsc_cstep :: "u64 \<Rightarrow> spsc_sys \<Rightarrow> spsc_sys \<Rightarrow> bool" for cap where
  c_load_tail: "ss_consumer s = C_idle \<Longrightarrow> tail = last (ss_tail s) \<Longrightarrow>
    spsc_cstep cap s (s\<lparr>ss_consumer := C_check dest tail\<rparr>)"
| c_empty: "ss_consumer s = C_check dest tail \<Longrightarrow>
    at_load (ss_head s) (ss_head_view s) ts head \<Longrightarrow> tail = head \<Longrightarrow>
    spsc_cstep cap s
      (s\<lparr>ss_head_view := ts, ss_consumer := C_done (read_res Empty 0 0) dest\<rparr>)"
| c_start: "ss_consumer s = C_check dest tail \<Longrightarrow>
    at_load (ss_head s) (ss_head_view s) ts head \<Longrightarrow> tail \<noteq> head \<Longrightarrow>
    spsc_cstep cap s
      (s\<lparr>ss_head_view := ts, ss_consumer := C_read dest tail (Read_size dest)\<rparr>)"
| c_read: "ss_consumer s = C_read dest tail r \<Longrightarrow> (\<And>res d. r \<noteq> Read_done res d) \<Longrightarrow>
    spsc_cstep cap s
      (s\<lparr>ss_consumer := C_read dest tail (fm_read_step (ss_slots s ! ring_index cap tail) r)\<rparr>)"
| c_release: "ss_consumer s = C_read dest tail (Read_done res d) \<Longrightarrow> ok (rr_status res) \<Longrightarrow>
    spsc_cstep cap s
      (s\<lparr>ss_tail := ss_tail s @ [tail + 1], ss_consumer := C_done res d,
         ss_popped := ss_popped s @ [(dest, res, d)]\<rparr>)"
| c_keep: "ss_consumer s = C_read dest tail (Read_done res d) \<Longrightarrow> \<not> ok (rr_status res) \<Longrightarrow>
    spsc_cstep cap s (s\<lparr>ss_consumer := C_done res d\<rparr>)"
| c_return: "ss_consumer s = C_done res d \<Longrightarrow> spsc_cstep cap s (s\<lparr>ss_consumer := C_idle\<rparr>)"

text \<open>How often each counter has been advanced.\<close>

definition published :: "spsc_sys \<Rightarrow> nat" where
  "published s = length (ss_head s) - 1"

definition consumed :: "spsc_sys \<Rightarrow> nat" where
  "consumed s = length (ss_tail s) - 1"

text \<open>
  Supported lifetime: the head counter has not wrapped, or the capacity divides \<open>2 ^ 64\<close>.
\<close>

definition spsc_lifetime :: "u64 \<Rightarrow> spsc_sys \<Rightarrow> bool" where
  "spsc_lifetime cap s \<longleftrightarrow> published s < 2 ^ 64 \<or> unat cap dvd 2 ^ 64"

definition spsc_sys_step :: "nat \<Rightarrow> u64 \<Rightarrow> spsc_sys \<Rightarrow> spsc_sys \<Rightarrow> bool" where
  "spsc_sys_step N cap s t \<longleftrightarrow> (spsc_pstep N cap s t \<or> spsc_cstep cap s t) \<and> spsc_lifetime cap t"

subsection \<open>Invariant\<close>

text \<open>
  The counters only count up; the views bracket the window of unread positions; the ghost
  logs have the lengths the counters say.
\<close>

definition ss_counters :: "u64 \<Rightarrow> spsc_sys \<Rightarrow> bool" where
  "ss_counters cap s \<longleftrightarrow> cap \<noteq> 0 \<and> spsc_lifetime cap s \<and>
     ss_head s = counter (published s) \<and> ss_tail s = counter (consumed s) \<and>
     consumed s \<le> ss_head_view s \<and> ss_head_view s \<le> published s \<and>
     ss_tail_view s \<le> consumed s \<and> published s \<le> ss_tail_view s + unat cap \<and>
     length (ss_pushed s) = published s \<and> length (ss_popped s) = consumed s"

definition ss_memory :: "nat \<Rightarrow> u64 \<Rightarrow> spsc_sys \<Rightarrow> bool" where
  "ss_memory N cap s \<longleftrightarrow>
     length (ss_slots s) = unat cap \<and> (\<forall>m \<in> set (ss_slots s). length (fm_storage m) = N) \<and>
     (\<forall>p. consumed s \<le> p \<and> p < published s \<longrightarrow>
        fm_holds N (ss_pushed s ! p) (of_nat (Suc p)) (ss_slots s ! (p mod unat cap)))"

fun ss_producer_ok :: "nat \<Rightarrow> u64 \<Rightarrow> spsc_sys \<Rightarrow> spsc_producer \<Rightarrow> bool" where
  "ss_producer_ok N cap s P_idle = True"
| "ss_producer_ok N cap s (P_check payload head) \<longleftrightarrow>
     length payload \<le> N \<and> head = of_nat (published s)"
| "ss_producer_ok N cap s (P_write payload head todo) \<longleftrightarrow>
     length payload \<le> N \<and> head = of_nat (published s) \<and>
     published s < ss_tail_view s + unat cap \<and>
     fm_holds N payload (head + 1) (fold fm_do todo (ss_slots s ! (published s mod unat cap)))"
| "ss_producer_ok N cap s (P_done r) = True"

fun ss_consumer_ok :: "spsc_sys \<Rightarrow> spsc_consumer \<Rightarrow> bool" where
  "ss_consumer_ok s C_idle = True"
| "ss_consumer_ok s (C_check dest tail) \<longleftrightarrow> tail = of_nat (consumed s)"
| "ss_consumer_ok s (C_read dest tail r) \<longleftrightarrow>
     tail = of_nat (consumed s) \<and> consumed s < ss_head_view s \<and>
     fm_reading (ss_pushed s ! consumed s) (tail + 1) dest r"
| "ss_consumer_ok s (C_done res d) = True"

text \<open>The \<open>i\<close>-th completed pop delivered the \<open>i\<close>-th published payload.\<close>

definition ss_history :: "nat \<Rightarrow> spsc_sys \<Rightarrow> bool" where
  "ss_history N s \<longleftrightarrow>
     (\<forall>p \<in> set (ss_pushed s). length p \<le> N) \<and>
     (\<forall>i < consumed s. case ss_popped s ! i of (dest, res, d) \<Rightarrow>
        length (ss_pushed s ! i) \<le> length dest \<and>
        res = read_res Success (length (ss_pushed s ! i)) (of_nat (Suc i)) \<and>
        d = copy_n (length (ss_pushed s ! i)) (ss_pushed s ! i) dest)"

definition ss_inv :: "nat \<Rightarrow> u64 \<Rightarrow> spsc_sys \<Rightarrow> bool" where
  "ss_inv N cap s \<longleftrightarrow> ss_counters cap s \<and> ss_memory N cap s \<and>
     ss_producer_ok N cap s (ss_producer s) \<and> ss_consumer_ok s (ss_consumer s) \<and>
     ss_history N s"

subsection \<open>Remaining own steps, and the queue the threads share\<close>

fun p_rank :: "spsc_producer \<Rightarrow> nat" where
  "p_rank P_idle = 0"
| "p_rank (P_done r) = 1"
| "p_rank (P_write payload head todo) = length todo + 2"
| "p_rank (P_check payload head) = length payload + 5"

fun c_rank :: "nat \<Rightarrow> spsc_consumer \<Rightarrow> nat" where
  "c_rank N C_idle = 0"
| "c_rank N (C_done r d) = 1"
| "c_rank N (C_read dest tail r) = r_rank N r + 2"
| "c_rank N (C_check dest tail) = N + 5"

text \<open>
  \<open>spsc_push_run N cap k s t\<close>: an interleaving leads from \<open>s\<close> to \<open>t\<close> in which the producer took
  \<open>k\<close> steps, all inside one call of \<open>try_push\<close>; likewise \<open>spsc_pop_run\<close> for the consumer.
\<close>

inductive spsc_push_run :: "nat \<Rightarrow> u64 \<Rightarrow> nat \<Rightarrow> spsc_sys \<Rightarrow> spsc_sys \<Rightarrow> bool" for N cap where
  push_run_start: "spsc_push_run N cap 0 s s"
| push_run_own: "spsc_push_run N cap k s t \<Longrightarrow> ss_producer t \<noteq> P_idle \<Longrightarrow> spsc_pstep N cap t u \<Longrightarrow>
    spsc_lifetime cap u \<Longrightarrow> spsc_push_run N cap (Suc k) s u"
| push_run_other: "spsc_push_run N cap k s t \<Longrightarrow> spsc_cstep cap t u \<Longrightarrow> spsc_lifetime cap u \<Longrightarrow>
    spsc_push_run N cap k s u"

inductive spsc_pop_run :: "nat \<Rightarrow> u64 \<Rightarrow> nat \<Rightarrow> spsc_sys \<Rightarrow> spsc_sys \<Rightarrow> bool" for N cap where
  pop_run_start: "spsc_pop_run N cap 0 s s"
| pop_run_own: "spsc_pop_run N cap k s t \<Longrightarrow> ss_consumer t \<noteq> C_idle \<Longrightarrow> spsc_cstep cap t u \<Longrightarrow>
    spsc_lifetime cap u \<Longrightarrow> spsc_pop_run N cap (Suc k) s u"
| pop_run_other: "spsc_pop_run N cap k s t \<Longrightarrow> spsc_pstep N cap t u \<Longrightarrow> spsc_lifetime cap u \<Longrightarrow>
    spsc_pop_run N cap k s u"

definition ss_queue :: "u64 \<Rightarrow> spsc_sys \<Rightarrow> spsc_queue" where
  "ss_queue cap s = \<lparr>spsc_capacity = cap, spsc_slots = ss_slots s,
     spsc_head = last (ss_head s), spsc_tail = last (ss_tail s)\<rparr>"

section \<open>Helper lemmas\<close>

lemma ring_index_of_nat:
  assumes "p < 2 ^ 64 \<or> unat cap dvd 2 ^ 64"
  shows "ring_index cap (of_nat p) = p mod unat cap"
proof -
  have "unat (of_nat p :: u64) = p mod 2 ^ 64" by (simp add: unat_of_nat)
  then show ?thesis using assms by (auto simp: ring_index_def unat_mod mod_mod_cancel)
qed

lemma of_nat_diff_eq_cap:
  assumes "t \<le> h" "h \<le> t + unat (cap :: u64)"
  shows "(of_nat h :: u64) - of_nat t = cap \<longleftrightarrow> h = t + unat cap"
proof -
  have "(of_nat h :: u64) - of_nat t = of_nat (h - t)" using assms(1) by simp
  moreover have "unat (of_nat (h - t) :: u64) = h - t"
    using assms(2) unat_less_2p64 [of cap] by (intro unat_of_nat_64) simp
  ultimately show ?thesis using assms by (auto simp: word_unat_eq_iff)
qed

lemma of_nat_eq_near:
  assumes "t \<le> h" "h \<le> t + unat (cap :: u64)"
  shows "(of_nat t :: u64) = of_nat h \<longleftrightarrow> t = h"
proof
  assume "(of_nat t :: u64) = of_nat h"
  then have "(of_nat (h - t) :: u64) = 0" using assms(1) by simp
  moreover have "unat (of_nat (h - t) :: u64) = h - t"
    using assms(2) unat_less_2p64 [of cap] by (intro unat_of_nat_64) simp
  ultimately show "t = h" using assms(1) by simp
qed simp

lemma frame_counts [simp]:
  "published (s\<lparr>ss_slots := a\<rparr>) = published s" "consumed (s\<lparr>ss_slots := a\<rparr>) = consumed s"
  "published (s\<lparr>ss_tail := b\<rparr>) = published s" "consumed (s\<lparr>ss_head := b\<rparr>) = consumed s"
  "published (s\<lparr>ss_tail_view := v\<rparr>) = published s"
  "consumed (s\<lparr>ss_tail_view := v\<rparr>) = consumed s"
  "published (s\<lparr>ss_head_view := v\<rparr>) = published s"
  "consumed (s\<lparr>ss_head_view := v\<rparr>) = consumed s"
  "published (s\<lparr>ss_producer := pr\<rparr>) = published s"
  "consumed (s\<lparr>ss_producer := pr\<rparr>) = consumed s"
  "published (s\<lparr>ss_consumer := co\<rparr>) = published s"
  "consumed (s\<lparr>ss_consumer := co\<rparr>) = consumed s"
  "published (s\<lparr>ss_pushed := pu\<rparr>) = published s" "consumed (s\<lparr>ss_pushed := pu\<rparr>) = consumed s"
  "published (s\<lparr>ss_popped := po\<rparr>) = published s" "consumed (s\<lparr>ss_popped := po\<rparr>) = consumed s"
  by (simp_all add: published_def consumed_def)

lemma ss_consumer_ok_cong:
  assumes "consumed t = consumed s" "ss_head_view t = ss_head_view s"
    and "ss_pushed t ! consumed s = ss_pushed s ! consumed s"
  shows "ss_consumer_ok t c = ss_consumer_ok s c"
  using assms by (cases c) simp_all

lemma ss_producer_ok_cong:
  assumes "published t = published s" "ss_tail_view t = ss_tail_view s"
    and "ss_slots t = ss_slots s"
  shows "ss_producer_ok N cap t p = ss_producer_ok N cap s p"
  using assms by (cases p) simp_all

text \<open>A load by the producer (consumer) returns a counter value inside the window.\<close>

lemma load_tail:
  assumes "ss_counters cap s" "at_load (ss_tail s) (ss_tail_view s) ts v"
  shows "v = of_nat ts \<and> ss_tail_view s \<le> ts \<and> ts \<le> consumed s \<and>
    (of_nat (published s) - v = cap \<longleftrightarrow> published s = ts + unat cap)"
proof -
  have ts: "ss_tail_view s \<le> ts" "ts \<le> consumed s" "v = of_nat ts"
    using assms by (auto simp: at_load_def ss_counters_def)
  then show ?thesis
    using assms(1) of_nat_diff_eq_cap [of ts "published s" cap] by (simp add: ss_counters_def)
qed

lemma load_head:
  assumes "ss_counters cap s" "at_load (ss_head s) (ss_head_view s) ts v"
  shows "v = of_nat ts \<and> ss_head_view s \<le> ts \<and> ts \<le> published s \<and>
    (of_nat (consumed s) = v \<longleftrightarrow> consumed s = ts)"
proof -
  have ts: "ss_head_view s \<le> ts" "ts \<le> published s" "v = of_nat ts"
    using assms by (auto simp: at_load_def ss_counters_def)
  then show ?thesis
    using assms(1) of_nat_eq_near [of "consumed s" ts cap] by (simp add: ss_counters_def)
qed

lemma published_index:
  assumes "ss_counters cap s" "p \<le> published s"
  shows "ring_index cap (of_nat p) = p mod unat cap"
  using assms
  by (intro ring_index_of_nat) (auto simp: ss_counters_def spsc_lifetime_def)

text \<open>The slot being written is none of the slots that hold unread messages.\<close>

lemma write_slot_free:
  assumes "ss_counters cap s" "published s < ss_tail_view s + unat cap"
    and "consumed s \<le> p" "p < published s"
  shows "p mod unat cap \<noteq> published s mod unat cap"
  using assms same_residue_gap [of p "unat cap" "published s"] by (auto simp: ss_counters_def)

section \<open>Every step keeps the invariant\<close>

lemmas ss_inv_defs = ss_inv_def ss_counters_def ss_memory_def ss_history_def

lemma p_pc_inv:
  assumes "ss_inv N cap s" "ss_producer_ok N cap s pc"
  shows "ss_inv N cap (s\<lparr>ss_producer := pc\<rparr>)"
  using assms ss_consumer_ok_cong [of "s\<lparr>ss_producer := pc\<rparr>" s]
    ss_producer_ok_cong [of "s\<lparr>ss_producer := pc\<rparr>" s N cap]
  by (simp add: ss_inv_defs spsc_lifetime_def)

lemma c_pc_inv:
  assumes "ss_inv N cap s" "ss_consumer_ok s pc"
  shows "ss_inv N cap (s\<lparr>ss_consumer := pc\<rparr>)"
  using assms ss_consumer_ok_cong [of "s\<lparr>ss_consumer := pc\<rparr>" s]
    ss_producer_ok_cong [of "s\<lparr>ss_consumer := pc\<rparr>" s N cap]
  by (simp add: ss_inv_defs spsc_lifetime_def)

lemma p_view_inv:
  assumes inv: "ss_inv N cap s" and pc: "ss_producer s = P_check payload head"
    and v: "ss_tail_view s \<le> ts" "ts \<le> consumed s"
  shows "ss_inv N cap (s\<lparr>ss_tail_view := ts\<rparr>)"
  using assms ss_consumer_ok_cong [of "s\<lparr>ss_tail_view := ts\<rparr>" s]
  by (auto simp: ss_inv_defs spsc_lifetime_def)

lemma c_view_inv:
  assumes inv: "ss_inv N cap s" and pc: "ss_consumer s = C_check dest tail"
    and v: "ss_head_view s \<le> ts" "ts \<le> published s"
  shows "ss_inv N cap (s\<lparr>ss_head_view := ts\<rparr>)"
  using assms ss_producer_ok_cong [of "s\<lparr>ss_head_view := ts\<rparr>" s N cap]
  by (auto simp: ss_inv_defs spsc_lifetime_def)

lemma p_write_inv:
  assumes inv: "ss_inv N cap s" and pc: "ss_producer s = P_write payload head (w # ws)"
    and i: "i = ring_index cap head"
  shows "ss_inv N cap (s\<lparr>ss_slots := (ss_slots s)[i := fm_do w (ss_slots s ! i)],
                        ss_producer := P_write payload head ws\<rparr>)"
    (is "ss_inv N cap ?t")
proof -
  have cnt: "ss_counters cap s" and mem: "ss_memory N cap s"
    and pw: "ss_producer_ok N cap s (P_write payload head (w # ws))"
    using inv pc by (auto simp: ss_inv_def simp del: ss_producer_ok.simps)
  have head: "head = of_nat (published s)" using pw by simp
  have i': "i = published s mod unat cap"
    using published_index [OF cnt, of "published s"] i head by simp
  have len: "i < length (ss_slots s)"
    using mem cnt i' by (simp add: ss_memory_def ss_counters_def unat_gt_0)
  have other: "(ss_slots s)[i := m] ! (p mod unat cap) = ss_slots s ! (p mod unat cap)"
    if "consumed s \<le> p" "p < published s" for p m
    using write_slot_free [OF cnt _ that] pw i' by (intro nth_list_update_neq) auto
  have "ss_memory N cap ?t"
    using mem len other set_update_subset_insert [of "ss_slots s" i "fm_do w (ss_slots s ! i)"]
    by (auto simp: ss_memory_def)
  moreover have "ss_producer_ok N cap ?t (P_write payload head ws)"
    using pw i' len by auto
  moreover have "ss_counters cap ?t" using cnt by (simp add: ss_counters_def spsc_lifetime_def)
  moreover have "ss_consumer_ok ?t (ss_consumer s)"
    using inv ss_consumer_ok_cong [of ?t s] by (simp add: ss_inv_def)
  moreover have "ss_history N ?t" using inv by (simp add: ss_inv_def ss_history_def)
  ultimately show ?thesis by (simp add: ss_inv_def del: ss_producer_ok.simps)
qed

lemma p_publish_inv:
  assumes inv: "ss_inv N cap s" and pc: "ss_producer s = P_write payload head []"
    and t: "t = s\<lparr>ss_head := ss_head s @ [head + 1],
         ss_producer := P_done (write_res Success (head + 1)),
         ss_pushed := ss_pushed s @ [payload]\<rparr>"
    and life: "spsc_lifetime cap t"
  shows "ss_inv N cap t"
proof -
  have cnt: "ss_counters cap s" and mem: "ss_memory N cap s" and hist: "ss_history N s"
    and pw: "ss_producer_ok N cap s (P_write payload head [])"
    and co: "ss_consumer_ok s (ss_consumer s)"
    using inv pc by (auto simp: ss_inv_def simp del: ss_producer_ok.simps)
  have hd: "ss_head s = counter (published s)" and lp: "length (ss_pushed s) = published s"
    and cons: "consumed s \<le> published s"
    using cnt by (simp_all add: ss_counters_def)
  have head: "head = of_nat (published s)" using pw by simp
  have "length (ss_head s) = Suc (published s)" using hd by (metis length_counter)
  then have pub: "published t = Suc (published s)" and con: "consumed t = consumed s"
    by (simp_all add: t published_def consumed_def)
  have "ss_counters cap t"
    using cnt pw pub con life hd head counter_Suc [of "published s"]
    by (simp add: ss_counters_def) (simp add: t)
  moreover have "ss_memory N cap t"
    using mem pw pub con lp head
    by (auto simp: ss_memory_def t nth_append less_Suc_eq add.commute)
  moreover have "ss_consumer_ok t (ss_consumer s)"
    using co con lp cnt by (cases "ss_consumer s") (auto simp: t nth_append ss_counters_def)
  moreover have "ss_history N t"
    using hist con cons lp pw by (auto simp: ss_history_def t nth_append split: prod.splits)
  ultimately show ?thesis by (simp add: ss_inv_def t)
qed

lemma c_read_inv:
  assumes inv: "ss_inv N cap s" and pc: "ss_consumer s = C_read dest tail r"
  shows "ss_inv N cap
    (s\<lparr>ss_consumer := C_read dest tail (fm_read_step (ss_slots s ! ring_index cap tail) r)\<rparr>)"
proof (rule c_pc_inv [OF inv])
  have cnt: "ss_counters cap s" and mem: "ss_memory N cap s"
    and co: "ss_consumer_ok s (C_read dest tail r)"
    using inv pc by (auto simp: ss_inv_def simp del: ss_consumer_ok.simps)
  have i: "ring_index cap tail = consumed s mod unat cap"
    using published_index [OF cnt, of "consumed s"] co cnt by (simp add: ss_counters_def)
  have "fm_holds N (ss_pushed s ! consumed s) (of_nat (Suc (consumed s)))
          (ss_slots s ! (consumed s mod unat cap))"
    using mem cnt co by (simp add: ss_memory_def ss_counters_def)
  then show "ss_consumer_ok s
      (C_read dest tail (fm_read_step (ss_slots s ! ring_index cap tail) r))"
    using co i fm_reading_step [of N "ss_pushed s ! consumed s" "tail + 1" _ dest r]
    by (auto simp: add.commute)
qed

lemma c_release_inv:
  assumes inv: "ss_inv N cap s" and pc: "ss_consumer s = C_read dest tail (Read_done res d)"
    and ok: "ok (rr_status res)"
    and t: "t = s\<lparr>ss_tail := ss_tail s @ [tail + 1], ss_consumer := C_done res d,
         ss_popped := ss_popped s @ [(dest, res, d)]\<rparr>"
  shows "ss_inv N cap t"
proof -
  have cnt: "ss_counters cap s" and mem: "ss_memory N cap s" and hist: "ss_history N s"
    and pr: "ss_producer_ok N cap s (ss_producer s)"
    and co: "ss_consumer_ok s (C_read dest tail (Read_done res d))"
    using inv pc by (auto simp: ss_inv_def simp del: ss_consumer_ok.simps)
  have tl: "ss_tail s = counter (consumed s)" and lp: "length (ss_popped s) = consumed s"
    using cnt by (simp_all add: ss_counters_def)
  have tail: "tail = of_nat (consumed s)" using co by simp
  have "length (ss_tail s) = Suc (consumed s)" using tl by (metis length_counter)
  then have pub: "published t = published s" and con: "consumed t = Suc (consumed s)"
    by (simp_all add: t published_def consumed_def)
  have "ss_counters cap t"
    using cnt co pub con tl tail counter_Suc [of "consumed s"]
    by (simp add: ss_counters_def spsc_lifetime_def) (simp add: t)
  moreover have "ss_memory N cap t"
    using mem pub con by (simp add: ss_memory_def) (simp add: t)
  moreover have "ss_producer_ok N cap t (ss_producer s)"
    using pr pub ss_producer_ok_cong [of t s N cap] by (simp add: t)
  moreover have "ss_history N t"
    using hist con lp ok co
    by (auto simp: ss_history_def t nth_append less_Suc_eq add.commute split: if_splits)
  ultimately show ?thesis by (simp add: ss_inv_def t)
qed

lemma ss_inv_pstep:
  assumes inv: "ss_inv N cap s" and step: "spsc_pstep N cap s t" and life: "spsc_lifetime cap t"
  shows "ss_inv N cap t"
  using step
proof cases
  case (p_load_head payload head)
  have "ss_head s = counter (published s)" using inv by (simp add: ss_inv_def ss_counters_def)
  then have "ss_producer_ok N cap s (P_check payload head)"
    using p_load_head(3,4) last_counter [of "published s"] by simp
  then show ?thesis using p_pc_inv [OF inv] p_load_head(1) by blast
next
  case (p_full payload head ts tail)
  have "ss_counters cap s" using inv by (simp add: ss_inv_def)
  from load_tail [OF this p_full(3)] have "ss_inv N cap (s\<lparr>ss_tail_view := ts\<rparr>)"
    by (intro p_view_inv [OF inv p_full(2)]) simp_all
  from p_pc_inv [OF this, of "P_done (write_res Full 0)"] show ?thesis
    using p_full(1) by simp
next
  case (p_claim payload head ts tail)
  have cnt: "ss_counters cap s" and mem: "ss_memory N cap s"
    and pc: "length payload \<le> N" "head = of_nat (published s)"
    using inv p_claim(2) by (auto simp: ss_inv_def)
  have ts: "ss_tail_view s \<le> ts" "ts \<le> consumed s" "published s \<noteq> ts + unat cap"
    using load_tail [OF cnt p_claim(3)] p_claim(4) pc(2) by auto
  have room: "published s < ts + unat cap" using cnt ts by (simp add: ss_counters_def)
  have inv': "ss_inv N cap (s\<lparr>ss_tail_view := ts\<rparr>)"
    using p_view_inv [OF inv p_claim(2) ts(1,2)] .
  have "published s mod unat cap < length (ss_slots s)"
    using mem cnt by (simp add: ss_memory_def ss_counters_def unat_gt_0)
  then have st: "length (fm_storage (ss_slots s ! (published s mod unat cap))) = N"
    using mem by (simp add: ss_memory_def)
  have "fm_holds N payload (head + 1)
      (fold fm_do (fm_writes payload (head + 1)) (ss_slots s ! (published s mod unat cap)))"
    using fm_writes_holds [OF st pc(1)] .
  then show ?thesis
    using p_pc_inv [OF inv', of "P_write payload head (fm_writes payload (head + 1))"]
      pc room p_claim(1) by simp
next
  case (p_write payload head w ws i)
  then show ?thesis using p_write_inv [OF inv p_write(2,3)] by simp
next
  case (p_publish payload head)
  then show ?thesis using p_publish_inv [OF inv p_publish(2,1) life] by simp
next
  case (p_reject payload)
  then show ?thesis using p_pc_inv [OF inv, of "P_done (write_res Message_too_large 0)"] by simp
next
  case (p_return r)
  then show ?thesis using p_pc_inv [OF inv, of P_idle] by simp
qed

lemma ss_inv_cstep:
  assumes inv: "ss_inv N cap s" and step: "spsc_cstep cap s t"
  shows "ss_inv N cap t"
  using step
proof cases
  case (c_load_tail tail dest)
  have "ss_tail s = counter (consumed s)" using inv by (simp add: ss_inv_def ss_counters_def)
  then have "ss_consumer_ok s (C_check dest tail)"
    using c_load_tail(3) last_counter [of "consumed s"] by simp
  then show ?thesis using c_pc_inv [OF inv] c_load_tail(1) by blast
next
  case (c_empty dest tail ts head)
  have "ss_counters cap s" using inv by (simp add: ss_inv_def)
  from load_head [OF this c_empty(3)] have "ss_inv N cap (s\<lparr>ss_head_view := ts\<rparr>)"
    by (intro c_view_inv [OF inv c_empty(2)]) simp_all
  from c_pc_inv [OF this, of "C_done (read_res Empty 0 0) dest"] show ?thesis
    using c_empty(1) by simp
next
  case (c_start dest tail ts head)
  have cnt: "ss_counters cap s" and tail: "tail = of_nat (consumed s)"
    using inv c_start(2) by (auto simp: ss_inv_def)
  have ts: "ss_head_view s \<le> ts" "ts \<le> published s" "consumed s \<noteq> ts"
    using load_head [OF cnt c_start(3)] c_start(4) tail by auto
  have "consumed s < ts" using cnt ts by (simp add: ss_counters_def)
  then show ?thesis
    using c_pc_inv [OF c_view_inv [OF inv c_start(2) ts(1,2)],
        of "C_read dest tail (Read_size dest)"] tail c_start(1) by simp
next
  case (c_read dest tail r)
  then show ?thesis using c_read_inv [OF inv c_read(2)] by simp
next
  case (c_release dest tail res d)
  then show ?thesis using c_release_inv [OF inv c_release(2,3,1)] by simp
next
  case (c_keep dest tail res d)
  then show ?thesis using c_pc_inv [OF inv, of "C_done res d"] by simp
next
  case (c_return res d)
  then show ?thesis using c_pc_inv [OF inv, of C_idle] by simp
qed

lemma ss_inv_init:
  assumes "spsc_sys_init N cap s"
  shows "ss_inv N cap s"
proof -
  have "published s = 0" "consumed s = 0"
    using assms by (auto simp: spsc_sys_init_def published_def consumed_def)
  then show ?thesis
    using assms by (auto simp: spsc_sys_init_def ss_inv_defs spsc_lifetime_def fm_new_def)
qed

interpretation spsc_sys: invariant_system "spsc_sys_init N cap" "spsc_sys_step N cap" "ss_inv N cap"
  for N cap
  by unfold_locales (auto simp: spsc_sys_step_def intro: ss_inv_init ss_inv_pstep ss_inv_cstep)

section \<open>Progress of a single thread\<close>

lemma fm_writes_length [simp]: "length (fm_writes payload sq) = length payload + 2"
  by (simp add: fm_writes_def)

lemma pstep_rank: "spsc_pstep N cap s t \<Longrightarrow> ss_producer s \<noteq> P_idle \<Longrightarrow>
    p_rank (ss_producer t) < p_rank (ss_producer s)"
  by (induction rule: spsc_pstep.induct) simp_all

lemma cstep_producer: "spsc_cstep cap s t \<Longrightarrow> ss_producer t = ss_producer s"
  by (induction rule: spsc_cstep.induct) simp_all

lemma pstep_consumer: "spsc_pstep N cap s t \<Longrightarrow> ss_consumer t = ss_consumer s"
  by (induction rule: spsc_pstep.induct) simp_all

lemma pstep_enabled:
  assumes "ss_inv N cap s"
  shows "\<exists>t. spsc_pstep N cap s t"
proof (cases "ss_producer s")
  case P_idle
  then show ?thesis using spsc_pstep.p_load_head [of s "[]"] by fastforce
next
  case (P_check payload head)
  have "at_load (ss_tail s) (ss_tail_view s) (ss_tail_view s) (ss_tail s ! ss_tail_view s)"
    using assms by (auto simp: at_load_def ss_inv_def ss_counters_def)
  then show ?thesis using P_check spsc_pstep.p_full spsc_pstep.p_claim by blast
next
  case (P_write payload head ws)
  then show ?thesis using spsc_pstep.p_write spsc_pstep.p_publish by (cases ws) blast+
next
  case (P_done r)
  then show ?thesis using spsc_pstep.p_return by blast
qed

lemma cstep_enabled:
  assumes "ss_inv N cap s"
  shows "\<exists>t. spsc_cstep cap s t"
proof (cases "ss_consumer s")
  case C_idle
  then show ?thesis using spsc_cstep.c_load_tail by blast
next
  case (C_check dest tail)
  have "at_load (ss_head s) (ss_head_view s) (ss_head_view s) (ss_head s ! ss_head_view s)"
    using assms by (auto simp: at_load_def ss_inv_def ss_counters_def)
  then show ?thesis using C_check spsc_cstep.c_empty spsc_cstep.c_start by blast
next
  case (C_read dest tail r)
  show ?thesis
  proof (cases "\<exists>res d. r = Read_done res d")
    case True
    then show ?thesis using C_read spsc_cstep.c_release spsc_cstep.c_keep by blast
  next
    case False
    then show ?thesis using C_read spsc_cstep.c_read by blast
  qed
next
  case (C_done r d)
  then show ?thesis using spsc_cstep.c_return by blast
qed

lemma cstep_rank:
  assumes inv: "ss_inv N cap s" and step: "spsc_cstep cap s t" and busy: "ss_consumer s \<noteq> C_idle"
  shows "c_rank N (ss_consumer t) < c_rank N (ss_consumer s)"
  using step
proof cases
  case (c_read dest tail r)
  have cnt: "ss_counters cap s" and mem: "ss_memory N cap s"
    and co: "tail = of_nat (consumed s)" "consumed s < ss_head_view s"
    using inv c_read(2) by (auto simp: ss_inv_def)
  have "ring_index cap tail = consumed s mod unat cap"
    using published_index [OF cnt, of "consumed s"] co cnt by (simp add: ss_counters_def)
  then have "fm_holds N (ss_pushed s ! consumed s) (of_nat (Suc (consumed s)))
      (ss_slots s ! ring_index cap tail)"
    using mem co cnt by (simp add: ss_memory_def ss_counters_def)
  then show ?thesis using read_step_rank c_read by simp
qed (use busy in simp_all)

lemma reachable_p_rank:
  "reachable (spsc_sys_init N cap) (spsc_sys_step N cap) s \<Longrightarrow> p_rank (ss_producer s) \<le> N + 5"
proof (induction rule: reachable.induct)
  case (reach_step s t)
  consider (p) "spsc_pstep N cap s t" | (c) "spsc_cstep cap s t"
    using reach_step.hyps(2) by (auto simp: spsc_sys_step_def)
  then show ?case
  proof cases
    case p
    show ?thesis
    proof (cases "ss_producer s = P_idle")
      case True
      with p show ?thesis by (cases rule: spsc_pstep.cases) simp_all
    next
      case False
      then show ?thesis using pstep_rank [OF p] reach_step.IH by simp
    qed
  next
    case c
    then show ?thesis using cstep_producer reach_step.IH by simp
  qed
qed (simp add: spsc_sys_init_def)

lemma reachable_c_rank:
  "reachable (spsc_sys_init N cap) (spsc_sys_step N cap) s \<Longrightarrow> c_rank N (ss_consumer s) \<le> N + 5"
proof (induction rule: reachable.induct)
  case (reach_step s t)
  consider (p) "spsc_pstep N cap s t" | (c) "spsc_cstep cap s t"
    using reach_step.hyps(2) by (auto simp: spsc_sys_step_def)
  then show ?case
  proof cases
    case c
    show ?thesis
    proof (cases "ss_consumer s = C_idle")
      case True
      with c show ?thesis by (cases rule: spsc_cstep.cases) simp_all
    next
      case False
      have "ss_inv N cap s" using reach_step.hyps(1) by (rule spsc_sys.reachable_inv)
      then show ?thesis using cstep_rank c False reach_step.IH by fastforce
    qed
  next
    case p
    then show ?thesis using pstep_consumer reach_step.IH by simp
  qed
qed (simp add: spsc_sys_init_def)

lemma push_run_rank:
  "spsc_push_run N cap k s t \<Longrightarrow> ss_inv N cap s \<Longrightarrow>
     ss_inv N cap t \<and> k + p_rank (ss_producer t) \<le> p_rank (ss_producer s)"
  by (induction rule: spsc_push_run.induct)
    (auto dest: pstep_rank cstep_producer intro: ss_inv_pstep ss_inv_cstep)

lemma pop_run_rank:
  "spsc_pop_run N cap k s t \<Longrightarrow> ss_inv N cap s \<Longrightarrow>
     ss_inv N cap t \<and> k + c_rank N (ss_consumer t) \<le> c_rank N (ss_consumer s)"
  by (induction rule: spsc_pop_run.induct)
    (auto dest: cstep_rank pstep_consumer intro: ss_inv_pstep ss_inv_cstep)

section \<open>Undisturbed runs are the whole operations\<close>

lemma p_write_run:
  assumes "ss_producer s = P_write payload head ws" "i = ring_index cap head"
    and "i < length (ss_slots s)"
  shows "(spsc_pstep N cap)\<^sup>*\<^sup>* s
    (s\<lparr>ss_slots := (ss_slots s)[i := fold fm_do ws (ss_slots s ! i)],
       ss_producer := P_write payload head []\<rparr>)"
  using assms
proof (induction ws arbitrary: s)
  case Nil
  then have "s\<lparr>ss_producer := P_write payload head []\<rparr> = s" by (cases s) simp
  then show ?case by simp
next
  case (Cons w ws)
  let ?s' = "s\<lparr>ss_slots := (ss_slots s)[i := fm_do w (ss_slots s ! i)],
               ss_producer := P_write payload head ws\<rparr>"
  have "spsc_pstep N cap s ?s'" using Cons.prems spsc_pstep.p_write by blast
  moreover have "(spsc_pstep N cap)\<^sup>*\<^sup>* ?s'
      (?s'\<lparr>ss_slots := (ss_slots ?s')[i := fold fm_do ws (ss_slots ?s' ! i)],
           ss_producer := P_write payload head []\<rparr>)"
    using Cons.IH [of ?s'] Cons.prems by simp
  ultimately show ?case using Cons.prems by (simp add: converse_rtranclp_into_rtranclp)
qed

lemma solo_push_success:
  assumes inv: "ss_inv N cap s" and idle: "ss_producer s = P_idle" and size: "length payload \<le> N"
    and nfull: "last (ss_head s) - last (ss_tail s) \<noteq> cap"
  shows "\<exists>t. (spsc_pstep N cap)\<^sup>*\<^sup>* s t \<and>
    ss_producer t = P_done (fst (spsc_try_push N (ss_queue cap s) payload)) \<and>
    ss_queue cap t = snd (spsc_try_push N (ss_queue cap s) payload)"
proof -
  define h where "h = last (ss_head s)"
  define i where "i = ring_index cap h"
  define ts where "ts = consumed s"
  let ?s1 = "s\<lparr>ss_producer := P_check payload h\<rparr>"
  let ?s2 = "s\<lparr>ss_tail_view := ts, ss_producer := P_write payload h (fm_writes payload (h + 1))\<rparr>"
  let ?m = "fold fm_do (fm_writes payload (h + 1)) (ss_slots s ! i)"
  let ?s3 = "s\<lparr>ss_tail_view := ts, ss_slots := (ss_slots s)[i := ?m],
               ss_producer := P_write payload h []\<rparr>"
  let ?s4 = "?s3\<lparr>ss_head := ss_head s @ [h + 1], ss_producer := P_done (write_res Success (h + 1)),
               ss_pushed := ss_pushed s @ [payload]\<rparr>"
  have cnt: "ss_counters cap s" and mem: "ss_memory N cap s"
    using inv by (simp_all add: ss_inv_def)
  have i: "i < length (ss_slots s)"
    using cnt mem by (simp add: i_def ss_counters_def ss_memory_def)
  then have len: "length (fm_storage (ss_slots s ! i)) = N" using mem by (simp add: ss_memory_def)
  have tl: "ss_tail s = counter ts" and v: "ss_tail_view s \<le> ts"
    using cnt by (simp_all add: ss_counters_def ts_def)
  have "spsc_pstep N cap s ?s1" using idle size h_def spsc_pstep.p_load_head by blast
  moreover have "spsc_pstep N cap ?s1 ?s2"
    using spsc_pstep.p_claim [of ?s1 payload h ts "last (ss_tail s)" cap N] tl v nfull
    by (simp add: at_load_def h_def)
  moreover have "(spsc_pstep N cap)\<^sup>*\<^sup>* ?s2 ?s3"
    using p_write_run [of ?s2 payload h "fm_writes payload (h + 1)" i cap N] i i_def by simp
  moreover have "spsc_pstep N cap ?s3 ?s4"
    using spsc_pstep.p_publish [of ?s3 payload h N cap] by simp
  ultimately have "(spsc_pstep N cap)\<^sup>*\<^sup>* s ?s4"
    by (meson converse_rtranclp_into_rtranclp rtranclp.rtrancl_into_rtrancl)
  moreover have "spsc_try_push N (ss_queue cap s) payload =
      (write_res Success (h + 1), ss_queue cap ?s4)"
    using size nfull fm_writes_assign [OF len size, of "h + 1"]
      fm_assign_status [OF size, of "ss_slots s ! i" "h + 1"]
    by (simp add: spsc_try_push_def ss_queue_def Let_def case_prod_beta
        h_def [symmetric] i_def [symmetric])
  ultimately show ?thesis by (intro exI [of _ ?s4]) simp
qed

lemma solo_push:
  assumes inv: "ss_inv N cap s" and idle: "ss_producer s = P_idle"
  shows "\<exists>t. (spsc_pstep N cap)\<^sup>*\<^sup>* s t \<and>
    ss_producer t = P_done (fst (spsc_try_push N (ss_queue cap s) payload)) \<and>
    ss_queue cap t = snd (spsc_try_push N (ss_queue cap s) payload)"
proof -
  consider "length payload > N" | "length payload \<le> N" "last (ss_head s) - last (ss_tail s) = cap"
    | "length payload \<le> N" "last (ss_head s) - last (ss_tail s) \<noteq> cap" by linarith
  then show ?thesis
  proof cases
    case 1
    then have "spsc_pstep N cap s (s\<lparr>ss_producer := P_done (write_res Message_too_large 0)\<rparr>)"
      using idle spsc_pstep.p_reject by blast
    then show ?thesis
      using 1 by (intro exI [of _ "s\<lparr>ss_producer := P_done (write_res Message_too_large 0)\<rparr>"])
        (simp add: spsc_try_push_def ss_queue_def r_into_rtranclp)
  next
    case 2
    let ?s1 = "s\<lparr>ss_producer := P_check payload (last (ss_head s))\<rparr>"
    let ?s2 = "?s1\<lparr>ss_tail_view := consumed s, ss_producer := P_done (write_res Full 0)\<rparr>"
    have "ss_tail s = counter (consumed s)" "ss_tail_view s \<le> consumed s"
      using inv by (simp_all add: ss_inv_def ss_counters_def)
    then have "spsc_pstep N cap ?s1 ?s2"
      using spsc_pstep.p_full [of ?s1 payload "last (ss_head s)" "consumed s" "last (ss_tail s)" cap N] 2
      by (simp add: at_load_def)
    moreover have "spsc_pstep N cap s ?s1" using idle 2 spsc_pstep.p_load_head by blast
    ultimately have "(spsc_pstep N cap)\<^sup>*\<^sup>* s ?s2"
      by (meson converse_rtranclp_into_rtranclp r_into_rtranclp)
    then show ?thesis
      using 2 by (intro exI [of _ ?s2]) (simp add: spsc_try_push_def ss_queue_def Let_def)
  next
    case 3
    then show ?thesis using solo_push_success [OF inv idle] by blast
  qed
qed

lemma c_read_run:
  assumes "ss_consumer s = C_read dest tail r" "m = ss_slots s ! ring_index cap tail"
  shows "(spsc_cstep cap)\<^sup>*\<^sup>* s (s\<lparr>ss_consumer := C_read dest tail ((fm_read_step m ^^ n) r)\<rparr>)"
proof (induction n)
  case 0
  from assms(1) have "s\<lparr>ss_consumer := C_read dest tail r\<rparr> = s" by (cases s) simp
  then show ?case by simp
next
  case (Suc n)
  let ?r = "(fm_read_step m ^^ n) r"
  let ?s = "s\<lparr>ss_consumer := C_read dest tail ?r\<rparr>"
  show ?case
  proof (cases "\<exists>res d. ?r = Read_done res d")
    case True
    then show ?thesis using Suc.IH by auto
  next
    case False
    then have "spsc_cstep cap ?s (?s\<lparr>ss_consumer :=
        C_read dest tail (fm_read_step (ss_slots ?s ! ring_index cap tail) ?r)\<rparr>)"
      by (intro spsc_cstep.c_read) auto
    then show ?thesis using Suc.IH assms(2) by (simp add: rtranclp.rtrancl_into_rtrancl)
  qed
qed

lemma solo_pop:
  assumes inv: "ss_inv N cap s" and idle: "ss_consumer s = C_idle"
  shows "\<exists>t r d. (spsc_cstep cap)\<^sup>*\<^sup>* s t \<and> ss_consumer t = C_done r d \<and>
    spsc_try_pop (ss_queue cap s) dest = (r, d, ss_queue cap t)"
proof -
  have cnt: "ss_counters cap s" and mem: "ss_memory N cap s"
    using inv by (simp_all add: ss_inv_def)
  have hd: "ss_head s = counter (published s)" and tl: "ss_tail s = counter (consumed s)"
    and v: "ss_head_view s \<le> published s" "consumed s \<le> published s"
    "published s \<le> consumed s + unat cap"
    using cnt by (auto simp: ss_counters_def)
  define tail where "tail = last (ss_tail s)"
  have tail: "tail = of_nat (consumed s)" using tl by (simp add: tail_def)
  let ?s1 = "s\<lparr>ss_consumer := C_check dest tail\<rparr>"
  have s1: "spsc_cstep cap s ?s1" using idle tail_def spsc_cstep.c_load_tail by blast
  have load: "at_load (ss_head ?s1) (ss_head_view ?s1) (published s) (last (ss_head s))"
    using hd v by (simp add: at_load_def)
  show ?thesis
  proof (cases "tail = last (ss_head s)")
    case True
    let ?s2 = "?s1\<lparr>ss_head_view := published s, ss_consumer := C_done (read_res Empty 0 0) dest\<rparr>"
    have "spsc_cstep cap ?s1 ?s2"
      using spsc_cstep.c_empty [OF _ load] True by simp
    then have "(spsc_cstep cap)\<^sup>*\<^sup>* s ?s2"
      using s1 by (meson converse_rtranclp_into_rtranclp r_into_rtranclp)
    then show ?thesis
      using True tail_def
      by (intro exI [of _ ?s2]) (simp add: spsc_try_pop_def ss_queue_def Let_def)
  next
    case False
    let ?s2 = "s\<lparr>ss_head_view := published s, ss_consumer := C_read dest tail (Read_size dest)\<rparr>"
    define p where "p = ss_pushed s ! consumed s"
    define m where "m = ss_slots s ! ring_index cap tail"
    obtain r d where rd: "fm_copy_to m dest = (r, d)" by fastforce
    have less: "consumed s < published s"
      using False hd tail of_nat_eq_near [of "consumed s" "published s" cap] v by auto
    have "ring_index cap tail = consumed s mod unat cap"
      using published_index [OF cnt, of "consumed s"] tail v by simp
    then have holds: "fm_holds N p (of_nat (Suc (consumed s))) m"
      using mem less by (simp add: ss_memory_def p_def m_def)
    let ?s3 = "?s2\<lparr>ss_consumer := C_read dest tail (Read_done r d)\<rparr>"
    have s2: "spsc_cstep cap ?s1 ?s2"
      using spsc_cstep.c_start [OF _ load, of dest tail cap] False by simp
    have "(spsc_cstep cap)\<^sup>*\<^sup>* ?s2 (?s2\<lparr>ss_consumer :=
        C_read dest tail ((fm_read_step m ^^ (length p + 2)) (Read_size dest))\<rparr>)"
      by (rule c_read_run) (simp_all add: m_def)
    then have "(spsc_cstep cap)\<^sup>*\<^sup>* ?s2 ?s3"
      using fm_read_copy_to [OF holds, of dest] rd by simp
    then have run: "(spsc_cstep cap)\<^sup>*\<^sup>* s ?s3"
      using s1 s2 by (meson converse_rtranclp_into_rtranclp)
    have ne: "last (ss_tail s) \<noteq> last (ss_head s)" using False tail_def by simp
    show ?thesis
    proof (cases "ok (rr_status r)")
      case True
      let ?t = "?s3\<lparr>ss_tail := ss_tail ?s3 @ [tail + 1], ss_consumer := C_done r d,
                   ss_popped := ss_popped ?s3 @ [(dest, r, d)]\<rparr>"
      have "spsc_cstep cap ?s3 ?t" using True by (intro spsc_cstep.c_release) simp_all
      then have "(spsc_cstep cap)\<^sup>*\<^sup>* s ?t" using run by (rule rtranclp.rtrancl_into_rtrancl [rotated])
      then show ?thesis
        using True rd ne m_def tail_def
        by (intro exI [of _ ?t]) (simp add: spsc_try_pop_def ss_queue_def Let_def)
    next
      case no: False
      let ?t = "?s3\<lparr>ss_consumer := C_done r d\<rparr>"
      have "spsc_cstep cap ?s3 ?t" using no by (intro spsc_cstep.c_keep) simp_all
      then have "(spsc_cstep cap)\<^sup>*\<^sup>* s ?t" using run by (rule rtranclp.rtrancl_into_rtrancl [rotated])
      then show ?thesis
        using no rd ne m_def tail_def
        by (intro exI [of _ ?t]) (simp add: spsc_try_pop_def ss_queue_def Let_def)
    qed
  qed
qed

section \<open>What the pops delivered\<close>

lemma delivered_payloads:
  assumes inv: "ss_inv N cap s"
  shows "map (\<lambda>(dest, res, d). take (rr_bytes_read res) d) (ss_popped s) =
      take (length (ss_popped s)) (ss_pushed s) \<and>
    (\<forall>(dest, res, d) \<in> set (ss_popped s). rr_status res = Success)"
proof -
  have len: "length (ss_popped s) = consumed s" "length (ss_pushed s) = published s" "consumed s \<le> published s"
    using inv by (simp_all add: ss_inv_def ss_counters_def)
  have pop: "case ss_popped s ! i of (dest, res, d) \<Rightarrow>
      take (rr_bytes_read res) d = ss_pushed s ! i \<and> rr_status res = Success"
    if "i < consumed s" for i
  proof -
    obtain dest res d where e: "ss_popped s ! i = (dest, res, d)" by (metis prod_cases3)
    then have "length (ss_pushed s ! i) \<le> length dest"
      "res = read_res Success (length (ss_pushed s ! i)) (of_nat (Suc i))"
      "d = copy_n (length (ss_pushed s ! i)) (ss_pushed s ! i) dest"
      using inv that by (force simp: ss_inv_def ss_history_def)+
    then show ?thesis using e by simp
  qed
  have "map (\<lambda>(dest, res, d). take (rr_bytes_read res) d) (ss_popped s) =
      take (length (ss_popped s)) (ss_pushed s)"
    by (rule nth_equalityI) (use pop len in \<open>auto simp: split_beta\<close>)
  moreover have "\<forall>(dest, res, d) \<in> set (ss_popped s). rr_status res = Success"
    using pop len by (fastforce simp: in_set_conv_nth)
  ultimately show ?thesis by simp
qed

section \<open>Example runs\<close>

text \<open>With a capacity that divides \<open>2 ^ 64\<close> every interleaving is within the lifetime.\<close>

lemma reachable_psteps:
  assumes "reachable (spsc_sys_init N 2) (spsc_sys_step N 2) s" "(spsc_pstep N 2)\<^sup>*\<^sup>* s t"
  shows "reachable (spsc_sys_init N 2) (spsc_sys_step N 2) t"
  using assms(2,1)
  by (induction rule: rtranclp_induct)
    (auto intro: reach_step simp: spsc_sys_step_def spsc_lifetime_def)

lemma reachable_csteps:
  assumes "reachable (spsc_sys_init N 2) (spsc_sys_step N 2) s" "(spsc_cstep 2)\<^sup>*\<^sup>* s t"
  shows "reachable (spsc_sys_init N 2) (spsc_sys_step N 2) t"
  using assms(2,1)
  by (induction rule: rtranclp_induct)
    (auto intro: reach_step simp: spsc_sys_step_def spsc_lifetime_def)

lemma spsc_example_overlap:
  "\<exists>s. reachable (spsc_sys_init 1 2) (spsc_sys_step 1 2) s \<and> ss_pushed s = [[7]] \<and>
     ss_popped s = [] \<and> ss_producer s = P_write [8] 1 (fm_writes [8] 2) \<and>
     ss_consumer s = C_read [0] 0 (Read_done (read_res Success 1 1) [7])"
proof -
  let ?R = "reachable (spsc_sys_init 1 2) (spsc_sys_step 1 2)"
  let ?m = "\<lparr>fm_storage = [0], fm_size = 0, fm_sequence = 0\<rparr>"
  let ?m1 = "\<lparr>fm_storage = [7], fm_size = 1, fm_sequence = 1\<rparr>"
  have two_slots: "replicate 2 ?m = [?m, ?m]" by (simp add: numeral_2_eq_2)
  define s0 where "s0 = \<lparr>ss_slots = [?m, ?m], ss_head = [0], ss_tail = [0], ss_tail_view = 0,
    ss_head_view = 0, ss_producer = P_idle, ss_consumer = C_idle, ss_pushed = [], ss_popped = []\<rparr>"
  have 0: "?R s0"
    by (rule reach_init) (simp add: spsc_sys_init_def s0_def fm_new_def two_slots)
  have 1: "?R (s0\<lparr>ss_producer := P_check [7] 0\<rparr>)"
    using reachable_psteps [OF 0 r_into_rtranclp, OF spsc_pstep.p_load_head [of _ "[7]"]]
    by (simp add: s0_def)
  have 2: "?R (s0\<lparr>ss_producer := P_write [7] 0 (fm_writes [7] 1)\<rparr>)"
    using reachable_psteps [OF 1 r_into_rtranclp, OF spsc_pstep.p_claim [of _ "[7]" 0 0 0]]
    by (simp add: s0_def at_load_def)
  have 3: "?R (s0\<lparr>ss_slots := [?m1, ?m], ss_producer := P_write [7] 0 []\<rparr>)"
    using reachable_psteps [OF 2 p_write_run [of _ "[7]" 0 "fm_writes [7] 1" 0]]
    by (simp add: s0_def fm_writes_def ring_index_def)
  define s4 where "s4 = s0\<lparr>ss_slots := [?m1, ?m], ss_head := [0, 1], ss_pushed := [[7]]\<rparr>"
  have 4: "?R (s4\<lparr>ss_producer := P_done (write_res Success 1)\<rparr>)"
    using reachable_psteps [OF 3 r_into_rtranclp, OF spsc_pstep.p_publish [of _ "[7]" 0]]
    by (simp add: s0_def s4_def)
  have 5: "?R s4"
    using reachable_psteps [OF 4 r_into_rtranclp, OF spsc_pstep.p_return] by (simp add: s0_def s4_def)
  have 6: "?R (s4\<lparr>ss_producer := P_check [8] 1\<rparr>)"
    using reachable_psteps [OF 5 r_into_rtranclp, OF spsc_pstep.p_load_head [of _ "[8]"]]
    by (simp add: s0_def s4_def)
  define s7 where "s7 = s4\<lparr>ss_producer := P_write [8] 1 (fm_writes [8] 2)\<rparr>"
  have 7: "?R s7"
    using reachable_psteps [OF 6 r_into_rtranclp, OF spsc_pstep.p_claim [of _ "[8]" 1 0 0]]
    by (simp add: s0_def s4_def s7_def at_load_def)
  have 8: "?R (s7\<lparr>ss_consumer := C_check [0] 0\<rparr>)"
    using reachable_csteps [OF 7 r_into_rtranclp, OF spsc_cstep.c_load_tail [of _ 0 _ "[0]"]]
    by (simp add: s0_def s4_def s7_def)
  have 9: "?R (s7\<lparr>ss_head_view := 1, ss_consumer := C_read [0] 0 (Read_size [0])\<rparr>)"
    using reachable_csteps [OF 8 r_into_rtranclp, OF spsc_cstep.c_start [of _ "[0]" 0 1 1]]
    by (simp add: s0_def s4_def s7_def at_load_def)
  have "?R (s7\<lparr>ss_head_view := 1,
      ss_consumer := C_read [0] 0 (Read_done (read_res Success 1 1) [7])\<rparr>)"
    using reachable_csteps [OF 9 c_read_run [of _ "[0]" 0 "Read_size [0]" _ _ 3]]
    by (simp add: s0_def s4_def s7_def ring_index_def eval_nat_numeral)
  moreover have "ss_pushed s7 = [[7]]" "ss_popped s7 = []"
      "ss_producer s7 = P_write [8] 1 (fm_writes [8] 2)"
    by (simp_all add: s0_def s4_def s7_def)
  ultimately show ?thesis
    by (intro exI [of _ "s7\<lparr>ss_head_view := 1,
      ss_consumer := C_read [0] 0 (Read_done (read_res Success 1 1) [7])\<rparr>"]) simp
qed

lemma spsc_example_delivered:
  "\<exists>s. reachable (spsc_sys_init 1 2) (spsc_sys_step 1 2) s \<and> ss_pushed s = [[7]] \<and>
     ss_popped s = [([0], read_res Success 1 1, [7])]"
proof -
  obtain s where s: "reachable (spsc_sys_init 1 2) (spsc_sys_step 1 2) s" "ss_pushed s = [[7]]"
      "ss_popped s = []" "ss_consumer s = C_read [0] 0 (Read_done (read_res Success 1 1) [7])"
    using spsc_example_overlap by blast
  let ?t = "s\<lparr>ss_tail := ss_tail s @ [1], ss_consumer := C_done (read_res Success 1 1) [7],
    ss_popped := [([0], read_res Success 1 1, [7])]\<rparr>"
  have "reachable (spsc_sys_init 1 2) (spsc_sys_step 1 2) ?t"
    using reachable_csteps [OF s(1) r_into_rtranclp, OF spsc_cstep.c_release [OF s(4)]] s(3)
    by (simp add: ok_def)
  then show ?thesis using s(2) by (intro exI [of _ ?t]) simp
qed

section \<open>Properties\<close>

text \<open>
  C4: In every interleaving of the producer and the consumer, the payloads delivered by the
  completed pops are a prefix of the published payloads, in the same order, and at most
  \<open>capacity\<close> published payloads are undelivered. Stale acquire loads are included.
\<close>

theorem spsc_concurrent_fifo:
  assumes "reachable (spsc_sys_init N cap) (spsc_sys_step N cap) s"
  shows "map (\<lambda>(dest, res, d). take (rr_bytes_read res) d) (ss_popped s) =
      take (length (ss_popped s)) (ss_pushed s) \<and>
    length (ss_popped s) \<le> length (ss_pushed s) \<and>
    length (ss_pushed s) \<le> length (ss_popped s) + unat cap \<and>
    (\<forall>(dest, res, d) \<in> set (ss_popped s). rr_status res = Success)"
proof -
  have inv: "ss_inv N cap s" using assms by (rule spsc_sys.reachable_inv)
  have "length (ss_popped s) \<le> length (ss_pushed s)" "length (ss_pushed s) \<le> length (ss_popped s) + unat cap"
    using inv by (simp_all add: ss_inv_def ss_counters_def)
  then show ?thesis using delivered_payloads [OF inv] by simp
qed

theorem spsc_concurrent_fifo_witness:
  "\<exists>s. reachable (spsc_sys_init 1 2) (spsc_sys_step 1 2) s \<and> length (ss_popped s) = 1 \<and>
     map (\<lambda>(dest, res, d). take (rr_bytes_read res) d) (ss_popped s) = take 1 (ss_pushed s)"
proof -
  obtain s where s: "reachable (spsc_sys_init 1 2) (spsc_sys_step 1 2) s"
      "ss_popped s = [([0], read_res Success 1 1, [7])]"
    using spsc_example_delivered by blast
  have "length (ss_popped s) = 1" by (simp add: s(2))
  then show ?thesis using spsc_concurrent_fifo [OF s(1)] s(1) by metis
qed

text \<open>
  C6: The ordinary memory of a slot is never raced on. While the producer writes a slot it has
  acquired every release of that slot by the consumer, so all earlier reads of the slot happen
  before its writes; while the consumer reads a slot it has acquired the head store that
  published it; and the two threads are then in different slots.
\<close>

theorem spsc_race_free:
  assumes "reachable (spsc_sys_init N cap) (spsc_sys_step N cap) s"
  shows "(case ss_producer s of P_write payload head todo \<Rightarrow>
            \<forall>p < published s. p mod unat cap = ring_index cap head \<longrightarrow> p < ss_tail_view s
          | _ \<Rightarrow> True) \<and>
         (case ss_consumer s of C_read dest tail r \<Rightarrow>
            consumed s < ss_head_view s \<and> ring_index cap tail = consumed s mod unat cap
          | _ \<Rightarrow> True) \<and>
         (case (ss_producer s, ss_consumer s) of (P_write payload head todo, C_read dest tail r) \<Rightarrow>
            ring_index cap head \<noteq> ring_index cap tail
          | _ \<Rightarrow> True)"
proof -
  have inv: "ss_inv N cap s" using assms by (rule spsc_sys.reachable_inv)
  then have cnt: "ss_counters cap s" by (simp add: ss_inv_def)
  have pw: "ring_index cap head = published s mod unat cap \<and>
      (\<forall>p < published s. p mod unat cap = ring_index cap head \<longrightarrow> p < ss_tail_view s)"
    if "ss_producer s = P_write payload head todo" for payload head todo
  proof -
    have h: "head = of_nat (published s)" "published s < ss_tail_view s + unat cap"
      using inv that by (simp_all add: ss_inv_def)
    have i: "ring_index cap head = published s mod unat cap"
      using published_index [OF cnt, of "published s"] h by simp
    have "p < ss_tail_view s" if "p < published s" "p mod unat cap = published s mod unat cap" for p
      using same_residue_gap [of p "unat cap" "published s"] that h by simp
    then show ?thesis using i by simp
  qed
  have cr: "consumed s < ss_head_view s \<and> ring_index cap tail = consumed s mod unat cap"
    if "ss_consumer s = C_read dest tail r" for dest tail r
    using inv that published_index [OF cnt, of "consumed s"] cnt
    by (auto simp: ss_inv_def ss_counters_def)
  have ne: "ring_index cap head \<noteq> ring_index cap tail"
    if "ss_producer s = P_write payload head todo" "ss_consumer s = C_read dest tail r"
    for payload head todo dest tail r
  proof
    assume eq: "ring_index cap head = ring_index cap tail"
    have view: "consumed s < published s" "ss_tail_view s \<le> consumed s"
      using cr [OF that(2)] cnt by (simp_all add: ss_counters_def)
    have "consumed s mod unat cap = ring_index cap head" using eq cr [OF that(2)] by simp
    then have "consumed s < ss_tail_view s"
      using conjunct2 [OF pw [OF that(1)], rule_format, OF view(1)] by simp
    then show False using view(2) by simp
  qed
  show ?thesis
  proof (intro conjI)
    show "case ss_producer s of P_write payload head todo \<Rightarrow>
        \<forall>p < published s. p mod unat cap = ring_index cap head \<longrightarrow> p < ss_tail_view s | _ \<Rightarrow> True"
      using conjunct2 [OF pw] by (simp split: spsc_producer.split)
    show "case ss_consumer s of C_read dest tail r \<Rightarrow>
        consumed s < ss_head_view s \<and> ring_index cap tail = consumed s mod unat cap | _ \<Rightarrow> True"
      using cr by (simp split: spsc_consumer.split)
  qed (simp split: spsc_producer.split spsc_consumer.split, use ne in blast)
qed

theorem spsc_race_free_witness:
  "\<exists>s head tail payload todo dest r.
     reachable (spsc_sys_init 1 2) (spsc_sys_step 1 2) s \<and>
     ss_producer s = P_write payload head todo \<and> ss_consumer s = C_read dest tail r \<and>
     ring_index 2 head \<noteq> ring_index 2 tail"
proof -
  obtain s where s: "reachable (spsc_sys_init 1 2) (spsc_sys_step 1 2) s"
      "ss_producer s = P_write [8] 1 (fm_writes [8] 2)"
      "ss_consumer s = C_read [0] 0 (Read_done (read_res Success 1 1) [7])"
    using spsc_example_overlap by blast
  show ?thesis using spsc_race_free [OF s(1)] s by fastforce
qed

text \<open>
  C14: \<open>try_push\<close> and \<open>try_pop\<close> are wait-free: from any reachable state, however the other side is
  scheduled, the producer and the consumer each return from a call they have begun after at most
  \<open>MaxPayloadSize + 5\<close> more own steps, and neither is ever blocked.
\<close>

theorem spsc_wait_free:
  assumes "reachable (spsc_sys_init N cap) (spsc_sys_step N cap) s"
  shows "(spsc_push_run N cap k s t \<longrightarrow> k \<le> N + 5 \<and> (\<exists>u. spsc_pstep N cap t u)) \<and>
    (spsc_pop_run N cap k s t \<longrightarrow> k \<le> N + 5 \<and> (\<exists>u. spsc_cstep cap t u))"
  using push_run_rank [of N cap k s t] pop_run_rank [of N cap k s t] spsc_sys.reachable_inv [OF assms]
    reachable_p_rank [OF assms] reachable_c_rank [OF assms] pstep_enabled cstep_enabled by fastforce

theorem spsc_wait_free_witness:
  "\<exists>s t u. reachable (spsc_sys_init 1 2) (spsc_sys_step 1 2) s \<and>
     spsc_push_run 1 2 1 s t \<and> (1 :: nat) \<le> 1 + 5 \<and> (\<exists>v. spsc_pstep 1 2 t v) \<and>
     spsc_pop_run 1 2 1 s u \<and> (\<exists>v. spsc_cstep 2 u v)"
proof -
  obtain s where s: "reachable (spsc_sys_init 1 2) (spsc_sys_step 1 2) s"
      "ss_producer s = P_write [8] 1 (fm_writes [8] 2)"
      "ss_consumer s = C_read [0] 0 (Read_done (read_res Success 1 1) [7])"
    using spsc_example_overlap by blast
  obtain t u where "spsc_pstep 1 2 s t" "spsc_cstep 2 s u"
    using pstep_enabled [OF spsc_sys.reachable_inv [OF s(1)]] cstep_enabled [OF spsc_sys.reachable_inv [OF s(1)]] by blast
  then have "spsc_push_run 1 2 (Suc 0) s t" "spsc_pop_run 1 2 (Suc 0) s u"
    using push_run_own [OF push_run_start] pop_run_own [OF pop_run_start] s(2,3) by (simp_all add: spsc_lifetime_def)
  then show ?thesis using spsc_wait_free [OF s(1)] s(1) by fastforce
qed



end
