(* ===== verification/Mpmc_Queue.thy ===== *)
theory Mpmc_Queue
  imports Fixed_Message Contracts
begin

text \<open>
  \<open>MPMCQueue<MaxPayloadSize>\<close> (\<open>include/orbitqueue/mpmc_queue.h\<close>), each operation as one
  function. The claim loop of \<open>try_push\<close> and \<open>try_pop\<close> may run forever (a weak
  compare-exchange may fail spuriously any number of times), so it is a partial function
  whose value \<open>None\<close> is "does not return"; \<open>weak k\<close> says that the \<open>k\<close>-th compare-exchange of
  the call fails spuriously. Concurrent callers are in \<open>Mpmc_Concurrent\<close>.
\<close>

section \<open>Definitions\<close>

record mpmc_cell =
  cell_sequence :: u64
  cell_message :: fixed_message

record mpmc_queue =
  mq_capacity :: u64
  mq_mask :: u64
  mq_cells :: "mpmc_cell list"
  mq_enqueue_pos :: u64
  mq_dequeue_pos :: u64

definition mpmc_validate_capacity :: "u64 \<Rightarrow> cpp_exception + u64" where
  "mpmc_validate_capacity capacity =
     (if capacity < 2 \<or> capacity AND (capacity - 1) \<noteq> 0
      then Inl (Invalid_argument ''MPMCQueue capacity must be a power of two greater than one'')
      else Inr capacity)"

definition mpmc_make :: "nat \<Rightarrow> u64 \<Rightarrow> cpp_exception + mpmc_queue" where
  "mpmc_make N capacity =
     (case mpmc_validate_capacity capacity of
        Inl e \<Rightarrow> Inl e
      | Inr c \<Rightarrow> Inr \<lparr>mq_capacity = c, mq_mask = c - 1,
          mq_cells = map (\<lambda>i. \<lparr>cell_sequence = of_nat i, cell_message = fm_new N\<rparr>) [0..<unat c],
          mq_enqueue_pos = 0, mq_dequeue_pos = 0\<rparr>)"

definition mpmc_index :: "mpmc_queue \<Rightarrow> u64 \<Rightarrow> nat" where
  "mpmc_index q position = unat (position AND mq_mask q)"

text \<open>The claim loop of \<open>try_push\<close>: \<open>Some position\<close> when claimed, \<open>None\<close> inside when full.\<close>

partial_function (option) mpmc_push_claim ::
    "(nat \<Rightarrow> bool) \<Rightarrow> nat \<Rightarrow> mpmc_queue \<Rightarrow> u64 \<Rightarrow> (u64 option \<times> mpmc_queue) option" where
  "mpmc_push_claim weak k q position =
     (let sequence = cell_sequence (mq_cells q ! mpmc_index q position) in
      if sequence = position then
        (if mq_enqueue_pos q = position \<and> \<not> weak k
         then Some (Some position, q\<lparr>mq_enqueue_pos := position + 1\<rparr>)
         else mpmc_push_claim weak (Suc k) q (mq_enqueue_pos q))
      else if sequence < position then Some (None, q)
      else mpmc_push_claim weak k q (mq_enqueue_pos q))"

definition mpmc_try_push ::
    "(nat \<Rightarrow> bool) \<Rightarrow> nat \<Rightarrow> mpmc_queue \<Rightarrow> byte list \<Rightarrow> (write_result \<times> mpmc_queue) option" where
  "mpmc_try_push weak N q payload =
     (if length payload > N then Some (write_res Message_too_large 0, q)
      else (case mpmc_push_claim weak 0 q (mq_enqueue_pos q) of
          None \<Rightarrow> None
        | Some (None, q1) \<Rightarrow> Some (write_res Full 0, q1)
        | Some (Some position, q1) \<Rightarrow>
            (let i = mpmc_index q1 position;
                 (result, message) =
                   fm_assign N (cell_message (mq_cells q1 ! i)) payload (position + 1)
             in Some (result, q1\<lparr>mq_cells := (mq_cells q1)
                  [i := \<lparr>cell_sequence = position + 1, cell_message = message\<rparr>]\<rparr>))))"

partial_function (option) mpmc_pop_claim ::
    "(nat \<Rightarrow> bool) \<Rightarrow> nat \<Rightarrow> mpmc_queue \<Rightarrow> u64 \<Rightarrow> (u64 option \<times> mpmc_queue) option" where
  "mpmc_pop_claim weak k q position =
     (let sequence = cell_sequence (mq_cells q ! mpmc_index q position) in
      if sequence = position + 1 then
        (if mq_dequeue_pos q = position \<and> \<not> weak k
         then Some (Some position, q\<lparr>mq_dequeue_pos := position + 1\<rparr>)
         else mpmc_pop_claim weak (Suc k) q (mq_dequeue_pos q))
      else if sequence < position + 1 then Some (None, q)
      else mpmc_pop_claim weak k q (mq_dequeue_pos q))"

definition mpmc_try_pop ::
    "(nat \<Rightarrow> bool) \<Rightarrow> mpmc_queue \<Rightarrow> byte list \<Rightarrow> (read_result \<times> byte list \<times> mpmc_queue) option"
  where
  "mpmc_try_pop weak q destination =
     (case mpmc_pop_claim weak 0 q (mq_dequeue_pos q) of
          None \<Rightarrow> None
        | Some (None, q1) \<Rightarrow> Some (read_res Empty 0 0, destination, q1)
        | Some (Some position, q1) \<Rightarrow>
            (let i = mpmc_index q1 position;
                 (result, destination') = fm_copy_to (cell_message (mq_cells q1 ! i)) destination
             in Some (result, destination', q1\<lparr>mq_cells := (mq_cells q1)
                  [i := (mq_cells q1 ! i)\<lparr>cell_sequence := position + mq_capacity q1\<rparr>]\<rparr>)))"

declare mpmc_push_claim.simps [code] mpmc_pop_claim.simps [code]

definition mpmc_empty :: "mpmc_queue \<Rightarrow> bool" where
  "mpmc_empty q \<longleftrightarrow>
     (let position = mq_dequeue_pos q;
          sequence = cell_sequence (mq_cells q ! mpmc_index q position)
      in sequence < position + 1)"

subsection \<open>Contents and invariant\<close>

definition mpmc_cap :: "mpmc_queue \<Rightarrow> nat" where
  "mpmc_cap q = unat (mq_capacity q)"

definition mpmc_cell_at :: "mpmc_queue \<Rightarrow> nat \<Rightarrow> mpmc_cell" where
  "mpmc_cell_at q p = mq_cells q ! (p mod mpmc_cap q)"

definition mpmc_contents :: "mpmc_queue \<Rightarrow> byte list list" where
  "mpmc_contents q = map (\<lambda>p. fm_payload (cell_message (mpmc_cell_at q p)))
     [unat (mq_dequeue_pos q)..<unat (mq_enqueue_pos q)]"

text \<open>The fixed parts: a power-of-two capacity of at least two, its mask, and the cell array.\<close>

definition mpmc_shape :: "nat \<Rightarrow> mpmc_queue \<Rightarrow> bool" where
  "mpmc_shape N q \<longleftrightarrow> (\<exists>k. 0 < k \<and> k < 64 \<and> mq_capacity q = 2 ^ k) \<and>
     mq_mask q = mq_capacity q - 1 \<and> length (mq_cells q) = mpmc_cap q \<and>
     (\<forall>c \<in> set (mq_cells q). fm_wf N (cell_message c))"

text \<open>
  Outside calls every cell is either published (a position not yet popped) or free for the
  next position of its residue.
\<close>

definition mpmc_inv :: "nat \<Rightarrow> mpmc_queue \<Rightarrow> bool" where
  "mpmc_inv N q \<longleftrightarrow> mpmc_shape N q \<and>
     unat (mq_dequeue_pos q) \<le> unat (mq_enqueue_pos q) \<and>
     unat (mq_enqueue_pos q) \<le> unat (mq_dequeue_pos q) + mpmc_cap q \<and>
     unat (mq_enqueue_pos q) + mpmc_cap q < 2 ^ 64 \<and>
     (\<forall>p. unat (mq_dequeue_pos q) \<le> p \<and> p < unat (mq_enqueue_pos q) \<longrightarrow>
        unat (cell_sequence (mpmc_cell_at q p)) = Suc p \<and>
        fm_sequence (cell_message (mpmc_cell_at q p)) = of_nat (Suc p)) \<and>
     (\<forall>p. unat (mq_enqueue_pos q) \<le> p \<and> p < unat (mq_dequeue_pos q) + mpmc_cap q \<longrightarrow>
        unat (cell_sequence (mpmc_cell_at q p)) = p)"

text \<open>Positions left before the counters are exhausted.\<close>

definition mpmc_room :: "mpmc_queue \<Rightarrow> nat \<Rightarrow> bool" where
  "mpmc_room q n \<longleftrightarrow> unat (mq_enqueue_pos q) + n + mpmc_cap q < 2 ^ 64"

text \<open>The operations as a client with a full-size destination uses them.\<close>

definition mpmc_push_op ::
    "(nat \<Rightarrow> bool) \<Rightarrow> nat \<Rightarrow> mpmc_queue \<Rightarrow> byte list \<Rightarrow> queue_status \<times> mpmc_queue" where
  "mpmc_push_op weak N q payload =
     (case mpmc_try_push weak N q payload of
        Some (r, q') \<Rightarrow> (wr_status r, q') | None \<Rightarrow> (Would_block, q))"

definition mpmc_pop_op ::
    "(nat \<Rightarrow> bool) \<Rightarrow> nat \<Rightarrow> mpmc_queue \<Rightarrow> queue_status \<times> byte list option \<times> mpmc_queue" where
  "mpmc_pop_op weak N q =
     (case mpmc_try_pop weak q (replicate N 0) of
        Some (r, dest, q') \<Rightarrow>
          (rr_status r,
           (if ok (rr_status r) then Some (take (rr_bytes_read r) dest) else None), q')
      | None \<Rightarrow> (Would_block, None, q))"

section \<open>Capacity\<close>

lemma bit_of_leading:
  fixes c :: nat
  assumes "2 ^ k \<le> c" "c < 2 ^ Suc k"
  shows "bit c k"
proof -
  have "c div 2 ^ k = 1"
    using assms by (simp add: div_nat_eqI)
  then show ?thesis by (simp add: bit_iff_odd)
qed

lemma leading_power:
  fixes c :: nat
  assumes "0 < c"
  obtains k where "2 ^ k \<le> c" "c < 2 ^ Suc k"
  using assms ex_power_ivl1 [of 2 c] by auto

lemma power_of_two_nat:
  fixes c :: nat
  assumes "0 < c" "c AND (c - 1) = 0"
  shows "\<exists>k. c = 2 ^ k"
proof -
  obtain k where k: "2 ^ k \<le> c" "c < 2 ^ Suc k" using leading_power [OF assms(1)] .
  have "c = 2 ^ k"
  proof (rule ccontr)
    assume "c \<noteq> 2 ^ k"
    then have "bit (c - 1) k" using k by (intro bit_of_leading) auto
    moreover have "bit c k" using k by (rule bit_of_leading)
    ultimately have "bit (c AND (c - 1)) k" by (simp add: bit_and_iff)
    then show False using assms(2) by simp
  qed
  then show ?thesis by blast
qed

lemma power_of_two_and:
  fixes k :: nat
  shows "(2 ^ k :: nat) AND (2 ^ k - 1) = 0"
proof -
  have "(2 ^ k :: nat) AND mask k = take_bit k (2 ^ k)" by (simp only: take_bit_eq_mask)
  also have "\<dots> = 0" by (simp add: take_bit_eq_mod)
  finally show ?thesis by (simp only: mask_eq_exp_minus_1)
qed

lemma unat_power_two: "k < 64 \<Longrightarrow> unat (2 ^ k :: u64) = 2 ^ k"
  using unat_of_nat_64 [of "2 ^ k"] power_strict_increasing [of k 64 "2 :: nat"] by simp

lemma unat_and_pred: "c \<noteq> 0 \<Longrightarrow> unat (c AND (c - 1) :: u64) = unat c AND (unat c - 1)"
  by (simp add: unsigned_and_eq unat_minus_one)

lemma validate_capacity_iff:
  "mpmc_validate_capacity c = Inr c' \<longleftrightarrow> c' = c \<and> (\<exists>k. 0 < k \<and> k < 64 \<and> c = 2 ^ k)"
proof
  assume "mpmc_validate_capacity c = Inr c'"
  then have c: "\<not> c < 2" "c AND (c - 1) = 0" "c' = c"
    by (auto simp: mpmc_validate_capacity_def split: if_splits)
  have ge: "2 \<le> unat c" using c(1) by (simp add: word_less_nat_alt)
  then have "unat c AND (unat c - 1) = 0" using c(2) unat_and_pred [of c] by fastforce
  then obtain k where k: "unat c = 2 ^ k" using power_of_two_nat [of "unat c"] ge by auto
  have k64: "k < 64"
    using unat_less_2p64 [of c] k power_less_imp_less_exp [of "2 :: nat" k 64] by simp
  have "c = 2 ^ k" using k unat_power_two [OF k64] by (simp add: word_unat_eq_iff)
  moreover have "0 < k" using ge k by (cases k) auto
  ultimately show "c' = c \<and> (\<exists>k. 0 < k \<and> k < 64 \<and> c = 2 ^ k)" using c(3) k64 by blast
next
  assume "c' = c \<and> (\<exists>k. 0 < k \<and> k < 64 \<and> c = 2 ^ k)"
  then obtain k where k: "c' = c" "0 < k" "k < 64" "c = 2 ^ k" by blast
  have u: "unat c = 2 ^ k" using k unat_power_two by simp
  have "unat (c AND (c - 1)) = 0"
    using u unat_and_pred [of c] power_of_two_and [of k] by fastforce
  moreover have "\<not> c < 2"
    using u k(2) power_increasing [of 1 k "2 :: nat"] by (simp add: word_less_nat_alt)
  ultimately show "mpmc_validate_capacity c = Inr c'"
    using k(1) by (simp add: mpmc_validate_capacity_def unat_eq_0)
qed

lemma mpmc_cap_ge_2: "mpmc_shape N q \<Longrightarrow> 2 \<le> mpmc_cap q"
  using power_increasing [of 1 _ "2 :: nat"]
  by (auto simp: mpmc_shape_def mpmc_cap_def unat_power_two)

lemma mask_index:
  assumes "k < 64"
  shows "unat (p AND (2 ^ k - 1) :: u64) = unat p mod 2 ^ k"
proof -
  have "p AND (2 ^ k - 1) = take_bit k p"
    by (simp add: take_bit_eq_mask mask_eq_exp_minus_1)
  then show ?thesis
    using assms unsigned_take_bit_eq [of k p] by (simp add: take_bit_eq_mod)
qed

lemma mpmc_index_mod:
  assumes "mpmc_shape N q"
  shows "mpmc_index q p = unat p mod mpmc_cap q"
  using assms by (auto simp: mpmc_shape_def mpmc_index_def mpmc_cap_def mask_index unat_power_two)

lemma mpmc_index_counters [simp]:
  "mpmc_index (q\<lparr>mq_enqueue_pos := e\<rparr>) p = mpmc_index q p"
  "mpmc_index (q\<lparr>mq_dequeue_pos := e\<rparr>) p = mpmc_index q p"
  by (simp_all add: mpmc_index_def)

lemma mpmc_index_at:
  "mpmc_shape N q \<Longrightarrow> mq_cells q ! mpmc_index q p = mpmc_cell_at q (unat p)"
  by (simp add: mpmc_index_mod mpmc_cell_at_def)

lemma mpmc_index_less: "mpmc_shape N q \<Longrightarrow> mpmc_index q p < length (mq_cells q)"
  using mpmc_cap_ge_2 [of N q] by (simp add: mpmc_index_mod) (simp add: mpmc_shape_def)

section \<open>The claim loops return\<close>

text \<open>
  When the cell is ready the loop claims the position with the first compare-exchange that
  does not fail spuriously; otherwise it returns at once.
\<close>

lemma push_claim_ready:
  assumes "cell_sequence (mq_cells q ! mpmc_index q (mq_enqueue_pos q)) = mq_enqueue_pos q"
    and "k \<le> j" "\<not> weak j"
  shows "mpmc_push_claim weak k q (mq_enqueue_pos q)
    = Some (Some (mq_enqueue_pos q), q\<lparr>mq_enqueue_pos := mq_enqueue_pos q + 1\<rparr>)"
  using assms(2)
proof (induction rule: inc_induct)
  case base
  then show ?case using assms(1,3) by (simp add: mpmc_push_claim.simps Let_def)
next
  case (step n)
  then show ?case using assms(1) by (subst mpmc_push_claim.simps) (simp add: Let_def)
qed

lemma push_claim_full:
  assumes "cell_sequence (mq_cells q ! mpmc_index q (mq_enqueue_pos q)) < mq_enqueue_pos q"
  shows "mpmc_push_claim weak k q (mq_enqueue_pos q) = Some (None, q)"
  using assms by (subst mpmc_push_claim.simps) (auto simp: Let_def)

lemma pop_claim_ready:
  assumes "cell_sequence (mq_cells q ! mpmc_index q (mq_dequeue_pos q)) = mq_dequeue_pos q + 1"
    and "k \<le> j" "\<not> weak j"
  shows "mpmc_pop_claim weak k q (mq_dequeue_pos q)
    = Some (Some (mq_dequeue_pos q), q\<lparr>mq_dequeue_pos := mq_dequeue_pos q + 1\<rparr>)"
  using assms(2)
proof (induction rule: inc_induct)
  case base
  then show ?case using assms(1,3) by (simp add: mpmc_pop_claim.simps Let_def)
next
  case (step n)
  then show ?case using assms(1) by (subst mpmc_pop_claim.simps) (simp add: Let_def)
qed

lemma pop_claim_empty:
  assumes "cell_sequence (mq_cells q ! mpmc_index q (mq_dequeue_pos q)) < mq_dequeue_pos q + 1"
  shows "mpmc_pop_claim weak k q (mq_dequeue_pos q) = Some (None, q)"
  using assms by (subst mpmc_pop_claim.simps) (auto simp: Let_def)

section \<open>Whole operations\<close>

lemma mpmc_cell_update:
  assumes "mpmc_shape N q" "mq_capacity q' = mq_capacity q"
    and "mq_cells q' = (mq_cells q)[p mod mpmc_cap q := c]"
  shows "mpmc_cell_at q' p' = (if p' mod mpmc_cap q = p mod mpmc_cap q then c else mpmc_cell_at q p')"
proof -
  have "p' mod mpmc_cap q < length (mq_cells q)"
    using assms(1) mpmc_cap_ge_2 [OF assms(1)] by (simp add: mpmc_shape_def)
  then show ?thesis using assms(2,3) by (simp add: mpmc_cell_at_def mpmc_cap_def nth_list_update)
qed

lemma mpmc_shape_update:
  assumes "mpmc_shape N q" "fm_wf N (cell_message c)"
    and "mq_capacity q' = mq_capacity q" "mq_mask q' = mq_mask q"
    and "mq_cells q' = (mq_cells q)[i := c]"
  shows "mpmc_shape N q'"
  using assms set_update_subset_insert [of "mq_cells q" i c]
  by (auto simp: mpmc_shape_def mpmc_cap_def)

lemma mpmc_cell_wf:
  assumes "mpmc_shape N q"
  shows "fm_wf N (cell_message (mpmc_cell_at q p))"
proof -
  have "p mod mpmc_cap q < length (mq_cells q)"
    using assms mpmc_cap_ge_2 [OF assms] by (simp add: mpmc_shape_def)
  then show ?thesis using assms by (simp add: mpmc_shape_def mpmc_cell_at_def)
qed

lemma length_mpmc_contents [simp]:
  "length (mpmc_contents q) = unat (mq_enqueue_pos q) - unat (mq_dequeue_pos q)"
  by (simp add: mpmc_contents_def)

lemma mpmc_push_full_result:
  assumes inv: "mpmc_inv N q" and size: "length payload \<le> N"
    and full: "length (mpmc_contents q) = mpmc_cap q"
  shows "mpmc_try_push weak N q payload = Some (write_res Full 0, q)"
proof -
  let ?E = "unat (mq_enqueue_pos q)" and ?D = "unat (mq_dequeue_pos q)" and ?C = "mpmc_cap q"
  have shape: "mpmc_shape N q" using inv by (simp add: mpmc_inv_def)
  have C: "2 \<le> ?C" using mpmc_cap_ge_2 [OF shape] .
  have E: "?E = ?D + ?C" using full C inv by (simp add: mpmc_inv_def)
  have "mpmc_cell_at q ?E = mpmc_cell_at q ?D" by (simp add: E mpmc_cell_at_def)
  moreover have "unat (cell_sequence (mpmc_cell_at q ?D)) = Suc ?D"
    using inv E C by (simp add: mpmc_inv_def)
  ultimately have "cell_sequence (mq_cells q ! mpmc_index q (mq_enqueue_pos q)) < mq_enqueue_pos q"
    using E C by (simp add: mpmc_index_at [OF shape] word_less_nat_alt)
  then show ?thesis using size by (simp add: mpmc_try_push_def push_claim_full)
qed

lemma mpmc_push_success:
  assumes inv: "mpmc_inv N q" and size: "length payload \<le> N" and room: "mpmc_room q (Suc n)"
    and nfull: "length (mpmc_contents q) < mpmc_cap q" and weak: "\<not> weak (j :: nat)"
  obtains q' where "mpmc_try_push weak N q payload =
      Some (write_res Success (mq_enqueue_pos q + 1), q')"
    and "mpmc_inv N q'" "mpmc_contents q' = mpmc_contents q @ [payload]"
    and "mpmc_cap q' = mpmc_cap q" "mpmc_room q' n"
    and "mq_dequeue_pos q' = mq_dequeue_pos q" "mq_enqueue_pos q' = mq_enqueue_pos q + 1"
proof -
  let ?e = "mq_enqueue_pos q"
  let ?E = "unat ?e" and ?D = "unat (mq_dequeue_pos q)" and ?C = "mpmc_cap q"
  have shape: "mpmc_shape N q" using inv by (simp add: mpmc_inv_def)
  have DE: "?D \<le> ?E" "?E < ?D + ?C" using nfull inv by (auto simp: mpmc_inv_def)
  have life: "?E + Suc n + ?C < 2 ^ 64" using room by (simp add: mpmc_room_def)
  have E1: "unat (?e + 1) = Suc ?E" using life by (simp add: unat_Suc_word)
  define i where "i = ?E mod ?C"
  have i: "mpmc_index q ?e = i" using mpmc_index_mod [OF shape] by (simp add: i_def)
  define m where "m = snd (fm_assign N (cell_message (mpmc_cell_at q ?E)) payload (?e + 1))"
  define c where "c = \<lparr>cell_sequence = ?e + 1, cell_message = m\<rparr>"
  define q' where "q' = q\<lparr>mq_enqueue_pos := ?e + 1, mq_cells := (mq_cells q)[i := c]\<rparr>"
  have holds: "fm_holds N payload (?e + 1) m"
    unfolding m_def using mpmc_cell_wf [OF shape] size by (rule fm_assign_holds)
  have "unat (cell_sequence (mpmc_cell_at q ?E)) = ?E" using inv DE by (simp add: mpmc_inv_def)
  then have ready: "cell_sequence (mq_cells q ! mpmc_index q ?e) = ?e"
    by (simp add: mpmc_index_at [OF shape] word_unat_eq_iff)
  have "mpmc_push_claim weak 0 q ?e = Some (Some ?e, q\<lparr>mq_enqueue_pos := ?e + 1\<rparr>)"
    using push_claim_ready [where q = q and weak = weak and k = 0 and j = j] ready weak by simp
  then have res: "mpmc_try_push weak N q payload = Some (write_res Success (?e + 1), q')"
    using size fm_assign_status [OF size, of "cell_message (mpmc_cell_at q ?E)" "?e + 1"] i
      mpmc_index_at [OF shape, of ?e]
    by (simp add: mpmc_try_push_def case_prod_beta Let_def q'_def c_def m_def)
  have cells: "mq_cells q' = (mq_cells q)[?E mod mpmc_cap q := c]" "mq_capacity q' = mq_capacity q"
    "mq_mask q' = mq_mask q"
    by (simp_all add: q'_def i_def)
  have pos: "mq_enqueue_pos q' = ?e + 1" "mq_dequeue_pos q' = mq_dequeue_pos q"
    by (simp_all add: q'_def)
  have cap: "mpmc_cap q' = ?C" by (simp add: mpmc_cap_def cells)
  note at = mpmc_cell_update [OF shape cells(2,1)]
  have other: "mpmc_cell_at q' p = mpmc_cell_at q p" if "p \<noteq> ?E" "p < ?E + ?C" "?E < p + ?C" for p
    using residue_neq [OF that] by (simp add: at)
  have self: "mpmc_cell_at q' ?E = c" by (simp add: at)
  have "mpmc_inv N q'"
    unfolding mpmc_inv_def
  proof (intro conjI allI impI)
    show "mpmc_shape N q'"
      using mpmc_shape_update [OF shape _ cells(2,3,1)] holds by (simp add: c_def fm_holds_def)
    fix p
    assume p: "unat (mq_dequeue_pos q') \<le> p \<and> p < unat (mq_enqueue_pos q')"
    then have p': "?D \<le> p" "p \<le> ?E" using E1 by (simp_all add: q'_def)
    show "unat (cell_sequence (mpmc_cell_at q' p)) = Suc p"
      using p' inv DE other [of p] self E1
      by (cases "p = ?E") (auto simp: c_def mpmc_inv_def)
    show "fm_sequence (cell_message (mpmc_cell_at q' p)) = of_nat (Suc p)"
      using p' inv DE other [of p] self holds
      by (cases "p = ?E") (auto simp: c_def mpmc_inv_def fm_holds_def add.commute)
  next
    fix p
    assume p: "unat (mq_enqueue_pos q') \<le> p \<and> p < unat (mq_dequeue_pos q') + mpmc_cap q'"
    then have "Suc ?E \<le> p" "p < ?D + ?C" using E1 cap by (simp_all add: q'_def)
    then show "unat (cell_sequence (mpmc_cell_at q' p)) = p"
      using inv DE other [of p] by (simp add: mpmc_inv_def)
  qed (use DE life E1 cap in \<open>simp_all add: q'_def\<close>)
  moreover have "mpmc_contents q' = mpmc_contents q @ [payload]"
  proof -
    have "[?D..<Suc ?E] = [?D..<?E] @ [?E]" using DE(1) by simp
    then show ?thesis
      using E1 self holds other DE(2) pos
      by (auto simp: mpmc_contents_def c_def fm_holds_def simp del: upt_Suc)
  qed
  moreover have "mpmc_room q' n" using life E1 cap by (simp add: mpmc_room_def q'_def)
  ultimately show ?thesis using that res cap by (simp add: q'_def)
qed

lemma mpmc_pop_empty_result:
  assumes inv: "mpmc_inv N q" and "mpmc_contents q = []"
  shows "mpmc_try_pop weak q dest = Some (read_res Empty 0 0, dest, q)"
proof -
  let ?D = "unat (mq_dequeue_pos q)" and ?C = "mpmc_cap q"
  have shape: "mpmc_shape N q" using inv by (simp add: mpmc_inv_def)
  have E: "unat (mq_enqueue_pos q) = ?D"
    using assms length_mpmc_contents [of q] by (simp add: mpmc_inv_def)
  have "unat (cell_sequence (mpmc_cell_at q ?D)) = ?D"
    using inv E mpmc_cap_ge_2 [OF shape] by (simp add: mpmc_inv_def)
  moreover have "unat (mq_dequeue_pos q + 1) = Suc ?D"
    using inv E mpmc_cap_ge_2 [OF shape] by (simp add: mpmc_inv_def unat_Suc_word)
  ultimately have
    "cell_sequence (mq_cells q ! mpmc_index q (mq_dequeue_pos q)) < mq_dequeue_pos q + 1"
    by (simp add: mpmc_index_at [OF shape] word_less_nat_alt)
  then show ?thesis by (simp add: mpmc_try_pop_def pop_claim_empty)
qed

text \<open>
  A pop of a nonempty queue always takes the oldest message, also when the destination is too
  small for it: the claim has removed it from the dequeue order before the copy.
\<close>

lemma mpmc_pop_success:
  assumes inv: "mpmc_inv N q" and ne: "mpmc_contents q = x # xs" and weak: "\<not> weak (j :: nat)"
  obtains q' where "mpmc_try_pop weak q dest =
      Some (if length dest < length x then read_res Message_too_large 0 (mq_dequeue_pos q + 1)
            else read_res Success (length x) (mq_dequeue_pos q + 1),
            if length dest < length x then dest else copy_n (length x) x dest, q')"
    and "mpmc_inv N q'" "mpmc_contents q' = xs" "mpmc_cap q' = mpmc_cap q"
    and "mq_enqueue_pos q' = mq_enqueue_pos q" "mq_dequeue_pos q' = mq_dequeue_pos q + 1"
proof -
  let ?d = "mq_dequeue_pos q"
  let ?D = "unat ?d" and ?E = "unat (mq_enqueue_pos q)" and ?C = "mpmc_cap q"
  have shape: "mpmc_shape N q" using inv by (simp add: mpmc_inv_def)
  have DE: "?D < ?E" using ne length_mpmc_contents [of q] by simp
  have life: "?E + ?C < 2 ^ 64" "?E \<le> ?D + ?C" using inv by (simp_all add: mpmc_inv_def)
  have D1: "unat (?d + 1) = Suc ?D" using DE life by (simp add: unat_Suc_word)
  have DC: "unat (?d + mq_capacity q) = ?D + ?C"
    using DE life by (simp add: mpmc_cap_def unat_word_ariths)
  have x: "fm_payload (cell_message (mpmc_cell_at q ?D)) = x"
    and xs: "map (\<lambda>p. fm_payload (cell_message (mpmc_cell_at q p))) [Suc ?D..<?E] = xs"
    using ne DE by (simp_all add: mpmc_contents_def upt_rec [of ?D])
  define c where "c = (mpmc_cell_at q ?D)\<lparr>cell_sequence := ?d + mq_capacity q\<rparr>"
  define i where "i = ?D mod ?C"
  have i: "mpmc_index q ?d = i" using mpmc_index_mod [OF shape] by (simp add: i_def)
  define q' where "q' = q\<lparr>mq_dequeue_pos := ?d + 1, mq_cells := (mq_cells q)[i := c]\<rparr>"
  have seq: "unat (cell_sequence (mpmc_cell_at q ?D)) = Suc ?D"
    "fm_sequence (cell_message (mpmc_cell_at q ?D)) = of_nat (Suc ?D)"
    using inv DE by (simp_all add: mpmc_inv_def)
  have holds: "fm_holds N x (?d + 1) (cell_message (mpmc_cell_at q ?D))"
    using mpmc_cell_wf [OF shape] x seq(2) by (simp add: fm_holds_def add.commute)
  have ready: "cell_sequence (mq_cells q ! mpmc_index q ?d) = ?d + 1"
    using seq(1) D1 by (simp add: mpmc_index_at [OF shape] word_unat_eq_iff)
  have "mpmc_pop_claim weak 0 q ?d = Some (Some ?d, q\<lparr>mq_dequeue_pos := ?d + 1\<rparr>)"
    using pop_claim_ready [where q = q and weak = weak and k = 0 and j = j] ready weak by simp
  then have res: "mpmc_try_pop weak q dest =
      Some (if length dest < length x then read_res Message_too_large 0 (?d + 1)
            else read_res Success (length x) (?d + 1),
            if length dest < length x then dest else copy_n (length x) x dest, q')"
    using fm_copy_to_holds [OF holds, of dest] mpmc_index_at [OF shape, of ?d] i
    by (simp add: mpmc_try_pop_def Let_def q'_def c_def)
  have cells: "mq_cells q' = (mq_cells q)[?D mod mpmc_cap q := c]" "mq_capacity q' = mq_capacity q"
    "mq_mask q' = mq_mask q"
    by (simp_all add: q'_def i_def)
  have pos: "mq_enqueue_pos q' = mq_enqueue_pos q" "mq_dequeue_pos q' = ?d + 1"
    by (simp_all add: q'_def)
  have cap: "mpmc_cap q' = ?C" by (simp add: mpmc_cap_def cells)
  note at = mpmc_cell_update [OF shape cells(2,1)]
  have other: "mpmc_cell_at q' p = mpmc_cell_at q p" if "p \<noteq> ?D" "p < ?D + ?C" "?D < p + ?C" for p
    using residue_neq [OF that] by (simp add: at)
  have "mpmc_inv N q'"
    unfolding mpmc_inv_def
  proof (intro conjI allI impI)
    show "mpmc_shape N q'"
      using mpmc_shape_update [OF shape _ cells(2,3,1)] mpmc_cell_wf [OF shape, of ?D]
      by (simp add: c_def)
    fix p
    assume "unat (mq_dequeue_pos q') \<le> p \<and> p < unat (mq_enqueue_pos q')"
    then have "Suc ?D \<le> p" "p < ?E" using D1 pos by simp_all
    then show "unat (cell_sequence (mpmc_cell_at q' p)) = Suc p"
      "fm_sequence (cell_message (mpmc_cell_at q' p)) = of_nat (Suc p)"
      using other [of p] inv life by (auto simp: mpmc_inv_def)
  next
    fix p
    assume "unat (mq_enqueue_pos q') \<le> p \<and> p < unat (mq_dequeue_pos q') + mpmc_cap q'"
    then have "?E \<le> p" "p \<le> ?D + ?C" using D1 pos cap by simp_all
    then show "unat (cell_sequence (mpmc_cell_at q' p)) = p"
      using other [of p] inv DE DC by (cases "p = ?D + ?C") (auto simp: mpmc_inv_def at c_def)
  qed (use DE life D1 cap pos in simp_all)
  moreover have "mpmc_contents q' = xs"
    using xs other D1 pos life by (auto simp: mpmc_contents_def)
  ultimately show ?thesis using that res cap pos by blast
qed

section \<open>The bounded FIFO contract\<close>

lemma mpmc_make_inv:
  assumes "mpmc_make N capacity = Inr q"
  shows "mpmc_inv N q \<and> mpmc_contents q = [] \<and> mpmc_cap q = unat capacity \<and>
    mq_capacity q = capacity \<and> mq_enqueue_pos q = 0 \<and> mq_dequeue_pos q = 0"
proof -
  have c: "\<exists>k. 0 < k \<and> k < 64 \<and> capacity = 2 ^ k"
    and q: "q = \<lparr>mq_capacity = capacity, mq_mask = capacity - 1,
      mq_cells = map (\<lambda>i. \<lparr>cell_sequence = of_nat i, cell_message = fm_new N\<rparr>)
        [0..<unat capacity], mq_enqueue_pos = 0, mq_dequeue_pos = 0\<rparr>"
    using assms validate_capacity_iff [of capacity capacity]
    by (auto simp: mpmc_make_def mpmc_validate_capacity_def split: if_splits)
  have cap: "mpmc_cap q = unat capacity" by (simp add: q mpmc_cap_def)
  have "mpmc_shape N q" using c by (simp add: mpmc_shape_def cap) (auto simp: q fm_new_wf)
  moreover have "unat (cell_sequence (mpmc_cell_at q p)) = p" if "p < unat capacity" for p
    using that less_trans [OF that unat_less_2p64]
    by (simp add: mpmc_cell_at_def cap) (simp add: q unat_of_nat_64)
  ultimately have "mpmc_inv N q"
    using unat_less_2p64 [of capacity] by (simp add: mpmc_inv_def cap) (simp add: q)
  then show ?thesis using cap by (simp add: mpmc_contents_def) (simp add: q)
qed

lemma mpmc_payload_bound:
  assumes "mpmc_inv N q" "x \<in> set (mpmc_contents q)"
  shows "length x \<le> N"
  using assms mpmc_cell_wf [of N q] by (auto simp: mpmc_contents_def mpmc_inv_def fm_wf_def fm_payload_def)

lemma mpmc_room_pop: "mq_enqueue_pos q' = mq_enqueue_pos q \<Longrightarrow> mpmc_cap q' = mpmc_cap q \<Longrightarrow>
    mpmc_room q' n = mpmc_room q n"
  by (simp add: mpmc_room_def)

lemma mpmc_push_op_success:
  assumes "mpmc_inv N q" "length x \<le> N" "mpmc_room q (Suc n)"
    and "length (mpmc_contents q) < mpmc_cap q"
  shows "fst (mpmc_push_op (\<lambda>k. k < f) N q x) = Success \<and>
    mpmc_inv N (snd (mpmc_push_op (\<lambda>k. k < f) N q x)) \<and>
    mpmc_contents (snd (mpmc_push_op (\<lambda>k. k < f) N q x)) = mpmc_contents q @ [x] \<and>
    mpmc_cap (snd (mpmc_push_op (\<lambda>k. k < f) N q x)) = mpmc_cap q \<and>
    mpmc_room (snd (mpmc_push_op (\<lambda>k. k < f) N q x)) n"
  by (rule mpmc_push_success [OF assms, of "\<lambda>k. k < f" f]) (auto simp: mpmc_push_op_def)

lemma mpmc_pop_op_success:
  assumes "mpmc_inv N q" "mpmc_contents q = x # xs"
  shows "\<exists>q'. mpmc_pop_op (\<lambda>k. k < f) N q = (Success, Some x, q') \<and> mpmc_inv N q' \<and>
    mpmc_contents q' = xs \<and> mpmc_cap q' = mpmc_cap q \<and> (\<forall>n. mpmc_room q n \<longrightarrow> mpmc_room q' n)"
proof -
  have x: "length x \<le> N" using mpmc_payload_bound [OF assms(1)] assms(2) by simp
  show ?thesis
    by (rule mpmc_pop_success [OF assms, of "\<lambda>k. k < f" f "replicate N 0"])
      (use x in \<open>auto simp: mpmc_pop_op_def mpmc_room_def\<close>)
qed

text \<open>
  The contract holds whatever number \<open>f\<close> of spurious compare-exchange failures each call meets.
\<close>

interpretation mpmc_fifo: bounded_fifo "mpmc_inv N" mpmc_contents mpmc_cap mpmc_room
  "\<lambda>x. length x \<le> N" "mpmc_push_op (\<lambda>k. k < f) N" "mpmc_pop_op (\<lambda>k. k < f) N" for N f
proof
  show "length (mpmc_contents q) \<le> mpmc_cap q" if "mpmc_inv N q" for q
    using that by (auto simp: mpmc_inv_def)
  show "mpmc_push_op (\<lambda>k. k < f) N q x = (Full, q)"
    if "mpmc_inv N q" "length x \<le> N" "length (mpmc_contents q) = mpmc_cap q" for q x
    using mpmc_push_full_result [OF that] by (simp add: mpmc_push_op_def)
  show "mpmc_pop_op (\<lambda>k. k < f) N q = (Empty, None, q)"
    if "mpmc_inv N q" "mpmc_contents q = []" for q
    using mpmc_pop_empty_result [OF that] by (simp add: mpmc_pop_op_def)
  show "mpmc_room q n" if "mpmc_room q (Suc n)" for q n
    using that by (simp add: mpmc_room_def)
qed (use mpmc_push_op_success mpmc_pop_op_success in blast)+

section \<open>Properties\<close>

text \<open>
  C17: Any program of pushes and pops on a freshly constructed MPMC queue is exactly-once FIFO
  while the enqueue counter plus the capacity stays below \<open>2 ^ 64\<close>, whatever number of spurious
  compare-exchange failures each call meets.
\<close>

theorem mpmc_exactly_once_fifo:
  assumes "mpmc_make N capacity = Inr q" and "\<forall>p \<in> set (pushes ops). length p \<le> N"
    and "length (pushes ops) + unat capacity < 2 ^ 64"
    and "drive (mpmc_push_op (\<lambda>k. k < f) N) (mpmc_pop_op (\<lambda>k. k < f) N) q ops = (ins, outs, q')"
  shows "ins = outs @ mpmc_contents q' \<and> mpmc_inv N q' \<and>
         length (mpmc_contents q') \<le> unat capacity"
proof -
  note q = mpmc_make_inv [OF assms(1)]
  have room: "mpmc_room q (length (pushes ops))" using assms(3) q by (simp add: mpmc_room_def)
  show ?thesis
    using mpmc_fifo.drive_conserves [OF _ assms(2) room assms(4)] mpmc_fifo.bounded [of N q'] q
    by simp
qed

theorem mpmc_exactly_once_fifo_witness:
  "\<exists>q ins outs q'. mpmc_make 1 2 = Inr q \<and>
     drive (mpmc_push_op (\<lambda>k. k < 1) 1) (mpmc_pop_op (\<lambda>k. k < 1) 1) q
       [Op_push [7], Op_push [8], Op_push [9], Op_pop, Op_push []] = (ins, outs, q') \<and>
     ins = [[7], [8], []] \<and> outs = [[7]] \<and> ins = outs @ mpmc_contents q'"
proof -
  let ?ops = "[Op_push [7], Op_push [8], Op_push [9], Op_pop, Op_push []]"
  let ?run = "\<lambda>q. drive (mpmc_push_op (\<lambda>k. k < 1) 1) (mpmc_pop_op (\<lambda>k. k < 1) 1) q ?ops"
  have "mpmc_validate_capacity 2 = Inr 2" by code_simp
  then obtain q where q: "mpmc_make 1 2 = Inr q" by (simp add: mpmc_make_def)
  obtain ins outs q' where d: "?run q = (ins, outs, q')" by (metis prod_cases3)
  have "fst (?run (projr (mpmc_make 1 2))) = [[7], [8], []] \<and>
    fst (snd (?run (projr (mpmc_make 1 2)))) = [[7]]"
    by code_simp
  then have "ins = [[7], [8], []]" "outs = [[7]]" using q d by simp_all
  moreover have "ins = outs @ mpmc_contents q'"
    using mpmc_exactly_once_fifo [OF q _ _ d] by simp
  ultimately show ?thesis using q d by blast
qed


text \<open>
  A pop whose destination is smaller than the oldest message reports the size error and the
  message's sequence, leaves the destination alone, and still consumes the message: the next
  pop starts with the one behind it.
\<close>

lemma mpmc_short_pop_consumes:
  assumes "mpmc_inv N q" "mpmc_contents q = x # xs" "length dest < length x" "\<not> weak j"
  shows "\<exists>q'. mpmc_try_pop weak q dest =
      Some (read_res Message_too_large 0 (mq_dequeue_pos q + 1), dest, q') \<and>
    mpmc_inv N q' \<and> mpmc_contents q' = xs"
  by (rule mpmc_pop_success [where weak = weak and j = j and dest = dest, OF assms(1,2,4)])
    (use assms(3) in auto)

end
