(* ===== verification/Mpmc_Concurrent.thy ===== *)
theory Mpmc_Concurrent
  imports Mpmc_Queue
begin

text \<open>
  Any number of threads calling \<open>try_push\<close> and \<open>try_pop\<close> of one \<open>MPMCQueue\<close>, interleaved at
  the level of single memory accesses. The two position counters and each cell's \<open>sequence\<close>
  are modification orders, oldest value first. A load returns any value of the modification
  order, however stale; a successful compare-exchange acts on the newest value, and a failing
  one (spuriously or not) returns any value, as the code's retry uses what it returned. This
  allows every outcome the relaxed and acquire loads of the code may have. A cell's message is
  ordinary memory, written and read one access at a time.

  \<open>ms_log\<close> lists the payloads in the order in which their positions were claimed and \<open>ms_out\<close>
  the finished pops with the position each had claimed; no guard reads them.
\<close>

section \<open>Definitions\<close>

datatype mpmc_pc =
    M_idle
  | Push_seq "byte list" u64
  | Push_cas "byte list" u64
  | Push_reload "byte list"
  | Push_write "byte list" u64 "fm_write list"
  | Push_done write_result
  | Pop_seq "byte list" u64
  | Pop_cas "byte list" u64
  | Pop_reload "byte list"
  | Pop_read "byte list" u64 fm_reader
  | Pop_done read_result "byte list"

record mpmc_sys =
  ms_seq :: "u64 list list"
  ms_msg :: "fixed_message list"
  ms_enq :: "u64 list"
  ms_deq :: "u64 list"
  ms_pc :: "nat \<Rightarrow> mpmc_pc"
  ms_log :: "byte list list"
  ms_out :: "(nat \<times> byte list \<times> read_result \<times> byte list) list"

definition mpmc_sys_init :: "nat \<Rightarrow> u64 \<Rightarrow> mpmc_sys \<Rightarrow> bool" where
  "mpmc_sys_init N cap s \<longleftrightarrow> mpmc_validate_capacity cap = Inr cap \<and>
     s = \<lparr>ms_seq = map (\<lambda>i. [of_nat i]) [0..<unat cap],
          ms_msg = replicate (unat cap) (fm_new N), ms_enq = [0], ms_deq = [0],
          ms_pc = (\<lambda>_. M_idle), ms_log = [], ms_out = []\<rparr>"

definition cell_index :: "u64 \<Rightarrow> u64 \<Rightarrow> nat" where
  "cell_index cap position = unat (position AND (cap - 1))"

inductive mpmc_push_step :: "nat \<Rightarrow> u64 \<Rightarrow> nat \<Rightarrow> mpmc_sys \<Rightarrow> mpmc_sys \<Rightarrow> bool" for N cap tid where
  push_reject: "ms_pc s tid = M_idle \<Longrightarrow> length (payload :: byte list) > N \<Longrightarrow>
    mpmc_push_step N cap tid s
      (s\<lparr>ms_pc := (ms_pc s)(tid := Push_done (write_res Message_too_large 0))\<rparr>)"
| push_load: "ms_pc s tid = M_idle \<Longrightarrow> length payload \<le> N \<Longrightarrow> position \<in> set (ms_enq s) \<Longrightarrow>
    mpmc_push_step N cap tid s (s\<lparr>ms_pc := (ms_pc s)(tid := Push_seq payload position)\<rparr>)"
| push_ready: "ms_pc s tid = Push_seq payload position \<Longrightarrow>
    sequence \<in> set (ms_seq s ! cell_index cap position) \<Longrightarrow> sequence = position \<Longrightarrow>
    mpmc_push_step N cap tid s (s\<lparr>ms_pc := (ms_pc s)(tid := Push_cas payload position)\<rparr>)"
| push_full: "ms_pc s tid = Push_seq payload position \<Longrightarrow>
    sequence \<in> set (ms_seq s ! cell_index cap position) \<Longrightarrow> sequence < position \<Longrightarrow>
    mpmc_push_step N cap tid s (s\<lparr>ms_pc := (ms_pc s)(tid := Push_done (write_res Full 0))\<rparr>)"
| push_behind: "ms_pc s tid = Push_seq payload position \<Longrightarrow>
    sequence \<in> set (ms_seq s ! cell_index cap position) \<Longrightarrow> position < sequence \<Longrightarrow>
    mpmc_push_step N cap tid s (s\<lparr>ms_pc := (ms_pc s)(tid := Push_reload payload)\<rparr>)"
| push_reload: "ms_pc s tid = Push_reload payload \<Longrightarrow> position \<in> set (ms_enq s) \<Longrightarrow>
    mpmc_push_step N cap tid s (s\<lparr>ms_pc := (ms_pc s)(tid := Push_seq payload position)\<rparr>)"
| push_claim: "ms_pc s tid = Push_cas payload position \<Longrightarrow> last (ms_enq s) = position \<Longrightarrow>
    mpmc_push_step N cap tid s
      (s\<lparr>ms_enq := ms_enq s @ [position + 1], ms_log := ms_log s @ [payload],
         ms_pc := (ms_pc s)(tid := Push_write payload position (fm_writes payload (position + 1)))\<rparr>)"
| push_retry: "ms_pc s tid = Push_cas payload position \<Longrightarrow> position' \<in> set (ms_enq s) \<Longrightarrow>
    mpmc_push_step N cap tid s (s\<lparr>ms_pc := (ms_pc s)(tid := Push_seq payload position')\<rparr>)"
| push_write: "ms_pc s tid = Push_write payload position (w # ws) \<Longrightarrow>
    i = cell_index cap position \<Longrightarrow>
    mpmc_push_step N cap tid s
      (s\<lparr>ms_msg := (ms_msg s)[i := fm_do w (ms_msg s ! i)],
         ms_pc := (ms_pc s)(tid := Push_write payload position ws)\<rparr>)"
| push_publish: "ms_pc s tid = Push_write payload position [] \<Longrightarrow>
    i = cell_index cap position \<Longrightarrow>
    mpmc_push_step N cap tid s
      (s\<lparr>ms_seq := (ms_seq s)[i := ms_seq s ! i @ [position + 1]],
         ms_pc := (ms_pc s)(tid := Push_done (write_res Success (position + 1)))\<rparr>)"
| push_return: "ms_pc s tid = Push_done r \<Longrightarrow>
    mpmc_push_step N cap tid s (s\<lparr>ms_pc := (ms_pc s)(tid := M_idle)\<rparr>)"

inductive mpmc_pop_step :: "u64 \<Rightarrow> nat \<Rightarrow> mpmc_sys \<Rightarrow> mpmc_sys \<Rightarrow> bool" for cap tid where
  pop_load: "ms_pc s tid = M_idle \<Longrightarrow> position \<in> set (ms_deq s) \<Longrightarrow>
    mpmc_pop_step cap tid s (s\<lparr>ms_pc := (ms_pc s)(tid := Pop_seq dest position)\<rparr>)"
| pop_ready: "ms_pc s tid = Pop_seq dest position \<Longrightarrow>
    sequence \<in> set (ms_seq s ! cell_index cap position) \<Longrightarrow> sequence = position + 1 \<Longrightarrow>
    mpmc_pop_step cap tid s (s\<lparr>ms_pc := (ms_pc s)(tid := Pop_cas dest position)\<rparr>)"
| pop_empty: "ms_pc s tid = Pop_seq dest position \<Longrightarrow>
    sequence \<in> set (ms_seq s ! cell_index cap position) \<Longrightarrow> sequence < position + 1 \<Longrightarrow>
    mpmc_pop_step cap tid s (s\<lparr>ms_pc := (ms_pc s)(tid := Pop_done (read_res Empty 0 0) dest)\<rparr>)"
| pop_behind: "ms_pc s tid = Pop_seq dest position \<Longrightarrow>
    sequence \<in> set (ms_seq s ! cell_index cap position) \<Longrightarrow> position + 1 < sequence \<Longrightarrow>
    mpmc_pop_step cap tid s (s\<lparr>ms_pc := (ms_pc s)(tid := Pop_reload dest)\<rparr>)"
| pop_reload: "ms_pc s tid = Pop_reload dest \<Longrightarrow> position \<in> set (ms_deq s) \<Longrightarrow>
    mpmc_pop_step cap tid s (s\<lparr>ms_pc := (ms_pc s)(tid := Pop_seq dest position)\<rparr>)"
| pop_claim: "ms_pc s tid = Pop_cas dest position \<Longrightarrow> last (ms_deq s) = position \<Longrightarrow>
    mpmc_pop_step cap tid s
      (s\<lparr>ms_deq := ms_deq s @ [position + 1],
         ms_pc := (ms_pc s)(tid := Pop_read dest position (Read_size dest))\<rparr>)"
| pop_retry: "ms_pc s tid = Pop_cas dest position \<Longrightarrow> position' \<in> set (ms_deq s) \<Longrightarrow>
    mpmc_pop_step cap tid s (s\<lparr>ms_pc := (ms_pc s)(tid := Pop_seq dest position')\<rparr>)"
| pop_read: "ms_pc s tid = Pop_read dest position r \<Longrightarrow> (\<And>res d. r \<noteq> Read_done res d) \<Longrightarrow>
    mpmc_pop_step cap tid s
      (s\<lparr>ms_pc := (ms_pc s)(tid :=
         Pop_read dest position (fm_read_step (ms_msg s ! cell_index cap position) r))\<rparr>)"
| pop_release: "ms_pc s tid = Pop_read dest position (Read_done res d) \<Longrightarrow>
    i = cell_index cap position \<Longrightarrow>
    mpmc_pop_step cap tid s
      (s\<lparr>ms_seq := (ms_seq s)[i := ms_seq s ! i @ [position + cap]],
         ms_out := ms_out s @ [(unat position, dest, res, d)],
         ms_pc := (ms_pc s)(tid := Pop_done res d)\<rparr>)"
| pop_return: "ms_pc s tid = Pop_done res d \<Longrightarrow>
    mpmc_pop_step cap tid s (s\<lparr>ms_pc := (ms_pc s)(tid := M_idle)\<rparr>)"

text \<open>How many positions have been claimed on each side.\<close>

definition enqueued :: "mpmc_sys \<Rightarrow> nat" where
  "enqueued s = length (ms_enq s) - 1"

definition dequeued :: "mpmc_sys \<Rightarrow> nat" where
  "dequeued s = length (ms_deq s) - 1"

text \<open>
  Supported lifetime: no position counter and no cell sequence has wrapped.
\<close>

definition mpmc_lifetime :: "u64 \<Rightarrow> mpmc_sys \<Rightarrow> bool" where
  "mpmc_lifetime cap s \<longleftrightarrow> enqueued s + unat cap < 2 ^ 64"

definition mpmc_sys_step :: "nat \<Rightarrow> u64 \<Rightarrow> mpmc_sys \<Rightarrow> mpmc_sys \<Rightarrow> bool" where
  "mpmc_sys_step N cap s t \<longleftrightarrow>
     (\<exists>tid. mpmc_push_step N cap tid s t \<or> mpmc_pop_step cap tid s t) \<and> mpmc_lifetime cap t"

subsection \<open>Invariant\<close>

text \<open>The newest sequence of the cell of position \<open>p\<close>, and who owns which claimed position.\<close>

definition seq_at :: "u64 \<Rightarrow> mpmc_sys \<Rightarrow> nat \<Rightarrow> nat" where
  "seq_at cap s p = unat (last (ms_seq s ! (p mod unat cap)))"

definition msg_at :: "u64 \<Rightarrow> mpmc_sys \<Rightarrow> nat \<Rightarrow> fixed_message" where
  "msg_at cap s p = ms_msg s ! (p mod unat cap)"

fun pushing_pos :: "mpmc_pc \<Rightarrow> nat option" where
  "pushing_pos (Push_write payload position todo) = Some (unat position)"
| "pushing_pos _ = None"

fun popping_pos :: "mpmc_pc \<Rightarrow> nat option" where
  "popping_pos (Pop_read dest position r) = Some (unat position)"
| "popping_pos _ = None"

definition pushing :: "mpmc_sys \<Rightarrow> nat \<Rightarrow> nat \<Rightarrow> bool" where
  "pushing s tid p \<longleftrightarrow> pushing_pos (ms_pc s tid) = Some p"

definition popping :: "mpmc_sys \<Rightarrow> nat \<Rightarrow> nat \<Rightarrow> bool" where
  "popping s tid p \<longleftrightarrow> popping_pos (ms_pc s tid) = Some p"

text \<open>
  Counters count up; a cell of residue \<open>i\<close> is either free for some position \<open>q\<close> (its sequence
  is \<open>q\<close>) or holds the message of \<open>q\<close> (its sequence is \<open>q + 1\<close>), and its sequences only grow.
\<close>

definition mm_counters :: "u64 \<Rightarrow> mpmc_sys \<Rightarrow> bool" where
  "mm_counters cap s \<longleftrightarrow> (\<exists>k. 0 < k \<and> k < 64 \<and> cap = 2 ^ k) \<and> mpmc_lifetime cap s \<and>
     ms_enq s = counter (enqueued s) \<and> ms_deq s = counter (dequeued s) \<and>
     dequeued s \<le> enqueued s \<and> enqueued s \<le> dequeued s + unat cap \<and>
     length (ms_log s) = enqueued s \<and>
     length (ms_seq s) = unat cap \<and> length (ms_msg s) = unat cap"

definition mm_cells :: "nat \<Rightarrow> u64 \<Rightarrow> mpmc_sys \<Rightarrow> bool" where
  "mm_cells N cap s \<longleftrightarrow>
     (\<forall>h \<in> set (ms_seq s). h \<noteq> [] \<and> sorted_wrt (<) h) \<and>
     (\<forall>i < unat cap. \<exists>q. q mod unat cap = i \<and>
        (seq_at cap s i = q \<and> q < dequeued s + unat cap \<or>
         seq_at cap s i = Suc q \<and> q < enqueued s)) \<and>
     (\<forall>m \<in> set (ms_msg s). fm_wf N m) \<and>
     (\<forall>p \<in> set (ms_log s). length p \<le> N) \<and>
     (\<forall>q < enqueued s. seq_at cap s q = Suc q \<longrightarrow>
        fm_holds N (ms_log s ! q) (of_nat (Suc q)) (msg_at cap s q))"

definition mm_owners :: "u64 \<Rightarrow> mpmc_sys \<Rightarrow> bool" where
  "mm_owners cap s \<longleftrightarrow>
     (\<forall>tid p. pushing s tid p \<longrightarrow> p < enqueued s \<and> seq_at cap s p = p) \<and>
     (\<forall>tid p. popping s tid p \<longrightarrow> p < dequeued s \<and> seq_at cap s p = Suc p) \<and>
     (\<forall>t1 t2 p. pushing s t1 p \<and> pushing s t2 p \<longrightarrow> t1 = t2) \<and>
     (\<forall>t1 t2 p. popping s t1 p \<and> popping s t2 p \<longrightarrow> t1 = t2) \<and>
     (\<forall>p < enqueued s. (\<exists>tid. pushing s tid p) \<or> p < seq_at cap s p) \<and>
     (\<forall>p < dequeued s. (\<exists>tid. popping s tid p) \<or> p \<in> fst ` set (ms_out s))"

fun mm_pc :: "nat \<Rightarrow> u64 \<Rightarrow> mpmc_sys \<Rightarrow> mpmc_pc \<Rightarrow> bool" where
  "mm_pc N cap s (Push_seq payload position) \<longleftrightarrow>
     length payload \<le> N \<and> unat position \<le> enqueued s"
| "mm_pc N cap s (Push_cas payload position) \<longleftrightarrow>
     length payload \<le> N \<and> unat position \<le> enqueued s \<and>
     unat position \<le> seq_at cap s (unat position)"
| "mm_pc N cap s (Push_reload payload) \<longleftrightarrow> length payload \<le> N"
| "mm_pc N cap s (Push_write payload position todo) \<longleftrightarrow>
     length payload \<le> N \<and> ms_log s ! unat position = payload \<and>
     set todo \<subseteq> set (fm_writes payload (position + 1)) \<and>
     fm_holds N payload (position + 1) (fold fm_do todo (msg_at cap s (unat position)))"
| "mm_pc N cap s (Pop_seq dest position) \<longleftrightarrow> unat position \<le> dequeued s"
| "mm_pc N cap s (Pop_cas dest position) \<longleftrightarrow>
     unat position \<le> dequeued s \<and> unat position < seq_at cap s (unat position)"
| "mm_pc N cap s (Pop_read dest position r) \<longleftrightarrow>
     fm_reading (ms_log s ! unat position) (position + 1) dest r"
| "mm_pc N cap s pc = True"

text \<open>The finished pops: each took another position, and delivered that position's payload.\<close>

definition delivers :: "byte list \<Rightarrow> nat \<times> byte list \<times> read_result \<times> byte list \<Rightarrow> bool" where
  "delivers payload e = (case e of (p, dest, res, d) \<Rightarrow>
     if length dest < length payload
     then res = read_res Message_too_large 0 (of_nat (Suc p)) \<and> d = dest
     else res = read_res Success (length payload) (of_nat (Suc p)) \<and>
          d = copy_n (length payload) payload dest)"

definition mm_history :: "u64 \<Rightarrow> mpmc_sys \<Rightarrow> bool" where
  "mm_history cap s \<longleftrightarrow> distinct (map fst (ms_out s)) \<and>
     (\<forall>e \<in> set (ms_out s). fst e < dequeued s \<and> fst e + unat cap \<le> seq_at cap s (fst e) \<and>
        delivers (ms_log s ! fst e) e)"

definition ms_inv :: "nat \<Rightarrow> u64 \<Rightarrow> mpmc_sys \<Rightarrow> bool" where
  "ms_inv N cap s \<longleftrightarrow> mm_counters cap s \<and> mm_cells N cap s \<and> mm_owners cap s \<and>
     (\<forall>tid. mm_pc N cap s (ms_pc s tid)) \<and> mm_history cap s"

subsection \<open>What the threads share, as a queue\<close>

text \<open>The claimed and not yet taken payloads; the queue as the sequential model has it.\<close>

definition mpmc_abs :: "mpmc_sys \<Rightarrow> byte list list" where
  "mpmc_abs s = drop (dequeued s) (ms_log s)"

definition ms_queue :: "u64 \<Rightarrow> mpmc_sys \<Rightarrow> mpmc_queue" where
  "ms_queue cap s = \<lparr>mq_capacity = cap, mq_mask = cap - 1,
     mq_cells = map (\<lambda>i. \<lparr>cell_sequence = last (ms_seq s ! i), cell_message = ms_msg s ! i\<rparr>)
       [0..<unat cap],
     mq_enqueue_pos = last (ms_enq s), mq_dequeue_pos = last (ms_deq s)\<rparr>"

text \<open>No call is between its claim and its release.\<close>

definition quiescent :: "mpmc_sys \<Rightarrow> bool" where
  "quiescent s \<longleftrightarrow> (\<forall>tid. pushing_pos (ms_pc s tid) = None \<and> popping_pos (ms_pc s tid) = None)"

fun claimed_pos :: "mpmc_pc \<Rightarrow> nat option" where
  "claimed_pos (Push_write payload position todo) = Some (unat position)"
| "claimed_pos (Pop_read dest position r) = Some (unat position)"
| "claimed_pos _ = None"

text \<open>
  How many own steps a call still needs at most when it runs alone and every load returns the
  newest value.
\<close>

fun push_rank :: "mpmc_sys \<Rightarrow> mpmc_pc \<Rightarrow> nat" where
  "push_rank s (Push_seq payload position) = length payload + (if position = last (ms_enq s) then 6 else 8)"
| "push_rank s (Push_cas payload position) = length payload + (if position = last (ms_enq s) then 5 else 7)"
| "push_rank s (Push_reload payload) = length payload + 7"
| "push_rank s (Push_write payload position todo) = length todo + 1"
| "push_rank s _ = 0"

fun pop_rank :: "nat \<Rightarrow> mpmc_sys \<Rightarrow> mpmc_pc \<Rightarrow> nat" where
  "pop_rank N s (Pop_seq dest position) = N + (if position = last (ms_deq s) then 5 else 7)"
| "pop_rank N s (Pop_cas dest position) = N + (if position = last (ms_deq s) then 4 else 6)"
| "pop_rank N s (Pop_reload dest) = N + 6"
| "pop_rank N s (Pop_read dest position r) = r_rank N r + 1"
| "pop_rank N s _ = 0"

definition in_push :: "mpmc_pc \<Rightarrow> bool" where
  "in_push pc \<longleftrightarrow> (\<exists>x p. pc = Push_seq x p) \<or> (\<exists>x p. pc = Push_cas x p) \<or> (\<exists>x. pc = Push_reload x) \<or>
     (\<exists>x p ws. pc = Push_write x p ws)"

definition in_pop :: "mpmc_pc \<Rightarrow> bool" where
  "in_pop pc \<longleftrightarrow> (\<exists>d p. pc = Pop_seq d p) \<or> (\<exists>d p. pc = Pop_cas d p) \<or> (\<exists>d. pc = Pop_reload d) \<or>
     (\<exists>d p r. pc = Pop_read d p r)"

text \<open>Accesses to a message inside its storage of \<open>N\<close> bytes and inside the destination.\<close>

fun write_fits :: "nat \<Rightarrow> fm_write \<Rightarrow> bool" where
  "write_fits N (Write_byte k b) \<longleftrightarrow> k < N"
| "write_fits N (Write_size n) \<longleftrightarrow> n \<le> N"
| "write_fits N (Write_sequence sq) \<longleftrightarrow> True"

fun read_fits :: "nat \<Rightarrow> fm_reader \<Rightarrow> bool" where
  "read_fits N (Read_bytes dest n k) \<longleftrightarrow> k \<le> n \<and> n \<le> N \<and> n \<le> length dest"
| "read_fits N _ \<longleftrightarrow> True"

section \<open>Helper lemmas\<close>

lemma ms_frames [simp]:
  "enqueued (s\<lparr>ms_pc := f\<rparr>) = enqueued s" "dequeued (s\<lparr>ms_pc := f\<rparr>) = dequeued s"
  "enqueued (s\<lparr>ms_msg := m\<rparr>) = enqueued s" "dequeued (s\<lparr>ms_msg := m\<rparr>) = dequeued s"
  "enqueued (s\<lparr>ms_seq := c\<rparr>) = enqueued s" "dequeued (s\<lparr>ms_seq := c\<rparr>) = dequeued s"
  "enqueued (s\<lparr>ms_log := l\<rparr>) = enqueued s" "dequeued (s\<lparr>ms_log := l\<rparr>) = dequeued s"
  "enqueued (s\<lparr>ms_out := out\<rparr>) = enqueued s" "dequeued (s\<lparr>ms_out := out\<rparr>) = dequeued s"
  "enqueued (s\<lparr>ms_deq := d\<rparr>) = enqueued s" "dequeued (s\<lparr>ms_enq := d\<rparr>) = dequeued s"
  "seq_at cap (s\<lparr>ms_pc := f\<rparr>) p = seq_at cap s p" "seq_at cap (s\<lparr>ms_msg := m\<rparr>) p = seq_at cap s p"
  "seq_at cap (s\<lparr>ms_log := l\<rparr>) p = seq_at cap s p" "seq_at cap (s\<lparr>ms_out := out\<rparr>) p = seq_at cap s p"
  "seq_at cap (s\<lparr>ms_enq := d\<rparr>) p = seq_at cap s p" "seq_at cap (s\<lparr>ms_deq := d\<rparr>) p = seq_at cap s p"
  "msg_at cap (s\<lparr>ms_pc := f\<rparr>) p = msg_at cap s p" "msg_at cap (s\<lparr>ms_seq := c\<rparr>) p = msg_at cap s p"
  "msg_at cap (s\<lparr>ms_log := l\<rparr>) p = msg_at cap s p" "msg_at cap (s\<lparr>ms_out := out\<rparr>) p = msg_at cap s p"
  "msg_at cap (s\<lparr>ms_enq := d\<rparr>) p = msg_at cap s p" "msg_at cap (s\<lparr>ms_deq := d\<rparr>) p = msg_at cap s p"
  by (simp_all add: enqueued_def dequeued_def seq_at_def msg_at_def)

lemma pushing_update [simp]:
  "pushing (s\<lparr>ms_pc := (ms_pc s)(tid := pc)\<rparr>) t p \<longleftrightarrow>
     (if t = tid then pushing_pos pc = Some p else pushing s t p)"
  by (simp add: pushing_def)

lemma popping_update [simp]:
  "popping (s\<lparr>ms_pc := (ms_pc s)(tid := pc)\<rparr>) t p \<longleftrightarrow>
     (if t = tid then popping_pos pc = Some p else popping s t p)"
  by (simp add: popping_def)

lemma seq_at_residue: "p mod unat cap = q mod unat cap \<Longrightarrow> seq_at cap s p = seq_at cap s q"
  by (simp add: seq_at_def)

lemma cell_index_mod:
  assumes "mm_counters cap s"
  shows "cell_index cap position = unat position mod unat cap"
  using assms by (auto simp: mm_counters_def cell_index_def mask_index unat_power_two)

lemma mm_cap_ge_2: "mm_counters cap s \<Longrightarrow> 2 \<le> unat cap"
  using power_increasing [of 1 _ "2 :: nat"] by (auto simp: mm_counters_def unat_power_two)

lemma counter_lengths:
  assumes "mm_counters cap s"
  shows "length (ms_enq s) = Suc (enqueued s)" "length (ms_deq s) = Suc (dequeued s)"
  using assms arg_cong [of "ms_enq s" _ length] arg_cong [of "ms_deq s" _ length]
  unfolding mm_counters_def by (metis length_counter)+

lemma unat_enqueued: "mm_counters cap s \<Longrightarrow> unat (last (ms_enq s)) = enqueued s"
  by (simp add: mm_counters_def mpmc_lifetime_def) (subst unat_of_nat_64, auto)

lemma unat_dequeued: "mm_counters cap s \<Longrightarrow> unat (last (ms_deq s)) = dequeued s"
  by (simp add: mm_counters_def mpmc_lifetime_def) (subst unat_of_nat_64, auto)

lemma loaded_enq:
  assumes "mm_counters cap s" "position \<in> set (ms_enq s)"
  shows "unat position \<le> enqueued s"
proof -
  obtain p where "p \<le> enqueued s" "position = of_nat p"
    using assms by (auto simp: mm_counters_def counter_def in_set_conv_nth less_Suc_eq_le simp del: upt_Suc)
  then show ?thesis using assms(1) by (simp add: mm_counters_def mpmc_lifetime_def unat_of_nat_64)
qed

lemma loaded_deq:
  assumes "mm_counters cap s" "position \<in> set (ms_deq s)"
  shows "unat position \<le> dequeued s"
proof -
  obtain p where "p \<le> dequeued s" "position = of_nat p"
    using assms by (auto simp: mm_counters_def counter_def in_set_conv_nth less_Suc_eq_le simp del: upt_Suc)
  then show ?thesis using assms(1) by (simp add: mm_counters_def mpmc_lifetime_def unat_of_nat_64)
qed

lemma sorted_le_last: "sorted_wrt (<) (h :: u64 list) \<Longrightarrow> v \<in> set h \<Longrightarrow> v \<le> last h"
  by (induction h rule: rev_induct) (auto simp: sorted_wrt_append)

lemma loaded_seq:
  assumes "mm_counters cap s" "mm_cells N cap s" "v \<in> set (ms_seq s ! (p mod unat cap))"
  shows "unat v \<le> seq_at cap s p"
proof -
  have "p mod unat cap < length (ms_seq s)"
    using assms(1) mm_cap_ge_2 [OF assms(1)] by (simp add: mm_counters_def)
  then have "ms_seq s ! (p mod unat cap) \<in> set (ms_seq s)" by simp
  then show ?thesis
    using assms(2,3) sorted_le_last [of "ms_seq s ! (p mod unat cap)" v]
    by (auto simp: mm_cells_def seq_at_def word_le_nat_alt)
qed

lemma seq_at_cases:
  assumes "mm_counters cap s" "mm_cells N cap s"
  obtains q where "q mod unat cap = p mod unat cap"
    "seq_at cap s p = q \<and> q < dequeued s + unat cap \<or> seq_at cap s p = Suc q \<and> q < enqueued s"
proof -
  have "p mod unat cap < unat cap" using mm_cap_ge_2 [OF assms(1)] by simp
  then show ?thesis
    using that assms(2) seq_at_residue [of "p mod unat cap" cap p s] by (auto simp: mm_cells_def)
qed

lemma published_holds:
  "mm_cells N cap s \<Longrightarrow> q < enqueued s \<Longrightarrow> seq_at cap s q = Suc q \<Longrightarrow>
     fm_holds N (ms_log s ! q) (of_nat (Suc q)) (msg_at cap s q)"
  by (simp add: mm_cells_def)

lemma same_or_far:
  fixes p q c :: nat
  assumes "p mod c = q mod c"
  shows "p = q \<or> p + c \<le> q \<or> q + c \<le> p"
  using assms same_residue_gap [of p c q] same_residue_gap [of q c p] by (cases "p < q") auto

lemma succ_residue: "2 \<le> c \<Longrightarrow> Suc q mod c \<noteq> q mod (c :: nat)"
  using residue_neq [of "Suc q" q c] by simp

text \<open>A successful compare-exchange finds its cell free, respectively published.\<close>

lemma push_claimable:
  assumes "mm_counters cap s" "mm_cells N cap s" "enqueued s \<le> seq_at cap s (enqueued s)"
  shows "seq_at cap s (enqueued s) = enqueued s \<and> enqueued s < dequeued s + unat cap"
proof -
  obtain q where q: "q mod unat cap = enqueued s mod unat cap"
    "seq_at cap s (enqueued s) = q \<and> q < dequeued s + unat cap \<or>
     seq_at cap s (enqueued s) = Suc q \<and> q < enqueued s"
    using seq_at_cases [OF assms(1,2)] .
  have "dequeued s \<le> enqueued s" using assms(1) by (simp add: mm_counters_def)
  then show ?thesis
    using same_or_far [OF q(1)] q(2) assms(3) mm_cap_ge_2 [OF assms(1)] by auto
qed

lemma pop_claimable:
  assumes "mm_counters cap s" "mm_cells N cap s" "dequeued s < seq_at cap s (dequeued s)"
  shows "seq_at cap s (dequeued s) = Suc (dequeued s) \<and> dequeued s < enqueued s"
proof -
  obtain q where q: "q mod unat cap = dequeued s mod unat cap"
    "seq_at cap s (dequeued s) = q \<and> q < dequeued s + unat cap \<or>
     seq_at cap s (dequeued s) = Suc q \<and> q < enqueued s"
    using seq_at_cases [OF assms(1,2)] .
  have "enqueued s \<le> dequeued s + unat cap" using assms(1) by (simp add: mm_counters_def)
  then show ?thesis
    using same_or_far [OF q(1)] q(2) assms(3) mm_cap_ge_2 [OF assms(1)] by auto
qed

lemma mm_pc_mono:
  assumes "mm_pc N cap s pc" "enqueued s \<le> enqueued t" "dequeued s \<le> dequeued t"
    and "\<And>p. seq_at cap s p \<le> seq_at cap t p"
    and "\<And>p. pushing_pos pc = Some p \<Longrightarrow> ms_log t ! p = ms_log s ! p \<and> msg_at cap t p = msg_at cap s p"
    and "\<And>p. popping_pos pc = Some p \<Longrightarrow> ms_log t ! p = ms_log s ! p"
  shows "mm_pc N cap t pc"
  using assms by (cases pc) (auto intro: le_trans less_le_trans)

section \<open>Every step keeps the invariant\<close>

lemmas ms_inv_defs = ms_inv_def mm_counters_def mm_cells_def mm_owners_def mm_history_def

lemma ms_invE:
  assumes "ms_inv N cap s"
  shows "mm_counters cap s" "mm_cells N cap s" "mm_owners cap s" "mm_history cap s"
    and "mm_pc N cap s (ms_pc s tid)"
  using assms by (simp_all add: ms_inv_def)

lemma pushing_owner:
  assumes "ms_inv N cap s" "pushing s tid p"
  shows "p < enqueued s" "seq_at cap s p = p"
  using assms by (simp_all add: ms_inv_def mm_owners_def)

lemma popping_owner:
  assumes "ms_inv N cap s" "popping s tid p"
  shows "p < dequeued s" "seq_at cap s p = Suc p"
  using assms by (simp_all add: ms_inv_def mm_owners_def)

lemma push_owned:
  "ms_inv N cap s \<Longrightarrow> p < enqueued s \<Longrightarrow> (\<exists>tid. pushing s tid p) \<or> p < seq_at cap s p"
  by (simp add: ms_inv_def mm_owners_def)

lemma pop_owned:
  "ms_inv N cap s \<Longrightarrow> p < dequeued s \<Longrightarrow> (\<exists>tid. popping s tid p) \<or> p \<in> fst ` set (ms_out s)"
  by (simp add: ms_inv_def mm_owners_def)

lemma mm_ownersI:
  assumes "\<And>tid p. pushing s tid p \<Longrightarrow> p < enqueued s \<and> seq_at cap s p = p"
    and "\<And>tid p. popping s tid p \<Longrightarrow> p < dequeued s \<and> seq_at cap s p = Suc p"
    and "\<And>t1 t2 p. pushing s t1 p \<Longrightarrow> pushing s t2 p \<Longrightarrow> t1 = t2"
    and "\<And>t1 t2 p. popping s t1 p \<Longrightarrow> popping s t2 p \<Longrightarrow> t1 = t2"
    and "\<And>p. p < enqueued s \<Longrightarrow> (\<exists>tid. pushing s tid p) \<or> p < seq_at cap s p"
    and "\<And>p. p < dequeued s \<Longrightarrow> (\<exists>tid. popping s tid p) \<or> p \<in> fst ` set (ms_out s)"
  shows "mm_owners cap s"
  unfolding mm_owners_def using assms by (intro conjI allI impI) (blast | simp)+

text \<open>Two claimed positions in the same cell are the same claim of the same thread.\<close>

lemma pushing_unique:
  assumes "ms_inv N cap s" "pushing s t1 p1" "pushing s t2 p2" "p1 mod unat cap = p2 mod unat cap"
  shows "p1 = p2 \<and> t1 = t2"
proof -
  have "p1 = p2"
    using pushing_owner(2) [OF assms(1,2)] pushing_owner(2) [OF assms(1,3)]
      seq_at_residue [OF assms(4), of s] by linarith
  moreover have "\<forall>t1 t2 p. pushing s t1 p \<and> pushing s t2 p \<longrightarrow> t1 = t2"
    using ms_invE(3) [OF assms(1)] by (simp add: mm_owners_def)
  ultimately show ?thesis using assms(2,3) by blast
qed

lemma popping_unique:
  assumes "ms_inv N cap s" "popping s t1 p1" "popping s t2 p2" "p1 mod unat cap = p2 mod unat cap"
  shows "p1 = p2 \<and> t1 = t2"
proof -
  have "p1 = p2"
    using popping_owner(2) [OF assms(1,2)] popping_owner(2) [OF assms(1,3)]
      seq_at_residue [OF assms(4), of s] by linarith
  moreover have "\<forall>t1 t2 p. popping s t1 p \<and> popping s t2 p \<longrightarrow> t1 = t2"
    using ms_invE(3) [OF assms(1)] by (simp add: mm_owners_def)
  ultimately show ?thesis using assms(2,3) by blast
qed

lemma pushing_popping_disjoint:
  assumes "ms_inv N cap s" "pushing s t1 p1" "popping s t2 p2"
  shows "p1 mod unat cap \<noteq> p2 mod unat cap"
proof
  assume eq: "p1 mod unat cap = p2 mod unat cap"
  have "p1 = Suc p2"
    using pushing_owner(2) [OF assms(1,2)] popping_owner(2) [OF assms(1,3)]
      seq_at_residue [OF eq, of s] by linarith
  then show False
    using eq succ_residue [OF mm_cap_ge_2 [OF ms_invE(1) [OF assms(1)]], of p2] by simp
qed

lemma pc_only_inv:
  assumes inv: "ms_inv N cap s" and new: "mm_pc N cap s pc"
    and own: "pushing_pos pc = pushing_pos (ms_pc s tid)" "popping_pos pc = popping_pos (ms_pc s tid)"
  shows "ms_inv N cap (s\<lparr>ms_pc := (ms_pc s)(tid := pc)\<rparr>)"
proof -
  let ?t = "s\<lparr>ms_pc := (ms_pc s)(tid := pc)\<rparr>"
  have own: "pushing ?t = pushing s" "popping ?t = popping s"
    using own by (simp_all add: fun_eq_iff pushing_def popping_def)
  have "mm_pc N cap s (ms_pc ?t u)" for u
    using new ms_invE(5) [OF inv, of u] by simp
  then have pcs: "mm_pc N cap ?t (ms_pc ?t u)" for u
    by (rule mm_pc_mono [where s = s]) simp_all
  show ?thesis
    unfolding ms_inv_def
  proof (intro conjI allI)
    show "mm_counters cap ?t"
      using ms_invE(1) [OF inv] by (simp add: mm_counters_def mpmc_lifetime_def)
    show "mm_cells N cap ?t" using ms_invE(2) [OF inv] by (simp add: mm_cells_def)
    show "mm_owners cap ?t" using ms_invE(3) [OF inv] own by (simp add: mm_owners_def)
    show "mm_history cap ?t" using ms_invE(4) [OF inv] by (simp add: mm_history_def)
  qed (rule pcs)
qed

lemma push_claim_inv:
  assumes inv: "ms_inv N cap s" and pc: "ms_pc s tid = Push_cas payload position"
    and cas: "last (ms_enq s) = position"
  defines "t \<equiv> s\<lparr>ms_enq := ms_enq s @ [position + 1], ms_log := ms_log s @ [payload],
    ms_pc := (ms_pc s)(tid := Push_write payload position (fm_writes payload (position + 1)))\<rparr>"
  assumes life: "mpmc_lifetime cap t"
  shows "ms_inv N cap t"
proof -
  note cnt = ms_invE(1) [OF inv] and cells = ms_invE(2) [OF inv]
  let ?E = "enqueued s"
  have pos: "position = of_nat ?E" "unat position = ?E"
    using unat_enqueued [OF cnt] cas cnt by (auto simp: mm_counters_def)
  have size: "length payload \<le> N" and le: "?E \<le> seq_at cap s ?E"
    using ms_invE(5) [OF inv, of tid] pc pos by simp_all
  note free = push_claimable [OF cnt cells le]
  have E: "enqueued t = Suc ?E" using counter_lengths [OF cnt] by (simp add: t_def enqueued_def)
  have D: "dequeued t = dequeued s" by (simp add: t_def)
  have seq: "seq_at cap t p = seq_at cap s p" "msg_at cap t p = msg_at cap s p" for p
    by (simp_all add: t_def)
  have log: "ms_log t ! p = ms_log s ! p" if "p < ?E" for p
    using that cnt by (simp add: t_def mm_counters_def nth_append)
  have push: "pushing t u p \<longleftrightarrow> pushing s u p \<or> u = tid \<and> p = ?E" for u p
    using pc pos by (auto simp: t_def pushing_def)
  have pop: "popping t u p \<longleftrightarrow> popping s u p" for u p
    using pc by (auto simp: t_def popping_def)
  have DE: "dequeued s \<le> ?E" using cnt by (simp add: mm_counters_def)
  show ?thesis
    unfolding ms_inv_def
  proof (intro conjI allI)
    show "mm_counters cap t"
      using cnt life E D free counter_Suc [of ?E] pos
      by (simp add: mm_counters_def) (simp add: t_def)
    show "mm_cells N cap t"
    proof -
      have "fm_holds N (ms_log t ! q) (of_nat (Suc q)) (msg_at cap s q)"
        if "q < Suc ?E" "seq_at cap s q = Suc q" for q
        using that log free cells by (cases "q = ?E") (simp_all add: mm_cells_def)
      moreover have "ms_seq t = ms_seq s" "ms_msg t = ms_msg s" "ms_log t = ms_log s @ [payload]"
        by (simp_all add: t_def)
      ultimately show ?thesis
        using cells size unfolding mm_cells_def E D seq
        by (simp add: ball_Un) (meson less_SucI)
    qed
    show "mm_owners cap t"
    proof (rule mm_ownersI)
      show "p < enqueued t \<and> seq_at cap t p = p" if "pushing t u p" for u p
        using that push [of u p] pushing_owner [OF inv, of u p] E seq free by auto
      show "p < dequeued t \<and> seq_at cap t p = Suc p" if "popping t u p" for u p
        using that pop popping_owner [OF inv] D seq by simp
      show "t1 = t2" if "pushing t t1 p" "pushing t t2 p" for t1 t2 p
        using that push pushing_owner(1) [OF inv, of _ p] pushing_unique [OF inv, of t1 p t2 p]
        by auto
      show "t1 = t2" if "popping t t1 p" "popping t t2 p" for t1 t2 p
        using that pop popping_unique [OF inv, of t1 p t2 p] by simp
      show "(\<exists>u. pushing t u p) \<or> p < seq_at cap t p" if "p < enqueued t" for p
        using that push_owned [OF inv, of p] E push seq by (cases "p = ?E") auto
      show "(\<exists>u. popping t u p) \<or> p \<in> fst ` set (ms_out t)" if "p < dequeued t" for p
        using that pop_owned [OF inv, of p] D pop by (simp add: t_def)
    qed
    show "mm_history cap t"
      using ms_invE(4) [OF inv] D seq log DE by (auto simp: mm_history_def t_def)
    show "mm_pc N cap t (ms_pc t u)" for u
    proof (cases "u = tid")
      case True
      have "length (fm_storage (msg_at cap s ?E)) = N"
        using cells cnt mm_cap_ge_2 [OF cnt]
        by (simp add: mm_cells_def msg_at_def mm_counters_def fm_wf_def)
      then have "fm_holds N payload (position + 1)
          (fold fm_do (fm_writes payload (position + 1)) (msg_at cap s ?E))"
        by (rule fm_writes_holds [OF _ size])
      then show ?thesis
        using True size pos cnt by (simp add: seq) (simp add: t_def mm_counters_def nth_append)
    next
      case False
      then have "ms_pc t u = ms_pc s u" by (simp add: t_def)
      then show ?thesis
        using ms_invE(5) [OF inv, of u] E D seq log pushing_owner(1) [OF inv, of u]
          popping_owner(1) [OF inv, of u] DE
        by (auto intro!: mm_pc_mono [where s = s] simp: pushing_def popping_def)
    qed
  qed
qed

lemma pop_claim_inv:
  assumes inv: "ms_inv N cap s" and pc: "ms_pc s tid = Pop_cas dest position"
    and cas: "last (ms_deq s) = position"
  defines "t \<equiv> s\<lparr>ms_deq := ms_deq s @ [position + 1],
    ms_pc := (ms_pc s)(tid := Pop_read dest position (Read_size dest))\<rparr>"
  shows "ms_inv N cap t"
proof -
  note cnt = ms_invE(1) [OF inv] and cells = ms_invE(2) [OF inv]
  let ?D = "dequeued s"
  have pos: "position = of_nat ?D" "unat position = ?D"
    using unat_dequeued [OF cnt] cas cnt by (auto simp: mm_counters_def)
  have le: "?D < seq_at cap s ?D" using ms_invE(5) [OF inv, of tid] pc pos by simp
  note ready = pop_claimable [OF cnt cells le]
  have D: "dequeued t = Suc ?D" using counter_lengths [OF cnt] by (simp add: t_def dequeued_def)
  have E: "enqueued t = enqueued s" by (simp add: t_def)
  have seq: "seq_at cap t p = seq_at cap s p" "msg_at cap t p = msg_at cap s p" for p
    by (simp_all add: t_def)
  have push: "pushing t u p \<longleftrightarrow> pushing s u p" for u p
    using pc by (auto simp: t_def pushing_def)
  have pop: "popping t u p \<longleftrightarrow> popping s u p \<or> u = tid \<and> p = ?D" for u p
    using pc pos by (auto simp: t_def popping_def)
  show ?thesis
    unfolding ms_inv_def
  proof (intro conjI allI)
    show "mm_counters cap t"
      using cnt E D ready counter_Suc [of ?D] pos
      by (simp add: mm_counters_def mpmc_lifetime_def) (simp add: t_def)
    have *: "mm_cells N cap s \<Longrightarrow> mm_cells N cap t"
      unfolding mm_cells_def E D seq by (simp add: t_def) (meson less_SucI)
    show "mm_cells N cap t" using * cells .
    show "mm_owners cap t"
    proof (rule mm_ownersI)
      show "p < enqueued t \<and> seq_at cap t p = p" if "pushing t u p" for u p
        using that push pushing_owner [OF inv, of u p] E seq by simp
      show "p < dequeued t \<and> seq_at cap t p = Suc p" if "popping t u p" for u p
        using that pop [of u p] popping_owner [OF inv, of u p] D seq ready by auto
      show "t1 = t2" if "pushing t t1 p" "pushing t t2 p" for t1 t2 p
        using that push pushing_unique [OF inv, of t1 p t2 p] by simp
      show "t1 = t2" if "popping t t1 p" "popping t t2 p" for t1 t2 p
        using that pop popping_owner(1) [OF inv, of _ p] popping_unique [OF inv, of t1 p t2 p] by auto
      show "(\<exists>u. pushing t u p) \<or> p < seq_at cap t p" if "p < enqueued t" for p
        using that push_owned [OF inv, of p] E push seq by simp
      show "(\<exists>u. popping t u p) \<or> p \<in> fst ` set (ms_out t)" if "p < dequeued t" for p
        using that pop_owned [OF inv, of p] D pop by (cases "p = ?D") (auto simp: t_def)
    qed
    show "mm_history cap t"
      using ms_invE(4) [OF inv] D seq by (auto simp: mm_history_def t_def less_Suc_eq)
    show "mm_pc N cap t (ms_pc t u)" for u
    proof (cases "u = tid")
      case False
      then have "ms_pc t u = ms_pc s u" "ms_log t = ms_log s" by (simp_all add: t_def)
      then show ?thesis
        using ms_invE(5) [OF inv, of u] E D seq by (auto intro!: mm_pc_mono [where s = s])
    qed (simp add: t_def)
  qed
qed

lemma push_write_inv:
  assumes inv: "ms_inv N cap s" and pc: "ms_pc s tid = Push_write payload position (w # ws)"
    and i: "i = cell_index cap position"
  defines "t \<equiv> s\<lparr>ms_msg := (ms_msg s)[i := fm_do w (ms_msg s ! i)],
    ms_pc := (ms_pc s)(tid := Push_write payload position ws)\<rparr>"
  shows "ms_inv N cap t"
proof -
  note cnt = ms_invE(1) [OF inv] and cells = ms_invE(2) [OF inv]
  let ?p = "unat position"
  have i: "i = ?p mod unat cap" using i cell_index_mod [OF cnt] by simp
  have il: "i < length (ms_msg s)"
    using i cnt mm_cap_ge_2 [OF cnt] by (simp add: mm_counters_def)
  have own: "pushing s tid ?p" using pc by (simp add: pushing_def)
  have E: "enqueued t = enqueued s" "dequeued t = dequeued s" by (simp_all add: t_def)
  have seq: "seq_at cap t p = seq_at cap s p" for p by (simp add: t_def)
  have msg: "msg_at cap t p = (if p mod unat cap = i then fm_do w (msg_at cap s p) else msg_at cap s p)" for p
    using il i by (simp add: t_def msg_at_def)
  have push: "pushing t = pushing s" and pop: "popping t = popping s"
    using pc by (auto simp: t_def pushing_def popping_def fun_eq_iff)
  have log: "ms_log t = ms_log s" "ms_out t = ms_out s" "ms_seq t = ms_seq s" by (simp_all add: t_def)
  have wf: "\<forall>m \<in> set (ms_msg t). fm_wf N m"
  proof -
    have old: "\<forall>m \<in> set (ms_msg s). fm_wf N m" using cells by (simp add: mm_cells_def)
    have "w \<in> set (fm_writes payload (position + 1))" "length payload \<le> N"
      using ms_invE(5) [OF inv, of tid] pc by simp_all
    then have "fm_wf N (fm_do w (ms_msg s ! i))" using old il by (intro fm_do_wf) auto
    moreover have "set (ms_msg t) \<subseteq> insert (fm_do w (ms_msg s ! i)) (set (ms_msg s))"
      by (simp add: t_def set_update_subset_insert)
    ultimately show ?thesis using old by blast
  qed
  have holds: "fm_holds N (ms_log s ! q) (of_nat (Suc q)) (msg_at cap t q)"
    if "q < enqueued s" "seq_at cap s q = Suc q" for q
  proof -
    have "q mod unat cap \<noteq> i"
    proof
      assume "q mod unat cap = i"
      then have "Suc q = ?p"
        using seq_at_residue [of q cap ?p s] i pushing_owner(2) [OF inv own] that(2) by linarith
      then show False
        using succ_residue [OF mm_cap_ge_2 [OF cnt], of q] \<open>q mod unat cap = i\<close> i by simp
    qed
    then show ?thesis using msg cells that by (simp add: mm_cells_def)
  qed
  show ?thesis
    unfolding ms_inv_def
  proof (intro conjI allI)
    show "mm_counters cap t" using cnt by (simp add: mm_counters_def mpmc_lifetime_def t_def)
    show "mm_cells N cap t"
      using cells wf holds unfolding mm_cells_def E seq log by blast
    show "mm_owners cap t" using ms_invE(3) [OF inv] by (simp add: mm_owners_def push pop E seq log)
    show "mm_history cap t" using ms_invE(4) [OF inv] by (simp add: mm_history_def E seq log)
    show "mm_pc N cap t (ms_pc t u)" for u
    proof (cases "u = tid")
      case True
      then have "ms_pc t u = Push_write payload position ws" by (simp add: t_def)
      then show ?thesis using ms_invE(5) [OF inv, of tid] pc i by (simp add: msg log)
    next
      case False
      have "msg_at cap t p = msg_at cap s p" if "pushing_pos (ms_pc s u) = Some p" for p
        using that pushing_unique [OF inv own, of u p] False i by (simp add: msg) (auto simp: pushing_def)
      moreover have "ms_pc t u = ms_pc s u" using False by (simp add: t_def)
      ultimately show ?thesis
        using ms_invE(5) [OF inv, of u] E seq log by (auto intro!: mm_pc_mono [where s = s])
    qed
  qed
qed

text \<open>
  Both stores to a cell's sequence are made by the owner of the claimed position \<open>p\<close>; they move
  the cell on to the value \<open>v\<close>.
\<close>

lemma seq_store_cells:
  assumes cnt: "mm_counters cap s" and cells: "mm_cells N cap s" and i: "i = p mod unat cap"
    and v: "seq_at cap s p < unat v"
    and new: "unat v = p + unat cap \<and> p < dequeued s \<or>
      unat v = Suc p \<and> p < enqueued s \<and> fm_holds N (ms_log s ! p) (of_nat (Suc p)) (msg_at cap s p)"
  defines "t \<equiv> s\<lparr>ms_seq := (ms_seq s)[i := ms_seq s ! i @ [v]]\<rparr>"
  shows "mm_cells N cap t \<and> mm_counters cap t \<and>
    (\<forall>q. seq_at cap t q = (if q mod unat cap = i then unat v else seq_at cap s q))"
proof -
  have C: "2 \<le> unat cap" using mm_cap_ge_2 [OF cnt] .
  have len: "length (ms_seq s) = unat cap" using cnt by (simp add: mm_counters_def)
  have seq: "seq_at cap t q = (if q mod unat cap = i then unat v else seq_at cap s q)" for q
    using C len by (simp add: seq_at_def t_def i)
  have E: "enqueued t = enqueued s" "dequeued t = dequeued s" "ms_log t = ms_log s"
    "msg_at cap t = msg_at cap s" "ms_msg t = ms_msg s"
    by (simp_all add: t_def fun_eq_iff)
  have "mm_cells N cap t"
    unfolding mm_cells_def E
  proof (intro conjI allI impI)
    show "\<forall>h \<in> set (ms_seq t). h \<noteq> [] \<and> sorted_wrt (<) h"
    proof -
      have old: "\<forall>h \<in> set (ms_seq s). h \<noteq> [] \<and> sorted_wrt (<) h"
        using cells by (simp add: mm_cells_def)
      have "w < v" if "w \<in> set (ms_seq s ! i)" for w
        using loaded_seq [OF cnt cells, of w p] that i v by (simp add: word_less_nat_alt)
      moreover have "ms_seq s ! i \<in> set (ms_seq s)" using len C i by simp
      ultimately have "sorted_wrt (<) (ms_seq s ! i @ [v])" using old by (simp add: sorted_wrt_append)
      moreover have "set (ms_seq t) \<subseteq> insert (ms_seq s ! i @ [v]) (set (ms_seq s))"
        by (simp add: t_def set_update_subset_insert)
      ultimately show ?thesis using old by blast
    qed
    show "\<exists>q. q mod unat cap = j \<and>
        (seq_at cap t j = q \<and> q < dequeued s + unat cap \<or> seq_at cap t j = Suc q \<and> q < enqueued s)"
      if "j < unat cap" for j
    proof (cases "j = i")
      case True
      then have "seq_at cap t j = unat v" using seq that by simp
      then show ?thesis using new True i by (metis add_less_cancel_right mod_add_self2)
    next
      case False
      then show ?thesis using cells seq that by (simp add: mm_cells_def)
    qed
    show "fm_holds N (ms_log s ! q) (of_nat (Suc q)) (msg_at cap s q)"
      if q: "q < enqueued s" "seq_at cap t q = Suc q" for q
    proof (cases "q mod unat cap = i")
      case True
      then have vq: "unat v = Suc q" using q(2) seq by simp
      have "unat v \<noteq> p + unat cap"
      proof
        assume "unat v = p + unat cap"
        then have "Suc q mod unat cap = q mod unat cap" using vq True i by (metis mod_add_self2)
        then show False using succ_residue [OF C] by blast
      qed
      then show ?thesis using new vq by auto
    next
      case False
      then show ?thesis using cells q seq by (simp add: mm_cells_def)
    qed
  qed (use cells in \<open>simp_all add: mm_cells_def\<close>)
  moreover have "mm_counters cap t" using cnt by (simp add: mm_counters_def mpmc_lifetime_def t_def)
  ultimately show ?thesis using seq by blast
qed

lemma owner_position:
  "pushing s tid p \<Longrightarrow> pushing s tid q \<Longrightarrow> p = q" "popping s tid p \<Longrightarrow> popping s tid q \<Longrightarrow> p = q"
  "pushing s tid p \<Longrightarrow> \<not> popping s tid q"
  by (auto simp: pushing_def popping_def) (cases "ms_pc s tid"; simp)

lemma other_owner_residue:
  assumes "ms_inv N cap s" "pushing s tid p \<or> popping s tid p" "u \<noteq> tid"
    and "pushing s u q \<or> popping s u q"
  shows "q mod unat cap \<noteq> p mod unat cap"
  using assms pushing_unique [OF assms(1), of u q tid p] popping_unique [OF assms(1), of u q tid p]
    pushing_popping_disjoint [OF assms(1), of u q tid p]
    pushing_popping_disjoint [OF assms(1), of tid p u q] by force

lemma seq_store_inv:
  assumes inv: "ms_inv N cap s" and i: "i = p mod unat cap"
    and fin: "pushing_pos pc = None" "popping_pos pc = None" "\<And>s. mm_pc N cap s pc"
    and store:
      "pushing s tid p \<and> unat v = Suc p \<and> out = ms_out s \<and>
         fm_holds N (ms_log s ! p) (of_nat (Suc p)) (msg_at cap s p) \<or>
       popping s tid p \<and> unat v = p + unat cap \<and> out = ms_out s @ [e] \<and> fst e = p \<and>
         delivers (ms_log s ! p) e"
  defines "t \<equiv> s\<lparr>ms_seq := (ms_seq s)[i := ms_seq s ! i @ [v]], ms_out := out,
    ms_pc := (ms_pc s)(tid := pc)\<rparr>"
  shows "ms_inv N cap t"
proof -
  note cnt = ms_invE(1) [OF inv] and cells = ms_invE(2) [OF inv]
  let ?s = "s\<lparr>ms_seq := (ms_seq s)[i := ms_seq s ! i @ [v]]\<rparr>"
  have C: "2 \<le> unat cap" using mm_cap_ge_2 [OF cnt] .
  have own: "pushing s tid p \<or> popping s tid p" using store by blast
  have old: "seq_at cap s p < unat v" "p < unat v"
    using store pushing_owner(2) [OF inv, of tid p] popping_owner(2) [OF inv, of tid p] C by auto
  have sc: "mm_cells N cap ?s \<and> mm_counters cap ?s \<and>
      (\<forall>q. seq_at cap ?s q = (if q mod unat cap = i then unat v else seq_at cap s q))"
    by (rule seq_store_cells [OF cnt cells i old(1)])
      (use store pushing_owner(1) [OF inv, of tid p] popping_owner(1) [OF inv, of tid p] in blast)
  have seq: "seq_at cap t q = (if q mod unat cap = i then unat v else seq_at cap s q)" for q
    using sc by (simp add: t_def)
  have mono: "seq_at cap s q \<le> seq_at cap t q" for q
    using seq old(1) seq_at_residue [of q cap p s] i by simp
  have E: "enqueued t = enqueued s" "dequeued t = dequeued s" "ms_log t = ms_log s"
    "msg_at cap t = msg_at cap s" "ms_out t = out"
    by (simp_all add: t_def fun_eq_iff)
  have push: "pushing t u q \<longleftrightarrow> u \<noteq> tid \<and> pushing s u q" for u q
    using fin by (auto simp: t_def pushing_def)
  have pop: "popping t u q \<longleftrightarrow> u \<noteq> tid \<and> popping s u q" for u q
    using fin by (auto simp: t_def popping_def)
  have other: "seq_at cap t q = seq_at cap s q" if "u \<noteq> tid" "pushing s u q \<or> popping s u q" for u q
    using other_owner_residue [OF inv own that] seq i by simp
  show ?thesis
    unfolding ms_inv_def
  proof (intro conjI allI)
    show "mm_counters cap t"
      using conjunct1 [OF conjunct2 [OF sc]] by (simp add: mm_counters_def mpmc_lifetime_def t_def)
    show "mm_cells N cap t" using conjunct1 [OF sc] by (simp add: mm_cells_def t_def)
    show "mm_owners cap t"
    proof (rule mm_ownersI)
      show "q < enqueued t \<and> seq_at cap t q = q" if "pushing t u q" for u q
        using that push pushing_owner [OF inv, of u q] other [of u q] E by simp
      show "q < dequeued t \<and> seq_at cap t q = Suc q" if "popping t u q" for u q
        using that pop popping_owner [OF inv, of u q] other [of u q] E by simp
      show "t1 = t2" if "pushing t t1 q" "pushing t t2 q" for t1 t2 q
        using that push pushing_unique [OF inv, of t1 q t2 q] by simp
      show "t1 = t2" if "popping t t1 q" "popping t t2 q" for t1 t2 q
        using that pop popping_unique [OF inv, of t1 q t2 q] by simp
      show "(\<exists>u. pushing t u q) \<or> q < seq_at cap t q" if q: "q < enqueued t" for q
      proof (cases "pushing s tid q")
        case True
        then have "q = p" using own owner_position by blast
        then show ?thesis using seq i old(2) by simp
      next
        case False
        then show ?thesis
          using push_owned [OF inv, of q] q E push mono [of q] by (metis less_le_trans)
      qed
      show "(\<exists>u. popping t u q) \<or> q \<in> fst ` set (ms_out t)" if q: "q < dequeued t" for q
      proof (cases "popping s tid q")
        case True
        then have "q = p" "\<not> pushing s tid p" using own owner_position by blast+
        then show ?thesis using store E by auto
      next
        case False
        then have "(\<exists>u. popping t u q) \<or> q \<in> fst ` set (ms_out s)"
          using pop_owned [OF inv, of q] q E pop by metis
        then show ?thesis using store E by auto
      qed
    qed
    show "mm_history cap t"
    proof -
      have hist: "distinct (map fst (ms_out s))" "\<forall>e \<in> set (ms_out s). fst e < dequeued s \<and>
          fst e + unat cap \<le> seq_at cap s (fst e) \<and> delivers (ms_log s ! fst e) e"
        using ms_invE(4) [OF inv] by (simp_all add: mm_history_def)
      then have "\<forall>e \<in> set (ms_out s). fst e < dequeued s \<and>
          fst e + unat cap \<le> seq_at cap t (fst e) \<and> delivers (ms_log s ! fst e) e"
        using mono le_trans by blast
      moreover have "p \<notin> fst ` set (ms_out s)" if "popping s tid p"
        using hist(2) popping_owner(2) [OF inv that] C by fastforce
      moreover have "p < dequeued s" if "popping s tid p" using popping_owner(1) [OF inv that] .
      ultimately show ?thesis
        using store hist(1) seq i unfolding mm_history_def E by (elim disjE) auto
    qed
    show "mm_pc N cap t (ms_pc t u)" for u
    proof (cases "u = tid")
      case True
      then show ?thesis using fin(3) by (simp add: t_def)
    next
      case False
      then have "ms_pc t u = ms_pc s u" by (simp add: t_def)
      then show ?thesis
        using ms_invE(5) [OF inv, of u] E mono by (auto intro!: mm_pc_mono [where s = s])
    qed
  qed
qed

lemma ms_inv_push:
  assumes step: "mpmc_push_step N cap tid s t" and inv: "ms_inv N cap s" and life: "mpmc_lifetime cap t"
  shows "ms_inv N cap t"
  using step
proof cases
  case (push_load payload position)
  then show ?thesis
    using loaded_enq [OF ms_invE(1) [OF inv]] by (auto intro!: pc_only_inv [OF inv])
next
  case (push_ready payload position sequence)
  have "unat position \<le> seq_at cap s (unat position)"
    using loaded_seq [OF ms_invE(1,2) [OF inv]] push_ready cell_index_mod [OF ms_invE(1) [OF inv]]
    by simp
  then show ?thesis
    using push_ready ms_invE(5) [OF inv, of tid] by (auto intro!: pc_only_inv [OF inv])
next
  case (push_behind payload position sequence)
  then show ?thesis using ms_invE(5) [OF inv, of tid] by (auto intro!: pc_only_inv [OF inv])
next
  case (push_reload payload position)
  then show ?thesis
    using loaded_enq [OF ms_invE(1) [OF inv]] ms_invE(5) [OF inv, of tid]
    by (auto intro!: pc_only_inv [OF inv])
next
  case (push_claim payload position)
  then show ?thesis using push_claim_inv [OF inv] life by blast
next
  case (push_retry payload position position')
  then show ?thesis
    using loaded_enq [OF ms_invE(1) [OF inv]] ms_invE(5) [OF inv, of tid]
    by (auto intro!: pc_only_inv [OF inv])
next
  case (push_write payload position w ws i)
  then show ?thesis using push_write_inv [OF inv] by blast
next
  case (push_publish payload position i)
  have own: "pushing s tid (unat position)" using push_publish by (simp add: pushing_def)
  have "unat (position + 1) = Suc (unat position)"
    using pushing_owner(1) [OF inv own] ms_invE(1) [OF inv]
    by (simp add: mm_counters_def mpmc_lifetime_def unat_Suc_word)
  moreover have "fm_holds N (ms_log s ! unat position) (of_nat (Suc (unat position)))
      (msg_at cap s (unat position))"
    using ms_invE(5) [OF inv, of tid] push_publish by (simp add: add.commute)
  moreover have "i = unat position mod unat cap"
    using push_publish cell_index_mod [OF ms_invE(1) [OF inv]] by simp
  ultimately show ?thesis
    using seq_store_inv [OF inv, of i "unat position" "Push_done (write_res Success (position + 1))"
        tid "position + 1" "ms_out s"] own push_publish(1) by simp
qed (auto intro!: pc_only_inv [OF inv])

lemma ms_inv_pop:
  assumes step: "mpmc_pop_step cap tid s t" and inv: "ms_inv N cap s"
  shows "ms_inv N cap t"
  using step
proof cases
  case (pop_load position dest)
  then show ?thesis
    using loaded_deq [OF ms_invE(1) [OF inv]] by (auto intro!: pc_only_inv [OF inv])
next
  case (pop_ready dest position sequence)
  note cnt = ms_invE(1) [OF inv]
  have le: "unat position \<le> dequeued s" using ms_invE(5) [OF inv, of tid] pop_ready by simp
  have "unat (position + 1) = Suc (unat position)"
    using le cnt mm_cap_ge_2 [OF cnt] unat_Suc_word [of position]
    by (simp add: mm_counters_def mpmc_lifetime_def)
  then have "unat position < seq_at cap s (unat position)"
    using loaded_seq [OF ms_invE(1,2) [OF inv], of sequence "unat position"] pop_ready
      cell_index_mod [OF cnt] by simp
  then show ?thesis using pop_ready le by (auto intro!: pc_only_inv [OF inv])
next
  case (pop_reload dest position)
  then show ?thesis
    using loaded_deq [OF ms_invE(1) [OF inv]] by (auto intro!: pc_only_inv [OF inv])
next
  case (pop_claim dest position)
  then show ?thesis using pop_claim_inv [OF inv] by blast
next
  case (pop_retry dest position position')
  then show ?thesis
    using loaded_deq [OF ms_invE(1) [OF inv]] by (auto intro!: pc_only_inv [OF inv])
next
  case (pop_read dest position r)
  note cnt = ms_invE(1) [OF inv]
  have own: "popping s tid (unat position)" using pop_read by (simp add: popping_def)
  have less: "unat position < enqueued s"
    using popping_owner(1) [OF inv own] cnt by (simp add: mm_counters_def)
  have "fm_holds N (ms_log s ! unat position) (position + 1) (msg_at cap s (unat position))"
    using published_holds [OF ms_invE(2) [OF inv] less popping_owner(2) [OF inv own]]
    by (simp add: add.commute)
  then have "fm_reading (ms_log s ! unat position) (position + 1) dest
      (fm_read_step (ms_msg s ! cell_index cap position) r)"
    using fm_reading_step ms_invE(5) [OF inv, of tid] pop_read cell_index_mod [OF cnt]
    by (simp add: msg_at_def)
  then show ?thesis using pop_read by (auto intro!: pc_only_inv [OF inv])
next
  case (pop_release dest position res d i)
  note cnt = ms_invE(1) [OF inv]
  have own: "popping s tid (unat position)" using pop_release by (simp add: popping_def)
  have "unat (position + cap) = unat position + unat cap"
    using popping_owner(1) [OF inv own] cnt
    by (simp add: mm_counters_def mpmc_lifetime_def unat_word_ariths)
  moreover have "delivers (ms_log s ! unat position) (unat position, dest, res, d)"
    using ms_invE(5) [OF inv, of tid] pop_release by (simp add: delivers_def add.commute)
  moreover have "i = unat position mod unat cap"
    using pop_release cell_index_mod [OF cnt] by simp
  ultimately show ?thesis
    using seq_store_inv [OF inv, of i "unat position" "Pop_done res d" tid "position + cap"
        "ms_out s @ [(unat position, dest, res, d)]" "(unat position, dest, res, d)"]
      own pop_release(1) by simp
qed (auto intro!: pc_only_inv [OF inv])

lemma ms_inv_init:
  assumes "mpmc_sys_init N cap s"
  shows "ms_inv N cap s"
proof -
  have cap: "\<exists>k. 0 < k \<and> k < 64 \<and> cap = 2 ^ k"
    using assms validate_capacity_iff by (auto simp: mpmc_sys_init_def)
  have s: "s = \<lparr>ms_seq = map (\<lambda>i. [of_nat i]) [0..<unat cap],
          ms_msg = replicate (unat cap) (fm_new N), ms_enq = [0], ms_deq = [0],
          ms_pc = (\<lambda>_. M_idle), ms_log = [], ms_out = []\<rparr>"
    using assms by (simp add: mpmc_sys_init_def)
  have seq: "seq_at cap s i = i" if "i < unat cap" for i
    using that less_trans [OF that unat_less_2p64] by (simp add: seq_at_def s unat_of_nat_64)
  have E: "enqueued s = 0" "dequeued s = 0" by (simp_all add: s enqueued_def dequeued_def)
  have "mm_counters cap s"
    using cap unat_less_2p64 [of cap] E by (simp add: mm_counters_def mpmc_lifetime_def) (simp add: s)
  moreover have "mm_cells N cap s"
    using seq E by (auto simp: mm_cells_def) (auto simp: s)
  moreover have "mm_owners cap s"
    using E by (simp add: mm_owners_def pushing_def popping_def s)
  ultimately show ?thesis by (simp add: ms_inv_def mm_history_def s)
qed

interpretation mpmc_sys: invariant_system "mpmc_sys_init N cap" "mpmc_sys_step N cap" "ms_inv N cap"
  for N cap
  by unfold_locales (auto simp: mpmc_sys_step_def intro: ms_inv_init ms_inv_push ms_inv_pop)

section \<open>Quiescent states\<close>

lemma quiescent_owners: "quiescent s \<Longrightarrow> \<not> pushing s tid p \<and> \<not> popping s tid p"
  by (simp add: quiescent_def pushing_def popping_def)

lemma quiescent_published:
  assumes inv: "ms_inv N cap s" and q: "quiescent s" and p: "dequeued s \<le> p" "p < enqueued s"
  shows "seq_at cap s p = Suc p"
proof -
  note cnt = ms_invE(1) [OF inv]
  have less: "p < seq_at cap s p" using push_owned [OF inv p(2)] quiescent_owners [OF q] by blast
  obtain r where r: "r mod unat cap = p mod unat cap"
    "seq_at cap s p = r \<and> r < dequeued s + unat cap \<or> seq_at cap s p = Suc r \<and> r < enqueued s"
    using seq_at_cases [OF cnt ms_invE(2) [OF inv]] .
  have "enqueued s \<le> dequeued s + unat cap" using cnt by (simp add: mm_counters_def)
  then show ?thesis using same_or_far [OF r(1)] r(2) less p by auto
qed

lemma quiescent_free:
  assumes inv: "ms_inv N cap s" and q: "quiescent s"
    and p: "enqueued s \<le> p" "p < dequeued s + unat cap"
  shows "seq_at cap s p = p"
proof -
  note cnt = ms_invE(1) [OF inv]
  have DE: "dequeued s \<le> enqueued s" using cnt by (simp add: mm_counters_def)
  obtain r where r: "r mod unat cap = p mod unat cap"
    "seq_at cap s p = r \<and> r < dequeued s + unat cap \<or> seq_at cap s p = Suc r \<and> r < enqueued s"
    using seq_at_cases [OF cnt ms_invE(2) [OF inv]] .
  have eq: "seq_at cap s p = seq_at cap s r" using seq_at_residue [OF r(1)] by simp
  have free: "seq_at cap s r \<noteq> r" if "r < enqueued s"
    using push_owned [OF inv that] quiescent_owners [OF q] by fastforce
  have held: "seq_at cap s r \<noteq> Suc r" if less: "r < dequeued s"
  proof -
    have "r \<in> fst ` set (ms_out s)" using pop_owned [OF inv less] quiescent_owners [OF q] by blast
    then have "r + unat cap \<le> seq_at cap s r"
      using ms_invE(4) [OF inv] by (auto simp: mm_history_def)
    then show ?thesis using mm_cap_ge_2 [OF cnt] by simp
  qed
  consider "r = p" | "r + unat cap \<le> p" | "p + unat cap \<le> r" using same_or_far [OF r(1)] by blast
  then show ?thesis
  proof cases
    case 1
    then show ?thesis using r(2) p by auto
  next
    case 2
    then have "r < dequeued s" "r < enqueued s" using p DE by auto
    then show ?thesis using r(2) eq free held by simp
  next
    case 3
    then show ?thesis using r(2) p DE by auto
  qed
qed

lemma quiescent_queue:
  assumes inv: "ms_inv N cap s" and q: "quiescent s"
  shows "mpmc_inv N (ms_queue cap s) \<and> mpmc_contents (ms_queue cap s) = mpmc_abs s"
proof -
  note cnt = ms_invE(1) [OF inv] and cells = ms_invE(2) [OF inv]
  let ?q = "ms_queue cap s"
  have C: "2 \<le> unat cap" using mm_cap_ge_2 [OF cnt] .
  have cap: "mpmc_cap ?q = unat cap" by (simp add: mpmc_cap_def ms_queue_def)
  have pos: "unat (mq_enqueue_pos ?q) = enqueued s" "unat (mq_dequeue_pos ?q) = dequeued s"
    using unat_enqueued [OF cnt] unat_dequeued [OF cnt] by (simp_all add: ms_queue_def)
  have at: "unat (cell_sequence (mpmc_cell_at ?q p)) = seq_at cap s p"
    "cell_message (mpmc_cell_at ?q p) = msg_at cap s p" for p
    using C by (simp_all add: mpmc_cell_at_def cap) (simp_all add: ms_queue_def seq_at_def msg_at_def)
  have holds: "fm_holds N (ms_log s ! p) (of_nat (Suc p)) (msg_at cap s p)"
    if "dequeued s \<le> p" "p < enqueued s" for p
    using published_holds [OF cells that(2) quiescent_published [OF inv q that]] .
  have "mpmc_shape N ?q"
    using cnt cells by (simp add: mpmc_shape_def cap mm_counters_def mm_cells_def)
      (auto simp: ms_queue_def)
  then have "mpmc_inv N ?q"
    unfolding mpmc_inv_def pos at cap
    using cnt quiescent_published [OF inv q] quiescent_free [OF inv q] holds
    by (simp add: mm_counters_def mpmc_lifetime_def fm_holds_def)
  moreover have "mpmc_contents ?q = mpmc_abs s"
    unfolding mpmc_contents_def mpmc_abs_def pos at
    using holds cnt by (intro nth_equalityI) (simp_all add: mm_counters_def fm_holds_def)
  ultimately show ?thesis by blast
qed

section \<open>Undisturbed calls are the whole operations\<close>

lemma pc_self: "ms_pc s tid = pc \<Longrightarrow> s\<lparr>ms_pc := (ms_pc s)(tid := pc)\<rparr> = s"
  by (cases s) auto

lemma push_write_run:
  assumes "ms_pc s tid = Push_write payload position ws" "i = cell_index cap position"
    and "i < length (ms_msg s)"
  shows "(mpmc_push_step N cap tid)\<^sup>*\<^sup>* s
    (s\<lparr>ms_msg := (ms_msg s)[i := fold fm_do ws (ms_msg s ! i)],
       ms_pc := (ms_pc s)(tid := Push_write payload position [])\<rparr>)"
  using assms
proof (induction ws arbitrary: s)
  case Nil
  then have "s\<lparr>ms_msg := (ms_msg s)[i := fold fm_do [] (ms_msg s ! i)],
      ms_pc := (ms_pc s)(tid := Push_write payload position [])\<rparr> = s"
    using pc_self [of s tid "Push_write payload position []"] by simp
  then show ?case by (simp only: rtranclp.rtrancl_refl)
next
  case (Cons w ws)
  let ?s' = "s\<lparr>ms_msg := (ms_msg s)[i := fm_do w (ms_msg s ! i)],
               ms_pc := (ms_pc s)(tid := Push_write payload position ws)\<rparr>"
  have "mpmc_push_step N cap tid s ?s'" using Cons.prems mpmc_push_step.push_write by blast
  moreover have "(mpmc_push_step N cap tid)\<^sup>*\<^sup>* ?s'
      (?s'\<lparr>ms_msg := (ms_msg ?s')[i := fold fm_do ws (ms_msg ?s' ! i)],
           ms_pc := (ms_pc ?s')(tid := Push_write payload position [])\<rparr>)"
    using Cons.IH [of ?s'] Cons.prems by (simp add: fun_upd_same del: fun_upd_apply)
  ultimately show ?case
    using Cons.prems by (simp add: converse_rtranclp_into_rtranclp del: fun_upd_apply)
qed

lemma pop_read_run:
  assumes "ms_pc s tid = Pop_read dest position r" "m = ms_msg s ! cell_index cap position"
  shows "(mpmc_pop_step cap tid)\<^sup>*\<^sup>* s
    (s\<lparr>ms_pc := (ms_pc s)(tid := Pop_read dest position ((fm_read_step m ^^ n) r))\<rparr>)"
proof (induction n)
  case 0
  have "s\<lparr>ms_pc := (ms_pc s)(tid := Pop_read dest position ((fm_read_step m ^^ 0) r))\<rparr> = s"
    using pc_self [OF assms(1)] by simp
  then show ?case by (simp only: rtranclp.rtrancl_refl)
next
  case (Suc n)
  let ?r = "(fm_read_step m ^^ n) r"
  let ?s = "s\<lparr>ms_pc := (ms_pc s)(tid := Pop_read dest position ?r)\<rparr>"
  show ?case
  proof (cases "\<exists>res d. ?r = Read_done res d")
    case True
    then show ?thesis using Suc.IH by (auto simp del: fun_upd_apply)
  next
    case False
    then have "mpmc_pop_step cap tid ?s (?s\<lparr>ms_pc := (ms_pc ?s)(tid :=
        Pop_read dest position (fm_read_step (ms_msg ?s ! cell_index cap position) ?r))\<rparr>)"
      by (intro mpmc_pop_step.pop_read) auto
    then show ?thesis
      using Suc.IH assms(2) by (simp add: rtranclp.rtrancl_into_rtrancl del: fun_upd_apply)
  qed
qed

lemma mm_last_mem:
  assumes "mm_counters cap s" "mm_cells N cap s"
  shows "last (ms_enq s) \<in> set (ms_enq s)" "last (ms_deq s) \<in> set (ms_deq s)"
    and "last (ms_seq s ! (p mod unat cap)) \<in> set (ms_seq s ! (p mod unat cap))"
proof -
  have "p mod unat cap < length (ms_seq s)"
    using assms(1) mm_cap_ge_2 [OF assms(1)] by (simp add: mm_counters_def)
  then have "ms_seq s ! (p mod unat cap) \<in> set (ms_seq s)" by simp
  then show "last (ms_seq s ! (p mod unat cap)) \<in> set (ms_seq s ! (p mod unat cap))"
    using assms(2) by (simp add: mm_cells_def)
qed (use counter_lengths [OF assms(1)] in \<open>auto intro!: last_in_set\<close>)

text \<open>A call that runs alone finishes: it has a step that brings it closer to its end.\<close>

lemma push_helpful:
  assumes inv: "ms_inv N cap s" and pc: "in_push (ms_pc s tid)"
  shows "\<exists>t. mpmc_push_step N cap tid s t \<and> push_rank t (ms_pc t tid) < push_rank s (ms_pc s tid) \<and>
    (in_push (ms_pc t tid) \<or> (\<exists>r. ms_pc t tid = Push_done r))"
proof -
  note cnt = ms_invE(1) [OF inv] and cells = ms_invE(2) [OF inv]
  note mem = mm_last_mem [OF cnt cells]
  have go: ?thesis if "mpmc_push_step N cap tid s t" "push_rank t (ms_pc t tid) < push_rank s (ms_pc s tid)"
    "in_push (ms_pc t tid) \<or> (\<exists>r. ms_pc t tid = Push_done r)" for t
    using that by blast
  consider x p where "ms_pc s tid = Push_seq x p" | x p where "ms_pc s tid = Push_cas x p"
    | x where "ms_pc s tid = Push_reload x" | x p where "ms_pc s tid = Push_write x p []"
    | x p w ws where "ms_pc s tid = Push_write x p (w # ws)"
    using pc unfolding in_push_def by (metis list.exhaust)
  then show ?thesis
  proof cases
    case (1 x p)
    let ?v = "last (ms_seq s ! cell_index cap p)"
    have v: "?v \<in> set (ms_seq s ! cell_index cap p)" using mem(3) cell_index_mod [OF cnt] by simp
    consider "?v < p" | "?v = p" | "p < ?v" by fastforce
    then show ?thesis
    proof cases
      case less: 1
      show ?thesis by (rule go [OF mpmc_push_step.push_full [OF 1 v less]]) (simp_all add: 1)
    next
      case eq: 2
      show ?thesis by (rule go [OF mpmc_push_step.push_ready [OF 1 v eq]]) (simp_all add: 1 in_push_def)
    next
      case more: 3
      have "p \<noteq> last (ms_enq s)"
      proof
        assume p: "p = last (ms_enq s)"
        then have "enqueued s < seq_at cap s (enqueued s)"
          using more unat_enqueued [OF cnt] cell_index_mod [OF cnt, of p] by (simp add: seq_at_def word_less_nat_alt)
        then show False using push_claimable [OF cnt cells] by simp
      qed
      then show ?thesis
        by (intro go [OF mpmc_push_step.push_behind [OF 1 v more]]) (simp_all add: 1 in_push_def)
    qed
  next
    case (2 x p)
    show ?thesis
    proof (cases "last (ms_enq s) = p")
      case True
      show ?thesis by (rule go [OF mpmc_push_step.push_claim [OF 2 True]]) (simp_all add: 2 True in_push_def fm_writes_def)
    next
      case False
      then show ?thesis
        by (intro go [OF mpmc_push_step.push_retry [OF 2 mem(1)]]) (auto simp add: 2 in_push_def)
    qed
  next
    case (3 x)
    show ?thesis by (rule go [OF mpmc_push_step.push_reload [OF 3 mem(1)]]) (simp_all add: 3 in_push_def)
  next
    case (4 x p)
    show ?thesis by (rule go [OF mpmc_push_step.push_publish [OF 4 refl]]) (simp_all add: 4)
  next
    case (5 x p w ws)
    show ?thesis by (rule go [OF mpmc_push_step.push_write [OF 5 refl]]) (simp_all add: 5 in_push_def)
  qed
qed

lemma pop_helpful:
  assumes inv: "ms_inv N cap s" and pc: "in_pop (ms_pc s tid)"
  shows "\<exists>t. mpmc_pop_step cap tid s t \<and> pop_rank N t (ms_pc t tid) < pop_rank N s (ms_pc s tid) \<and>
    (in_pop (ms_pc t tid) \<or> (\<exists>r d. ms_pc t tid = Pop_done r d))"
proof -
  note cnt = ms_invE(1) [OF inv] and cells = ms_invE(2) [OF inv]
  note mem = mm_last_mem [OF cnt cells]
  have go: ?thesis if "mpmc_pop_step cap tid s t" "pop_rank N t (ms_pc t tid) < pop_rank N s (ms_pc s tid)"
    "in_pop (ms_pc t tid) \<or> (\<exists>r d. ms_pc t tid = Pop_done r d)" for t
    using that by blast
  consider d p where "ms_pc s tid = Pop_seq d p" | d p where "ms_pc s tid = Pop_cas d p"
    | d where "ms_pc s tid = Pop_reload d" | d p res e where "ms_pc s tid = Pop_read d p (Read_done res e)"
    | d p r where "ms_pc s tid = Pop_read d p r" "\<And>res e. r \<noteq> Read_done res e"
    using pc unfolding in_pop_def by metis
  then show ?thesis
  proof cases
    case (1 d p)
    let ?v = "last (ms_seq s ! cell_index cap p)"
    have v: "?v \<in> set (ms_seq s ! cell_index cap p)" using mem(3) cell_index_mod [OF cnt] by simp
    consider "?v < p + 1" | "?v = p + 1" | "p + 1 < ?v" by fastforce
    then show ?thesis
    proof cases
      case less: 1
      show ?thesis by (rule go [OF mpmc_pop_step.pop_empty [OF 1 v less]]) (simp_all add: 1)
    next
      case eq: 2
      show ?thesis by (rule go [OF mpmc_pop_step.pop_ready [OF 1 v eq]]) (simp_all add: 1 in_pop_def)
    next
      case more: 3
      have "p \<noteq> last (ms_deq s)"
      proof
        assume p: "p = last (ms_deq s)"
        then have up: "unat p = dequeued s" using unat_dequeued [OF cnt] by simp
        then have "unat (p + 1) = Suc (dequeued s)"
          using cnt mm_cap_ge_2 [OF cnt] unat_Suc_word [of p] by (simp add: mm_counters_def mpmc_lifetime_def)
        then have "Suc (dequeued s) < seq_at cap s (dequeued s)"
          using more up cell_index_mod [OF cnt, of p] by (simp add: seq_at_def word_less_nat_alt)
        then show False using pop_claimable [OF cnt cells] by simp
      qed
      then show ?thesis
        by (intro go [OF mpmc_pop_step.pop_behind [OF 1 v more]]) (simp_all add: 1 in_pop_def)
    qed
  next
    case (2 d p)
    show ?thesis
    proof (cases "last (ms_deq s) = p")
      case True
      show ?thesis by (rule go [OF mpmc_pop_step.pop_claim [OF 2 True]]) (simp_all add: 2 True in_pop_def)
    next
      case False
      then show ?thesis
        by (intro go [OF mpmc_pop_step.pop_retry [OF 2 mem(2)]]) (auto simp add: 2 in_pop_def)
    qed
  next
    case (3 d)
    show ?thesis by (rule go [OF mpmc_pop_step.pop_reload [OF 3 mem(2)]]) (simp_all add: 3 in_pop_def)
  next
    case (4 d p res e)
    show ?thesis by (rule go [OF mpmc_pop_step.pop_release [OF 4 refl]]) (simp_all add: 4)
  next
    case (5 d p r)
    have own: "popping s tid (unat p)" using 5 by (simp add: popping_def)
    have "unat p < enqueued s" using popping_owner(1) [OF inv own] cnt by (simp add: mm_counters_def)
    then have "fm_holds N (ms_log s ! unat p) (of_nat (Suc (unat p))) (ms_msg s ! cell_index cap p)"
      using published_holds [OF cells _ popping_owner(2) [OF inv own]] cell_index_mod [OF cnt] by (simp add: msg_at_def)
    note less = read_step_rank [OF this 5(2)]
    show ?thesis by (rule go [OF mpmc_pop_step.pop_read [OF 5]]) (use less in \<open>simp_all add: 5(1) in_pop_def\<close>)
  qed
qed

lemma push_finishes:
  assumes "ms_inv N cap s" "in_push (ms_pc s tid)"
    and "enqueued s + unat cap + 1 < 2 ^ 64 \<or> (\<exists>x p ws. ms_pc s tid = Push_write x p ws)"
  shows "\<exists>t r. (mpmc_push_step N cap tid)\<^sup>*\<^sup>* s t \<and> ms_pc t tid = Push_done r"
  using assms
proof (induction "push_rank s (ms_pc s tid)" arbitrary: s rule: less_induct)
  case less
  obtain t where t: "mpmc_push_step N cap tid s t" "push_rank t (ms_pc t tid) < push_rank s (ms_pc s tid)"
      "in_push (ms_pc t tid) \<or> (\<exists>r. ms_pc t tid = Push_done r)"
    using push_helpful [OF less.prems(1,2)] by blast
  have life: "enqueued t + unat cap < 2 ^ 64"
      "enqueued t + unat cap + 1 < 2 ^ 64 \<or> (\<exists>x p ws. ms_pc t tid = Push_write x p ws) \<or> (\<exists>r. ms_pc t tid = Push_done r)"
    using t(1) less.prems(3) ms_invE(1) [OF less.prems(1)]
    by (cases; auto simp: enqueued_def mm_counters_def mpmc_lifetime_def)+
  have inv: "ms_inv N cap t" using ms_inv_push [OF t(1) less.prems(1)] life(1) by (simp add: mpmc_lifetime_def)
  show ?case
  proof (cases "\<exists>r. ms_pc t tid = Push_done r")
    case True
    then show ?thesis using t(1) by blast
  next
    case False
    then show ?thesis
      using less.hyps [OF t(2) inv] t(1,3) life(2) by (metis converse_rtranclp_into_rtranclp)
  qed
qed

lemma pop_finishes:
  assumes "ms_inv N cap s" "in_pop (ms_pc s tid)"
  shows "\<exists>t r d. (mpmc_pop_step cap tid)\<^sup>*\<^sup>* s t \<and> ms_pc t tid = Pop_done r d"
  using assms
proof (induction "pop_rank N s (ms_pc s tid)" arbitrary: s rule: less_induct)
  case less
  obtain t where t: "mpmc_pop_step cap tid s t" "pop_rank N t (ms_pc t tid) < pop_rank N s (ms_pc s tid)"
      "in_pop (ms_pc t tid) \<or> (\<exists>r d. ms_pc t tid = Pop_done r d)"
    using pop_helpful [OF less.prems] by blast
  have inv: "ms_inv N cap t" by (rule ms_inv_pop [OF t(1) less.prems(1)])
  show ?case
  proof (cases "\<exists>r d. ms_pc t tid = Pop_done r d")
    case True
    then show ?thesis using t(1) by blast
  next
    case False
    then show ?thesis
      using less.hyps [OF t(2) inv] t(1,3) by (metis converse_rtranclp_into_rtranclp)
  qed
qed

text \<open>The queue after a store to cell \<open>i\<close>.\<close>

lemma ms_queue_cells_update:
  assumes "length (ms_seq s) = unat cap" "length (ms_msg s) = unat cap" "i < unat cap"
  shows "mq_cells (ms_queue cap (t\<lparr>ms_seq := (ms_seq s)[i := ms_seq s ! i @ [v]],
      ms_msg := (ms_msg s)[i := m]\<rparr>)) =
    (mq_cells (ms_queue cap s))[i := \<lparr>cell_sequence = v, cell_message = m\<rparr>]"
  using assms by (intro nth_equalityI) (auto simp: ms_queue_def nth_list_update)

lemma solo_push_claimed:
  assumes inv: "ms_inv N cap s" and idle: "ms_pc s tid = M_idle" and size: "length payload \<le> N"
    and ready: "last (ms_seq s ! (enqueued s mod unat cap)) = last (ms_enq s)"
  shows "\<exists>t r. (mpmc_push_step N cap tid)\<^sup>*\<^sup>* s t \<and> ms_pc t tid = Push_done r \<and>
    mpmc_try_push (\<lambda>_. False) N (ms_queue cap s) payload = Some (r, ms_queue cap t)"
proof -
  note cnt = ms_invE(1) [OF inv] and cells = ms_invE(2) [OF inv]
  define e where "e = last (ms_enq s)"
  define i where "i = cell_index cap e"
  have e: "unat e = enqueued s" using unat_enqueued [OF cnt] by (simp add: e_def)
  have i: "i = enqueued s mod unat cap" using cell_index_mod [OF cnt] e by (simp add: i_def)
  have il: "i < unat cap" "length (ms_msg s) = unat cap" "length (ms_seq s) = unat cap"
    using i mm_cap_ge_2 [OF cnt] cnt by (simp_all add: mm_counters_def)
  define m where "m = fold fm_do (fm_writes payload (e + 1)) (ms_msg s ! i)"
  let ?s1 = "s\<lparr>ms_pc := (ms_pc s)(tid := Push_seq payload e)\<rparr>"
  let ?s2 = "s\<lparr>ms_pc := (ms_pc s)(tid := Push_cas payload e)\<rparr>"
  let ?s3 = "s\<lparr>ms_enq := ms_enq s @ [e + 1], ms_log := ms_log s @ [payload],
    ms_pc := (ms_pc s)(tid := Push_write payload e (fm_writes payload (e + 1)))\<rparr>"
  let ?s4 = "?s3\<lparr>ms_msg := (ms_msg s)[i := m], ms_pc := (ms_pc s)(tid := Push_write payload e [])\<rparr>"
  let ?t = "?s4\<lparr>ms_seq := (ms_seq s)[i := ms_seq s ! i @ [e + 1]],
    ms_pc := (ms_pc s)(tid := Push_done (write_res Success (e + 1)))\<rparr>"
  have 1: "mpmc_push_step N cap tid s ?s1"
    using mpmc_push_step.push_load [OF idle size] mm_last_mem(1) [OF cnt cells] by (simp add: e_def)
  have 2: "mpmc_push_step N cap tid ?s1 ?s2"
    using mpmc_push_step.push_ready [of ?s1 tid payload e e cap N] ready
      mm_last_mem(3) [OF cnt cells, of "enqueued s"] i i_def e_def by simp
  have 3: "mpmc_push_step N cap tid ?s2 ?s3"
    using mpmc_push_step.push_claim [of ?s2 tid payload e N cap] by (simp add: e_def)
  have 4: "(mpmc_push_step N cap tid)\<^sup>*\<^sup>* ?s3 ?s4"
    using push_write_run [of ?s3 tid payload e "fm_writes payload (e + 1)" i cap N] il
    by (simp add: i_def m_def)
  have 5: "mpmc_push_step N cap tid ?s4 ?t"
    using mpmc_push_step.push_publish [of ?s4 tid payload e i cap N] by (simp add: i_def)
  have run: "(mpmc_push_step N cap tid)\<^sup>*\<^sup>* s ?t"
    using 1 2 3 4 5 by (meson converse_rtranclp_into_rtranclp rtranclp.rtrancl_into_rtrancl)
  let ?q = "ms_queue cap s"
  have cell: "mq_cells ?q ! i = \<lparr>cell_sequence = e, cell_message = ms_msg s ! i\<rparr>"
    using il ready i by (simp add: ms_queue_def e_def)
  have qi: "mpmc_index ?q e = i" "mq_enqueue_pos ?q = e"
    by (simp_all add: mpmc_index_def ms_queue_def i_def cell_index_def e_def)
  have len: "length (fm_storage (ms_msg s ! i)) = N"
    using cells il by (simp add: mm_cells_def fm_wf_def)
  have assign: "fm_assign N (ms_msg s ! i) payload (e + 1) = (write_res Success (e + 1), m)"
    using fm_writes_assign [OF len size, of "e + 1"] fm_assign_status [OF size, of "ms_msg s ! i" "e + 1"]
    by (simp add: m_def prod_eq_iff)
  have claim: "mpmc_push_claim (\<lambda>_. False) 0 ?q e = Some (Some e, ?q\<lparr>mq_enqueue_pos := e + 1\<rparr>)"
    using push_claim_ready [where q = ?q and weak = "\<lambda>_. False" and k = 0 and j = 0] cell qi by simp
  have "ms_queue cap ?t = ?q\<lparr>mq_enqueue_pos := e + 1,
      mq_cells := (mq_cells ?q)[i := \<lparr>cell_sequence = e + 1, cell_message = m\<rparr>]\<rparr>"
    using ms_queue_cells_update [OF il(3,2,1), where v = "e + 1" and m = m and t = ?t] by (simp add: ms_queue_def)
  then have "mpmc_try_push (\<lambda>_. False) N ?q payload = Some (write_res Success (e + 1), ms_queue cap ?t)"
    using size claim qi cell assign by (simp add: mpmc_try_push_def Let_def)
  then show ?thesis using run by (intro exI [of _ ?t] exI [of _ "write_res Success (e + 1)"]) simp
qed

lemma solo_push_quiescent:
  assumes inv: "ms_inv N cap s" and q: "quiescent s" and idle: "ms_pc s tid = M_idle"
  shows "\<exists>t r. (mpmc_push_step N cap tid)\<^sup>*\<^sup>* s t \<and> ms_pc t tid = Push_done r \<and>
    mpmc_try_push (\<lambda>_. False) N (ms_queue cap s) payload = Some (r, ms_queue cap t)"
proof -
  note cnt = ms_invE(1) [OF inv] and cells = ms_invE(2) [OF inv]
  let ?Q = "ms_queue cap s" and ?done = "\<lambda>r. s\<lparr>ms_pc := (ms_pc s)(tid := Push_done r)\<rparr>"
  have same: "ms_queue cap (s\<lparr>ms_pc := f\<rparr>) = ?Q" for f by (simp add: ms_queue_def)
  have bound: "enqueued s \<le> dequeued s + unat cap" using cnt by (simp add: mm_counters_def)
  consider "length payload > N" | "length payload \<le> N" "enqueued s = dequeued s + unat cap"
    | "length payload \<le> N" "enqueued s < dequeued s + unat cap" using bound by linarith
  then show ?thesis
  proof cases
    case 1
    then have "mpmc_push_step N cap tid s (?done (write_res Message_too_large 0))"
      using idle mpmc_push_step.push_reject by blast
    then show ?thesis
      using 1 same by (intro exI [of _ "?done (write_res Message_too_large 0)"]
          exI [of _ "write_res Message_too_large 0"]) (simp add: mpmc_try_push_def r_into_rtranclp)
  next
    case 2
    define e where "e = last (ms_enq s)"
    let ?s1 = "s\<lparr>ms_pc := (ms_pc s)(tid := Push_seq payload e)\<rparr>"
    let ?h = "ms_seq s ! (enqueued s mod unat cap)"
    have e: "unat e = enqueued s" using unat_enqueued [OF cnt] by (simp add: e_def)
    have "seq_at cap s (enqueued s) = Suc (dequeued s)"
      using quiescent_published [OF inv q, of "dequeued s"] seq_at_residue [of "enqueued s" cap "dequeued s" s]
        2 mm_cap_ge_2 [OF cnt] by simp
    then have less: "last ?h < e"
      using 2 e mm_cap_ge_2 [OF cnt] by (simp add: seq_at_def word_less_nat_alt)
    have s1: "mpmc_push_step N cap tid s ?s1"
      using mpmc_push_step.push_load [OF idle 2(1)] mm_last_mem(1) [OF cnt cells] by (simp add: e_def)
    have "mpmc_push_step N cap tid ?s1 (?done (write_res Full 0))"
      using mpmc_push_step.push_full [of ?s1 tid payload e "last ?h" cap N] less
        mm_last_mem(3) [OF cnt cells, of "enqueued s"] cell_index_mod [OF cnt, of e] e by simp
    then have run: "(mpmc_push_step N cap tid)\<^sup>*\<^sup>* s (?done (write_res Full 0))"
      using s1 by (meson converse_rtranclp_into_rtranclp r_into_rtranclp)
    have "length (mpmc_contents ?Q) = mpmc_cap ?Q"
      using quiescent_queue [OF inv q] 2 cnt
      by (simp add: mpmc_abs_def mpmc_cap_def ms_queue_def mm_counters_def del: length_mpmc_contents)
    then show ?thesis
      using mpmc_push_full_result [of N ?Q payload "\<lambda>_. False"] quiescent_queue [OF inv q] 2 run same
      by (intro exI [of _ "?done (write_res Full 0)"] exI [of _ "write_res Full 0"]) simp
  next
    case 3
    have "seq_at cap s (enqueued s) = enqueued s" using quiescent_free [OF inv q, of "enqueued s"] 3 by simp
    then have "last (ms_seq s ! (enqueued s mod unat cap)) = last (ms_enq s)"
      using unat_enqueued [OF cnt] by (simp add: seq_at_def word_unat_eq_iff)
    then show ?thesis using solo_push_claimed [OF inv idle 3(1)] by blast
  qed
qed

lemma solo_pop_claimed:
  assumes inv: "ms_inv N cap s" and idle: "ms_pc s tid = M_idle" and less: "dequeued s < enqueued s"
    and ready: "seq_at cap s (dequeued s) = Suc (dequeued s)"
  shows "\<exists>t r d. (mpmc_pop_step cap tid)\<^sup>*\<^sup>* s t \<and> ms_pc t tid = Pop_done r d \<and>
    mpmc_try_pop (\<lambda>_. False) (ms_queue cap s) dest = Some (r, d, ms_queue cap t)"
proof -
  note cnt = ms_invE(1) [OF inv] and cells = ms_invE(2) [OF inv]
  define p where "p = last (ms_deq s)"
  define i where "i = cell_index cap p"
  have p: "unat p = dequeued s" using unat_dequeued [OF cnt] by (simp add: p_def)
  have i: "i = dequeued s mod unat cap" using cell_index_mod [OF cnt] p by (simp add: i_def)
  have il: "i < unat cap" "length (ms_msg s) = unat cap" "length (ms_seq s) = unat cap"
    using i mm_cap_ge_2 [OF cnt] cnt by (simp_all add: mm_counters_def)
  define m where "m = ms_msg s ! i"
  define x where "x = ms_log s ! dequeued s"
  obtain r d where rd: "fm_copy_to m dest = (r, d)" by fastforce
  have "unat (p + 1) = Suc (unat p)"
    using less p cnt unat_Suc_word [of p] by (simp add: mm_counters_def mpmc_lifetime_def)
  then have last: "last (ms_seq s ! i) = p + 1"
    using ready p i by (simp add: seq_at_def word_unat_eq_iff)
  have holds: "fm_holds N x (of_nat (Suc (dequeued s))) m"
    using published_holds [OF cells less ready] i by (simp add: x_def m_def msg_at_def)
  let ?s1 = "s\<lparr>ms_pc := (ms_pc s)(tid := Pop_seq dest p)\<rparr>"
  let ?s2 = "s\<lparr>ms_pc := (ms_pc s)(tid := Pop_cas dest p)\<rparr>"
  let ?s3 = "s\<lparr>ms_deq := ms_deq s @ [p + 1], ms_pc := (ms_pc s)(tid := Pop_read dest p (Read_size dest))\<rparr>"
  let ?s4 = "?s3\<lparr>ms_pc := (ms_pc s)(tid := Pop_read dest p (Read_done r d))\<rparr>"
  let ?t = "?s4\<lparr>ms_seq := (ms_seq s)[i := ms_seq s ! i @ [p + cap]],
    ms_out := ms_out s @ [(unat p, dest, r, d)], ms_pc := (ms_pc s)(tid := Pop_done r d)\<rparr>"
  have 1: "mpmc_pop_step cap tid s ?s1"
    using mpmc_pop_step.pop_load [OF idle] mm_last_mem(2) [OF cnt cells] by (simp add: p_def)
  have 2: "mpmc_pop_step cap tid ?s1 ?s2"
    using mpmc_pop_step.pop_ready [of ?s1 tid dest p "p + 1" cap] last
      mm_last_mem(3) [OF cnt cells, of "dequeued s"] i i_def by simp
  have 3: "mpmc_pop_step cap tid ?s2 ?s3"
    using mpmc_pop_step.pop_claim [of ?s2 tid dest p cap] by (simp add: p_def)
  have 4: "(mpmc_pop_step cap tid)\<^sup>*\<^sup>* ?s3 ?s4"
    using pop_read_run [of ?s3 tid dest p "Read_size dest" m cap "length x + 2"]
      fm_read_copy_to [OF holds, of dest] rd
    by (simp add: m_def i_def fun_upd_same del: fun_upd_apply)
  have 5: "mpmc_pop_step cap tid ?s4 ?t"
    using mpmc_pop_step.pop_release [of ?s4 tid dest p r d i cap] by (simp add: i_def)
  have run: "(mpmc_pop_step cap tid)\<^sup>*\<^sup>* s ?t"
    using 1 2 3 4 5 by (meson converse_rtranclp_into_rtranclp rtranclp.rtrancl_into_rtrancl)
  let ?q = "ms_queue cap s"
  have cell: "mq_cells ?q ! i = \<lparr>cell_sequence = p + 1, cell_message = m\<rparr>"
    using il last by (simp add: ms_queue_def m_def)
  have qi: "mpmc_index ?q p = i" "mq_dequeue_pos ?q = p" "mq_capacity ?q = cap"
    by (simp_all add: mpmc_index_def ms_queue_def i_def cell_index_def p_def)
  have claim: "mpmc_pop_claim (\<lambda>_. False) 0 ?q p = Some (Some p, ?q\<lparr>mq_dequeue_pos := p + 1\<rparr>)"
    using pop_claim_ready [where q = ?q and weak = "\<lambda>_. False" and k = 0 and j = 0] cell qi by simp
  have "(ms_msg s)[i := m] = ms_msg s" by (simp add: m_def)
  then have "ms_queue cap ?t = ?q\<lparr>mq_dequeue_pos := p + 1,
      mq_cells := (mq_cells ?q)[i := \<lparr>cell_sequence = p + cap, cell_message = m\<rparr>]\<rparr>"
    using ms_queue_cells_update [OF il(3,2,1), where v = "p + cap" and m = m and t = ?t]
    by (simp add: ms_queue_def)
  then have "mpmc_try_pop (\<lambda>_. False) ?q dest = Some (r, d, ms_queue cap ?t)"
    using claim qi cell rd by (simp add: mpmc_try_pop_def Let_def)
  then show ?thesis using run by (intro exI [of _ ?t] exI [of _ r] exI [of _ d]) simp
qed

lemma solo_pop_quiescent:
  assumes inv: "ms_inv N cap s" and q: "quiescent s" and idle: "ms_pc s tid = M_idle"
  shows "\<exists>t r d. (mpmc_pop_step cap tid)\<^sup>*\<^sup>* s t \<and> ms_pc t tid = Pop_done r d \<and>
    mpmc_try_pop (\<lambda>_. False) (ms_queue cap s) dest = Some (r, d, ms_queue cap t)"
proof (cases "dequeued s < enqueued s")
  case True
  then show ?thesis using solo_pop_claimed [OF inv idle] quiescent_published [OF inv q] by simp
next
  case False
  note cnt = ms_invE(1) [OF inv] and cells = ms_invE(2) [OF inv]
  have eq: "enqueued s = dequeued s" using False cnt by (simp add: mm_counters_def)
  define p where "p = last (ms_deq s)"
  let ?s1 = "s\<lparr>ms_pc := (ms_pc s)(tid := Pop_seq dest p)\<rparr>"
  let ?t = "s\<lparr>ms_pc := (ms_pc s)(tid := Pop_done (read_res Empty 0 0) dest)\<rparr>"
  let ?h = "ms_seq s ! (dequeued s mod unat cap)"
  have p: "unat p = dequeued s" using unat_dequeued [OF cnt] by (simp add: p_def)
  have p1: "unat (p + 1) = Suc (unat p)"
    using p eq cnt mm_cap_ge_2 [OF cnt] unat_Suc_word [of p] by (simp add: mm_counters_def mpmc_lifetime_def)
  have "seq_at cap s (dequeued s) = dequeued s"
    using quiescent_free [OF inv q, of "dequeued s"] eq mm_cap_ge_2 [OF cnt] by simp
  then have less: "last ?h < p + 1" using p p1 by (simp add: seq_at_def word_less_nat_alt)
  have s1: "mpmc_pop_step cap tid s ?s1"
    using mpmc_pop_step.pop_load [OF idle] mm_last_mem(2) [OF cnt cells] by (simp add: p_def)
  have "mpmc_pop_step cap tid ?s1 ?t"
    using mpmc_pop_step.pop_empty [of ?s1 tid dest p "last ?h" cap] less
      mm_last_mem(3) [OF cnt cells, of "dequeued s"] cell_index_mod [OF cnt, of p] p by simp
  then have run: "(mpmc_pop_step cap tid)\<^sup>*\<^sup>* s ?t"
    using s1 by (meson converse_rtranclp_into_rtranclp r_into_rtranclp)
  have "mpmc_contents (ms_queue cap s) = []"
    using quiescent_queue [OF inv q] eq cnt by (simp add: mpmc_abs_def mm_counters_def)
  then show ?thesis
    using mpmc_pop_empty_result [of N "ms_queue cap s" "\<lambda>_. False" dest] quiescent_queue [OF inv q] run
    by (intro exI [of _ ?t] exI [of _ "read_res Empty 0 0"] exI [of _ dest]) (simp add: ms_queue_def)
qed

section \<open>Example runs\<close>

lemma push_step_enqueued: "mpmc_push_step N cap tid s t \<Longrightarrow> enqueued s \<le> enqueued t"
  by (induction rule: mpmc_push_step.induct) (simp_all add: enqueued_def)

lemma pop_step_enqueued: "mpmc_pop_step cap tid s t \<Longrightarrow> enqueued t = enqueued s"
  by (induction rule: mpmc_pop_step.induct) simp_all

lemma reachable_push_run:
  assumes "(mpmc_push_step N cap tid)\<^sup>*\<^sup>* s t" "mpmc_lifetime cap t"
    and "reachable (mpmc_sys_init N cap) (mpmc_sys_step N cap) s"
  shows "reachable (mpmc_sys_init N cap) (mpmc_sys_step N cap) t"
  using assms
proof (induction rule: rtranclp_induct)
  case (step u v)
  then have "mpmc_lifetime cap u" using push_step_enqueued [OF step.hyps(2)] by (simp add: mpmc_lifetime_def)
  then show ?case
    using step by (auto intro: reach_step simp: mpmc_sys_step_def)
qed

lemma reachable_pop_run:
  assumes "(mpmc_pop_step cap tid)\<^sup>*\<^sup>* s t" "mpmc_lifetime cap t"
    and "reachable (mpmc_sys_init N cap) (mpmc_sys_step N cap) s"
  shows "reachable (mpmc_sys_init N cap) (mpmc_sys_step N cap) t"
  using assms
proof (induction rule: rtranclp_induct)
  case (step u v)
  then have "mpmc_lifetime cap u" using pop_step_enqueued [OF step.hyps(2)] by (simp add: mpmc_lifetime_def)
  then show ?case
    using step by (auto intro: reach_step simp: mpmc_sys_step_def)
qed

lemma mpmc_example_claims:
  "\<exists>s. reachable (mpmc_sys_init 1 2) (mpmc_sys_step 1 2) s \<and> ms_log s = [[7], [8]] \<and> ms_out s = [] \<and>
     ms_pc s 1 = Pop_read [0] 0 (Read_done (read_res Success 1 1) [7]) \<and>
     ms_pc s 2 = Push_write [8] 1 (fm_writes [8] 2)"
proof -
  let ?R = "reachable (mpmc_sys_init 1 2) (mpmc_sys_step 1 2)"
  let ?m = "\<lparr>fm_storage = [0], fm_size = 0, fm_sequence = 0\<rparr>"
  let ?m1 = "\<lparr>fm_storage = [7], fm_size = 1, fm_sequence = 1\<rparr>"
  note life = mpmc_lifetime_def enqueued_def
  have two: "replicate 2 ?m = [?m, ?m]" "[0..<2] = [0, Suc 0]"
    by (simp_all add: numeral_2_eq_2)
  have index: "cell_index 2 0 = 0" "cell_index 2 1 = 1" by (simp_all add: cell_index_def)
  define s0 where "s0 = \<lparr>ms_seq = [[0], [1]], ms_msg = [?m, ?m], ms_enq = [0], ms_deq = [0],
    ms_pc = (\<lambda>_. M_idle), ms_log = [], ms_out = []\<rparr>"
  have "mpmc_validate_capacity 2 = Inr 2" by code_simp
  then have 0: "?R s0" by (intro reach_init) (simp add: mpmc_sys_init_def s0_def fm_new_def two)
  have 1: "?R (s0\<lparr>ms_pc := (ms_pc s0)(0 := Push_seq [7] 0)\<rparr>)"
    by (rule reachable_push_run [OF r_into_rtranclp _ 0, OF mpmc_push_step.push_load])
      (simp_all add: s0_def life)
  have 2: "?R (s0\<lparr>ms_pc := (ms_pc s0)(0 := Push_cas [7] 0)\<rparr>)"
    using reachable_push_run [OF r_into_rtranclp _ 1,
        OF mpmc_push_step.push_ready [where tid = 0 and payload = "[7]" and position = 0 and sequence = 0]]
    by (simp add: s0_def life index)
  have 3: "?R (s0\<lparr>ms_enq := [0, 1], ms_log := [[7]],
      ms_pc := (ms_pc s0)(0 := Push_write [7] 0 (fm_writes [7] 1))\<rparr>)"
    using reachable_push_run [OF r_into_rtranclp _ 2,
        OF mpmc_push_step.push_claim [where tid = 0 and payload = "[7]" and position = 0]]
    by (simp add: s0_def life)
  have 4: "?R (s0\<lparr>ms_enq := [0, 1], ms_log := [[7]], ms_msg := [?m1, ?m],
      ms_pc := (ms_pc s0)(0 := Push_write [7] 0 [])\<rparr>)"
    using reachable_push_run [OF push_write_run [where tid = 0 and payload = "[7]"
        and position = 0 and ws = "fm_writes [7] 1" and i = 0] _ 3]
    by (simp add: s0_def life fm_writes_def index)
  define s5 where "s5 = s0\<lparr>ms_enq := [0, 1], ms_log := [[7]], ms_msg := [?m1, ?m],
      ms_seq := [[0, 1], [1]], ms_pc := (ms_pc s0)(0 := Push_done (write_res Success 1))\<rparr>"
  have 5: "?R s5"
    using reachable_push_run [OF r_into_rtranclp _ 4,
        OF mpmc_push_step.push_publish [where tid = 0 and payload = "[7]" and position = 0]]
    by (simp add: s0_def s5_def life index)
  have 6: "?R (s5\<lparr>ms_pc := (ms_pc s5)(1 := Pop_seq [0] 0)\<rparr>)"
    using reachable_pop_run [OF r_into_rtranclp _ 5,
        OF mpmc_pop_step.pop_load [where tid = 1 and position = 0 and dest = "[0]"]]
    by (simp add: s0_def s5_def life)
  have 7: "?R (s5\<lparr>ms_pc := (ms_pc s5)(1 := Pop_cas [0] 0)\<rparr>)"
    using reachable_pop_run [OF r_into_rtranclp _ 6,
        OF mpmc_pop_step.pop_ready [where tid = 1 and dest = "[0]" and position = 0 and sequence = 1]]
    by (simp add: s0_def s5_def life index)
  have 8: "?R (s5\<lparr>ms_deq := [0, 1], ms_pc := (ms_pc s5)(1 := Pop_read [0] 0 (Read_size [0]))\<rparr>)"
    using reachable_pop_run [OF r_into_rtranclp _ 7,
        OF mpmc_pop_step.pop_claim [where tid = 1 and dest = "[0]" and position = 0]]
    by (simp add: s0_def s5_def life)
  let ?r = "Read_done (read_res Success 1 1) [7]"
  define s9 where "s9 = s5\<lparr>ms_deq := [0, 1], ms_pc := (ms_pc s5)(1 := Pop_read [0] 0 ?r)\<rparr>"
  have 9: "?R s9"
    using reachable_pop_run [OF pop_read_run [where tid = 1 and dest = "[0]" and position = 0
        and r = "Read_size [0]" and n = "Suc (Suc (Suc 0))"] _ 8]
    by (simp add: s0_def s5_def s9_def life index)
  have 10: "?R (s9\<lparr>ms_pc := (ms_pc s9)(2 := Push_seq [8] 1)\<rparr>)"
    by (rule reachable_push_run [OF r_into_rtranclp _ 9, OF mpmc_push_step.push_load])
      (simp_all add: s0_def s5_def s9_def life)
  have 11: "?R (s9\<lparr>ms_pc := (ms_pc s9)(2 := Push_cas [8] 1)\<rparr>)"
    using reachable_push_run [OF r_into_rtranclp _ 10,
        OF mpmc_push_step.push_ready [where tid = 2 and payload = "[8]" and position = 1 and sequence = 1]]
    by (simp add: s0_def s5_def s9_def life index)
  let ?t = "s9\<lparr>ms_enq := [0, 1, 2], ms_log := [[7], [8]],
      ms_pc := (ms_pc s9)(2 := Push_write [8] 1 (fm_writes [8] 2))\<rparr>"
  have "?R ?t"
    using reachable_push_run [OF r_into_rtranclp _ 11,
        OF mpmc_push_step.push_claim [where tid = 2 and payload = "[8]" and position = 1]]
    by (simp add: s0_def s5_def s9_def life)
  then show ?thesis by (intro exI [of _ ?t]) (simp add: s0_def s5_def s9_def)
qed

section \<open>Properties\<close>

text \<open>
  C1: Exactly once: in every interleaving of any number of threads, no two finished pops took the
  same position, each finished pop took a claimed position and delivered exactly the payload
  pushed there (or reported it as too large for the destination), and when no pop is between its
  claim and its release, the finished pops are all positions that were taken: none is lost.
\<close>

theorem mpmc_concurrent_exactly_once:
  assumes "reachable (mpmc_sys_init N cap) (mpmc_sys_step N cap) s"
  shows "distinct (map fst (ms_out s)) \<and>
    (\<forall>e \<in> set (ms_out s). fst e < length (ms_log s) \<and> delivers (ms_log s ! fst e) e) \<and>
    ((\<forall>tid. popping_pos (ms_pc s tid) = None) \<longrightarrow> fst ` set (ms_out s) = {..<dequeued s}) \<and>
    dequeued s \<le> length (ms_log s) \<and> length (ms_log s) \<le> dequeued s + unat cap"
proof -
  have inv: "ms_inv N cap s" using assms by (rule mpmc_sys.reachable_inv)
  note cnt = ms_invE(1) [OF inv] and hist = ms_invE(4) [OF inv]
  have len: "length (ms_log s) = enqueued s" "dequeued s \<le> enqueued s"
    "enqueued s \<le> dequeued s + unat cap"
    using cnt by (simp_all add: mm_counters_def)
  have "fst ` set (ms_out s) = {..<dequeued s}" if "\<forall>tid. popping_pos (ms_pc s tid) = None"
    using hist pop_owned [OF inv] that by (fastforce simp: mm_history_def popping_def)
  then show ?thesis using hist len by (fastforce simp: mm_history_def)
qed

theorem mpmc_concurrent_exactly_once_witness:
  "\<exists>s. reachable (mpmc_sys_init 1 2) (mpmc_sys_step 1 2) s \<and>
     ms_out s = [(0, [0], read_res Success 1 1, [7])] \<and> delivers (ms_log s ! 0) (ms_out s ! 0)"
proof -
  obtain s where s: "reachable (mpmc_sys_init 1 2) (mpmc_sys_step 1 2) s" "ms_out s = []"
      "ms_pc s 1 = Pop_read [0] 0 (Read_done (read_res Success 1 1) [7])"
    using mpmc_example_claims by blast
  define t where "t = s\<lparr>ms_seq := (ms_seq s)[cell_index 2 0 := ms_seq s ! cell_index 2 0 @ [0 + 2]],
    ms_out := ms_out s @ [(unat (0 :: u64), [0], read_res Success 1 1, [7])],
    ms_pc := (ms_pc s)(1 := Pop_done (read_res Success 1 1) [7])\<rparr>"
  have step: "mpmc_pop_step 2 1 s t"
    using mpmc_pop_step.pop_release [OF s(3)] unfolding t_def by blast
  have "mpmc_lifetime 2 s"
    using ms_invE(1) [OF mpmc_sys.reachable_inv [OF s(1)]] by (simp add: mm_counters_def)
  then have "mpmc_lifetime 2 t" using pop_step_enqueued [OF step] by (simp add: mpmc_lifetime_def)
  then have t: "reachable (mpmc_sys_init 1 2) (mpmc_sys_step 1 2) t"
    using reachable_pop_run [OF r_into_rtranclp _ s(1)] step by blast
  have out: "ms_out t = [(0, [0], read_res Success 1 1, [7])]" by (simp add: t_def s(2))
  then show ?thesis using mpmc_concurrent_exactly_once [OF t] t by fastforce
qed

text \<open>
  C3: Linearizability: the abstract queue (payloads claimed and not yet taken, in claim order)
  changes only at the two successful compare-exchanges. A push appends its payload there and
  finds room; a pop removes the oldest payload there, which is the one its call will deliver.
\<close>

theorem mpmc_linearization_points:
  assumes "reachable (mpmc_sys_init N cap) (mpmc_sys_step N cap) s"
  shows "(\<forall>t. mpmc_push_step N cap tid s t \<and> mpmc_lifetime cap t \<longrightarrow>
      (if pushing_pos (ms_pc t tid) \<noteq> None \<and> pushing_pos (ms_pc s tid) = None
       then \<exists>payload position. ms_pc s tid = Push_cas payload position \<and>
         mpmc_abs t = mpmc_abs s @ [payload] \<and> length (mpmc_abs s) < unat cap
       else mpmc_abs t = mpmc_abs s)) \<and>
    (\<forall>t. mpmc_pop_step cap tid s t \<longrightarrow>
      (if popping_pos (ms_pc t tid) \<noteq> None \<and> popping_pos (ms_pc s tid) = None
       then \<exists>dest position. ms_pc s tid = Pop_cas dest position \<and>
         popping_pos (ms_pc t tid) = Some (unat position) \<and>
         mpmc_abs s = (ms_log s ! unat position) # mpmc_abs t
       else mpmc_abs t = mpmc_abs s))"
proof -
  have inv: "ms_inv N cap s" using assms by (rule mpmc_sys.reachable_inv)
  note cnt = ms_invE(1) [OF inv] and cells = ms_invE(2) [OF inv]
  have len: "length (ms_log s) = enqueued s" "dequeued s \<le> enqueued s"
    using cnt by (simp_all add: mm_counters_def)
  show ?thesis
  proof (intro conjI allI impI; (elim conjE)?)
    fix t
    assume "mpmc_push_step N cap tid s t"
    then show "if pushing_pos (ms_pc t tid) \<noteq> None \<and> pushing_pos (ms_pc s tid) = None
       then \<exists>payload position. ms_pc s tid = Push_cas payload position \<and>
         mpmc_abs t = mpmc_abs s @ [payload] \<and> length (mpmc_abs s) < unat cap
       else mpmc_abs t = mpmc_abs s"
    proof cases
      case (push_claim payload position)
      have "enqueued s \<le> seq_at cap s (enqueued s)"
        using ms_invE(5) [OF inv, of tid] push_claim unat_enqueued [OF cnt] by simp
      then have "enqueued s < dequeued s + unat cap" using push_claimable [OF cnt cells] by blast
      then show ?thesis using push_claim len by (simp add: mpmc_abs_def)
    qed (auto simp: mpmc_abs_def)
  next
    fix t
    assume "mpmc_pop_step cap tid s t"
    then show "if popping_pos (ms_pc t tid) \<noteq> None \<and> popping_pos (ms_pc s tid) = None
       then \<exists>dest position. ms_pc s tid = Pop_cas dest position \<and>
         popping_pos (ms_pc t tid) = Some (unat position) \<and>
         mpmc_abs s = (ms_log s ! unat position) # mpmc_abs t
       else mpmc_abs t = mpmc_abs s"
    proof cases
      case (pop_claim dest position)
      have pos: "unat position = dequeued s" using pop_claim unat_dequeued [OF cnt] by simp
      then have "dequeued s < seq_at cap s (dequeued s)"
        using ms_invE(5) [OF inv, of tid] pop_claim by simp
      then have "dequeued s < enqueued s" using pop_claimable [OF cnt cells] by blast
      moreover have "dequeued t = Suc (dequeued s)"
        using counter_lengths [OF cnt] pop_claim(1) by (simp add: dequeued_def)
      moreover have "ms_log t = ms_log s" "popping_pos (ms_pc t tid) = Some (unat position)"
        using pop_claim(1) by simp_all
      ultimately show ?thesis
        using pop_claim(2) pos len by (simp add: mpmc_abs_def Cons_nth_drop_Suc)
    qed (auto simp: mpmc_abs_def)
  qed
qed

theorem mpmc_linearization_points_witness:
  "\<exists>s t. reachable (mpmc_sys_init 1 2) (mpmc_sys_step 1 2) s \<and> mpmc_push_step 1 2 2 s t \<and>
     mpmc_abs t = mpmc_abs s"
proof -
  obtain s where s: "reachable (mpmc_sys_init 1 2) (mpmc_sys_step 1 2) s"
      "ms_pc s 2 = Push_write [8] 1 (fm_writes [8] 2)"
    using mpmc_example_claims by blast
  then obtain w ws where w: "ms_pc s 2 = Push_write [8] 1 (w # ws)" by (simp add: fm_writes_def)
  define t where "t = s\<lparr>ms_msg := (ms_msg s)[cell_index 2 1 := fm_do w (ms_msg s ! cell_index 2 1)],
         ms_pc := (ms_pc s)(2 := Push_write [8] 1 ws)\<rparr>"
  have step: "mpmc_push_step 1 2 2 s t"
    using mpmc_push_step.push_write [OF w] unfolding t_def by blast
  have "mpmc_lifetime 2 s"
    using ms_invE(1) [OF mpmc_sys.reachable_inv [OF s(1)]] by (simp add: mm_counters_def)
  then have "mpmc_lifetime 2 t" by (simp add: mpmc_lifetime_def t_def)
  then have "mpmc_abs t = mpmc_abs s"
    using mpmc_linearization_points [OF s(1), of 2] step w by auto
  then show ?thesis using s(1) step by blast
qed



text \<open>
  C5: No data race on a cell's message: two different threads that have both claimed a position
  are in different cells. And the claim's acquire load synchronised with the newest store to the
  cell's sequence: that store's value is the one the owner compared with (the position for a
  push, the position plus one for a pop), and it occurs once in the modification order.
\<close>

theorem mpmc_race_free:
  assumes "reachable (mpmc_sys_init N cap) (mpmc_sys_step N cap) s"
  shows "(\<forall>t1 t2 p1 p2. claimed_pos (ms_pc s t1) = Some p1 \<and> claimed_pos (ms_pc s t2) = Some p2 \<and>
      t1 \<noteq> t2 \<longrightarrow> p1 mod unat cap \<noteq> p2 mod unat cap) \<and>
    (\<forall>tid. case ms_pc s tid of
        Push_write payload position todo \<Rightarrow> last (ms_seq s ! cell_index cap position) = position
      | Pop_read dest position r \<Rightarrow> last (ms_seq s ! cell_index cap position) = position + 1
      | _ \<Rightarrow> True) \<and>
    (\<forall>h \<in> set (ms_seq s). distinct h)"
proof (intro conjI allI impI)
  have inv: "ms_inv N cap s" using assms by (rule mpmc_sys.reachable_inv)
  note cnt = ms_invE(1) [OF inv]
  have own: "pushing s t p \<or> popping s t p" if "claimed_pos (ms_pc s t) = Some p" for t p
    using that by (cases "ms_pc s t") (simp_all add: pushing_def popping_def)
  show "p1 mod unat cap \<noteq> p2 mod unat cap"
    if "claimed_pos (ms_pc s t1) = Some p1 \<and> claimed_pos (ms_pc s t2) = Some p2 \<and> t1 \<noteq> t2"
    for t1 t2 p1 p2
    using other_owner_residue [OF inv own, of t2 p2 t1 p1] own [of t1 p1] that by blast
  show "case ms_pc s tid of
        Push_write payload position todo \<Rightarrow> last (ms_seq s ! cell_index cap position) = position
      | Pop_read dest position r \<Rightarrow> last (ms_seq s ! cell_index cap position) = position + 1
      | _ \<Rightarrow> True" for tid
  proof (cases "ms_pc s tid")
    case (Push_write payload position todo)
    then have "seq_at cap s (unat position) = unat position"
      using pushing_owner(2) [OF inv, of tid "unat position"] by (simp add: pushing_def)
    then show ?thesis
      using Push_write cell_index_mod [OF cnt] by (simp add: seq_at_def word_unat_eq_iff)
  next
    case (Pop_read dest position r)
    then have own: "popping s tid (unat position)" by (simp add: popping_def)
    have "unat (position + 1) = Suc (unat position)"
      using popping_owner(1) [OF inv own] cnt unat_Suc_word [of position]
      by (simp add: mm_counters_def mpmc_lifetime_def)
    then show ?thesis
      using Pop_read popping_owner(2) [OF inv own] cell_index_mod [OF cnt]
      by (simp add: seq_at_def word_unat_eq_iff)
  qed simp_all
  show "\<forall>h \<in> set (ms_seq s). distinct h"
    using ms_invE(2) [OF inv] by (simp add: mm_cells_def strict_sorted_iff)
qed

theorem mpmc_race_free_witness:
  "\<exists>s. reachable (mpmc_sys_init 1 2) (mpmc_sys_step 1 2) s \<and> claimed_pos (ms_pc s 1) = Some 0 \<and>
     claimed_pos (ms_pc s 2) = Some 1 \<and> 0 mod unat (2 :: u64) \<noteq> 1 mod unat (2 :: u64)"
proof -
  obtain s where s: "reachable (mpmc_sys_init 1 2) (mpmc_sys_step 1 2) s"
      "ms_pc s 1 = Pop_read [0] 0 (Read_done (read_res Success 1 1) [7])"
      "ms_pc s 2 = Push_write [8] 1 (fm_writes [8] 2)"
    using mpmc_example_claims by blast
  have c: "claimed_pos (ms_pc s 1) = Some 0" "claimed_pos (ms_pc s 2) = Some 1" using s by simp_all
  then have "(0 :: nat) mod unat (2 :: u64) \<noteq> 1 mod unat (2 :: u64)"
    using conjunct1 [OF mpmc_race_free [OF s(1)], rule_format, of 1 0 2 1] by simp
  then show ?thesis using s(1) c by blast
qed



text \<open>
  C24: The shared memory is well typed in every reachable state: the cells are as many as the capacity and every
  masked position is the index of one, each cell has a sequence, each message a buffer of the full size
  and a size that fits it, and every pending access of a writer or reader lies inside the message's
  buffer and the caller's destination.
\<close>

theorem mpmc_memory_safe:
  assumes "reachable (mpmc_sys_init N cap) (mpmc_sys_step N cap) s"
  shows "length (ms_seq s) = unat cap \<and> length (ms_msg s) = unat cap \<and> cell_index cap position < unat cap \<and>
    [] \<notin> set (ms_seq s) \<and> list_all (fm_wf N) (ms_msg s) \<and>
    (case ms_pc s tid of
        Push_write payload p todo \<Rightarrow> list_all (write_fits N) todo
      | Pop_read dest p r \<Rightarrow> read_fits N r
      | _ \<Rightarrow> True)"
proof -
  have inv: "ms_inv N cap s" using assms by (rule mpmc_sys.reachable_inv)
  note cnt = ms_invE(1) [OF inv] and cells = ms_invE(2) [OF inv]
  have "cell_index cap position < unat cap"
    using mm_cap_ge_2 [OF cnt] by (simp add: cell_index_mod [OF cnt])
  moreover have "list_all (write_fits N) todo" if "ms_pc s tid = Push_write payload p todo" for payload p todo
  proof -
    have "length payload \<le> N" "set todo \<subseteq> set (fm_writes payload (p + 1))"
      using ms_invE(5) [OF inv, of tid] that by simp_all
    then show ?thesis by (auto simp: list_all_iff fm_writes_def)
  qed
  moreover have "read_fits N r" if "ms_pc s tid = Pop_read dest p r" for dest p r
  proof -
    have "popping s tid (unat p)" using that by (simp add: popping_def)
    from popping_owner(1) [OF inv this] have "unat p < length (ms_log s)"
      using cnt by (auto simp: mm_counters_def)
    then have "length (ms_log s ! unat p) \<le> N" using cells by (simp add: mm_cells_def)
    moreover have "fm_reading (ms_log s ! unat p) (p + 1) dest r" using ms_invE(5) [OF inv, of tid] that by simp
    ultimately show ?thesis by (cases r) (auto simp: copy_n_def)
  qed
  ultimately show ?thesis
    using cnt cells by (cases "ms_pc s tid") (auto simp: mm_counters_def mm_cells_def list_all_iff)
qed

theorem mpmc_memory_safe_witness:
  "\<exists>s. reachable (mpmc_sys_init 1 2) (mpmc_sys_step 1 2) s \<and> ms_pc s 2 = Push_write [8] 1 (fm_writes [8] 2) \<and>
     length (ms_msg s) = 2 \<and> list_all (write_fits 1) (fm_writes [8] 2)"
proof -
  obtain s where s: "reachable (mpmc_sys_init 1 2) (mpmc_sys_step 1 2) s"
      "ms_pc s 2 = Push_write [8] 1 (fm_writes [8] 2)"
    using mpmc_example_claims by blast
  show ?thesis using mpmc_memory_safe [OF s(1), of 0 2] s by auto
qed

end
