(* ===== verification/Blocking_Queue.thy ===== *)
theory Blocking_Queue
  imports Contracts
begin

text \<open>
  \<open>BlockingQueue<T>\<close> (\<open>include/orbitqueue/blocking_queue.h\<close>): the critical section of each
  operation as one function on the state the mutex guards. A blocking call whose wait predicate
  is false has no result yet (\<open>None\<close>); \<open>Blocking_Monitor\<close> has the waiting itself.
\<close>

section \<open>Definitions\<close>

record 'a blocking_queue =
  bq_capacity :: u64
  bq_queue :: "'a list"
  bq_closed :: bool

definition bq_make :: "u64 \<Rightarrow> cpp_exception + 'a blocking_queue" where
  "bq_make capacity =
     (if capacity = 0
      then Inl (Invalid_argument ''BlockingQueue capacity must be greater than zero'')
      else Inr \<lparr>bq_capacity = capacity, bq_queue = [], bq_closed = False\<rparr>)"

text \<open>The predicates of the two condition variables.\<close>

definition bq_can_push :: "'a blocking_queue \<Rightarrow> bool" where
  "bq_can_push q \<longleftrightarrow> bq_closed q \<or> length (bq_queue q) < unat (bq_capacity q)"

definition bq_can_pop :: "'a blocking_queue \<Rightarrow> bool" where
  "bq_can_pop q \<longleftrightarrow> bq_closed q \<or> bq_queue q \<noteq> []"

definition bq_push :: "'a blocking_queue \<Rightarrow> 'a \<Rightarrow> (queue_status \<times> 'a blocking_queue) option" where
  "bq_push q item =
     (if \<not> bq_can_push q then None
      else if bq_closed q then Some (Closed, q)
      else Some (Success, q\<lparr>bq_queue := bq_queue q @ [item]\<rparr>))"

definition bq_try_push :: "'a blocking_queue \<Rightarrow> 'a \<Rightarrow> queue_status \<times> 'a blocking_queue" where
  "bq_try_push q item =
     (if bq_closed q then (Closed, q)
      else if length (bq_queue q) = unat (bq_capacity q) then (Full, q)
      else (Success, q\<lparr>bq_queue := bq_queue q @ [item]\<rparr>))"

definition bq_pop :: "'a blocking_queue \<Rightarrow> ('a option \<times> 'a blocking_queue) option" where
  "bq_pop q =
     (if \<not> bq_can_pop q then None
      else (case bq_queue q of
              [] \<Rightarrow> Some (None, q)
            | item # rest \<Rightarrow> Some (Some item, q\<lparr>bq_queue := rest\<rparr>)))"

definition bq_try_pop ::
    "'a blocking_queue \<Rightarrow> 'a \<Rightarrow> queue_status \<times> 'a \<times> 'a blocking_queue" where
  "bq_try_pop q destination =
     (case bq_queue q of
        [] \<Rightarrow> (if bq_closed q then Closed else Empty, destination, q)
      | item # rest \<Rightarrow> (Success, item, q\<lparr>bq_queue := rest\<rparr>))"

definition bq_close :: "'a blocking_queue \<Rightarrow> 'a blocking_queue" where
  "bq_close q = q\<lparr>bq_closed := True\<rparr>"

subsection \<open>Invariant and client operations\<close>

definition bq_inv :: "'a blocking_queue \<Rightarrow> bool" where
  "bq_inv q \<longleftrightarrow> bq_capacity q \<noteq> 0 \<and> length (bq_queue q) \<le> unat (bq_capacity q)"

definition bq_pop_op :: "'a \<Rightarrow> 'a blocking_queue \<Rightarrow> queue_status \<times> 'a option \<times> 'a blocking_queue" where
  "bq_pop_op dest q = (case bq_try_pop q dest of
     (st, item, q') \<Rightarrow> (st, if ok st then Some item else None, q'))"

text \<open>Popping a queue with blocking calls until it returns \<open>nullopt\<close> or has to wait.\<close>

fun bq_drain :: "nat \<Rightarrow> 'a blocking_queue \<Rightarrow> 'a list \<times> bool" where
  "bq_drain 0 q = ([], False)"
| "bq_drain (Suc n) q =
     (case bq_pop q of
        None \<Rightarrow> ([], False)
      | Some (None, q') \<Rightarrow> ([], True)
      | Some (Some item, q') \<Rightarrow> (case bq_drain n q' of (items, ended) \<Rightarrow> (item # items, ended)))"

section \<open>The bounded FIFO contract\<close>

lemma bq_make_inv: "bq_make capacity = Inr q \<Longrightarrow> bq_inv q \<and> bq_queue q = [] \<and> \<not> bq_closed q"
  by (auto simp: bq_make_def bq_inv_def split: if_splits)

lemma bq_inv_steps:
  assumes "bq_inv q"
  shows "bq_push q x = Some (st, q') \<Longrightarrow> bq_inv q'" "bq_inv (snd (bq_try_push q x))"
    "bq_pop q = Some (y, q') \<Longrightarrow> bq_inv q'" "bq_inv (snd (snd (bq_try_pop q d)))" "bq_inv (bq_close q)"
  using assms
  by (auto simp: bq_inv_def bq_push_def bq_try_push_def bq_pop_def bq_try_pop_def bq_close_def
      bq_can_push_def split: if_splits list.splits)

interpretation bq_fifo: bounded_fifo "\<lambda>q. bq_inv q \<and> \<not> bq_closed q" bq_queue
  "\<lambda>q. unat (bq_capacity q)" "\<lambda>q n. True" "\<lambda>x. True" bq_try_push "bq_pop_op dest" for dest
  by unfold_locales
    (auto simp: bq_inv_def bq_try_push_def bq_pop_op_def bq_try_pop_def ok_def)

lemma bq_pop_closed:
  "bq_closed q \<Longrightarrow> bq_pop q = (case bq_queue q of
       [] \<Rightarrow> Some (None, q) | item # rest \<Rightarrow> Some (Some item, q\<lparr>bq_queue := rest\<rparr>))"
  by (simp add: bq_pop_def bq_can_pop_def)

lemma bq_drain_closed:
  assumes "bq_closed q" "length (bq_queue q) < n"
  shows "bq_drain n q = (bq_queue q, True)"
  using assms
proof (induction n arbitrary: q)
  case (Suc n)
  then show ?case
    by (cases "bq_queue q") (auto simp: bq_pop_closed)
qed simp

section \<open>Properties\<close>

text \<open>
  C18: Any program of \<open>try_push\<close> and \<open>try_pop\<close> calls on a fresh blocking queue is exactly-once
  FIFO and never holds more than \<open>capacity\<close> items.
\<close>

theorem bq_exactly_once_fifo:
  assumes "bq_make capacity = Inr q"
    and "drive bq_try_push (bq_pop_op dest) q ops = (ins, outs, q')"
  shows "ins = outs @ bq_queue q' \<and> length (bq_queue q') \<le> unat capacity"
proof -
  have q: "bq_inv q \<and> \<not> bq_closed q" "bq_queue q = []" "bq_capacity q = capacity"
    using bq_make_inv [OF assms(1)] assms(1) by (auto simp: bq_make_def split: if_splits)
  show ?thesis
    using bq_fifo.drive_conserves [OF q(1) _ _ assms(2)] q(2,3) by (auto simp: bq_inv_def)
qed

theorem bq_exactly_once_fifo_witness:
  "\<exists>q ins outs q'. bq_make 1 = Inr q \<and>
     drive bq_try_push (bq_pop_op 0) q [Op_push (5 :: nat), Op_push 6, Op_pop, Op_push 7] =
       (ins, outs, q') \<and> ins = [5, 7] \<and> outs = [5] \<and> ins = outs @ bq_queue q'"
proof -
  let ?ops = "[Op_push (5 :: nat), Op_push 6, Op_pop, Op_push 7]"
  obtain q :: "nat blocking_queue" where q: "bq_make 1 = Inr q" by (simp add: bq_make_def)
  obtain ins outs q' where d: "drive bq_try_push (bq_pop_op 0) q ?ops = (ins, outs, q')"
    by (metis prod_cases3)
  have "fst (drive bq_try_push (bq_pop_op 0) (projr (bq_make 1)) ?ops) = [5, 7] \<and>
    fst (snd (drive bq_try_push (bq_pop_op 0) (projr (bq_make 1)) ?ops)) = [5]"
    by code_simp
  then have "ins = [5, 7]" "outs = [5]" using q d by simp_all
  then show ?thesis using q d bq_exactly_once_fifo [OF q d] by blast
qed

text \<open>
  C19: Closing is a graceful drain: after \<open>close\<close> every push is refused with \<open>closed\<close>, and
  blocking pops return all queued items in order and then \<open>nullopt\<close>, without ever waiting.
\<close>

theorem bq_close_drains:
  assumes "length (bq_queue q) < n"
  shows "bq_push (bq_close q) x = Some (Closed, bq_close q) \<and>
    bq_try_push (bq_close q) x = (Closed, bq_close q) \<and>
    bq_drain n (bq_close q) = (bq_queue q, True)"
  using assms bq_drain_closed [of "bq_close q" n]
  by (simp add: bq_push_def bq_can_push_def bq_try_push_def bq_close_def)

theorem bq_close_drains_witness:
  "bq_drain 3 (bq_close \<lparr>bq_capacity = 2, bq_queue = [5 :: nat, 6], bq_closed = False\<rparr>) = ([5, 6], True)"
  using bq_close_drains [of "\<lparr>bq_capacity = 2, bq_queue = [5 :: nat, 6], bq_closed = False\<rparr>" 3 0] by simp

end
