(* ===== verification/Blocking_Monitor.thy ===== *)
theory Blocking_Monitor
  imports Blocking_Queue
begin

text \<open>
  Any number of threads on one \<open>BlockingQueue\<close>. A critical section is one step (the mutex
  excludes the others); waiting on a condition variable, being notified, and the notifications
  that \<open>push\<close>, \<open>pop\<close> and \<open>close\<close> send after unlocking are steps of their own, so that other threads
  run in between. \<open>notify_one\<close> wakes an arbitrary waiter if there is one, and a waiter may wake up
  spuriously at any time; a woken thread tests its predicate again.

  \<open>bs_in\<close> and \<open>bs_out\<close> list the items pushed and popped, in order; no guard reads them.
\<close>

section \<open>Definitions\<close>

datatype 'a bq_result = R_status queue_status | R_item "'a option" | R_unit

datatype 'a bq_pc =
    B_idle
  | B_push 'a
  | B_push_wait 'a
  | B_push_notify
  | B_pop
  | B_pop_wait
  | B_pop_notify 'a
  | B_close_not_empty
  | B_close_not_full
  | B_done "'a bq_result"

record 'a bq_sys =
  bs_q :: "'a blocking_queue"
  bs_pc :: "nat \<Rightarrow> 'a bq_pc"
  bs_in :: "'a list"
  bs_out :: "'a list"

text \<open>The waiters of \<open>not_empty_\<close> and \<open>not_full_\<close>, woken.\<close>

fun wake_pop :: "'a bq_pc \<Rightarrow> 'a bq_pc" where
  "wake_pop B_pop_wait = B_pop"
| "wake_pop c = c"

fun wake_push :: "'a bq_pc \<Rightarrow> 'a bq_pc" where
  "wake_push (B_push_wait x) = B_push x"
| "wake_push c = c"

definition notify_one :: "('c \<Rightarrow> 'c) \<Rightarrow> (nat \<Rightarrow> 'c) \<Rightarrow> (nat \<Rightarrow> 'c) \<Rightarrow> bool" where
  "notify_one wake f g \<longleftrightarrow>
     (\<exists>t. wake (f t) \<noteq> f t \<and> g = f(t := wake (f t))) \<or> ((\<forall>t. wake (f t) = f t) \<and> g = f)"

definition notify_all :: "('c \<Rightarrow> 'c) \<Rightarrow> (nat \<Rightarrow> 'c) \<Rightarrow> nat \<Rightarrow> 'c" where
  "notify_all wake f = (\<lambda>t. wake (f t))"

definition bq_sys_init :: "u64 \<Rightarrow> 'a bq_sys \<Rightarrow> bool" where
  "bq_sys_init capacity s \<longleftrightarrow> (\<exists>q. bq_make capacity = Inr q \<and>
     s = \<lparr>bs_q = q, bs_pc = (\<lambda>_. B_idle), bs_in = [], bs_out = []\<rparr>)"

inductive bq_step :: "nat \<Rightarrow> 'a bq_sys \<Rightarrow> 'a bq_sys \<Rightarrow> bool" for tid where
  call_push: "bs_pc s tid = B_idle \<Longrightarrow> bq_step tid s (s\<lparr>bs_pc := (bs_pc s)(tid := B_push x)\<rparr>)"
| push_wait: "bs_pc s tid = B_push x \<Longrightarrow> bq_push (bs_q s) x = None \<Longrightarrow>
    bq_step tid s (s\<lparr>bs_pc := (bs_pc s)(tid := B_push_wait x)\<rparr>)"
| push_closed: "bs_pc s tid = B_push x \<Longrightarrow> bq_push (bs_q s) x = Some (Closed, q) \<Longrightarrow>
    bq_step tid s (s\<lparr>bs_q := q, bs_pc := (bs_pc s)(tid := B_done (R_status Closed))\<rparr>)"
| push_done: "bs_pc s tid = B_push x \<Longrightarrow> bq_push (bs_q s) x = Some (Success, q) \<Longrightarrow>
    bq_step tid s
      (s\<lparr>bs_q := q, bs_in := bs_in s @ [x], bs_pc := (bs_pc s)(tid := B_push_notify)\<rparr>)"
| push_notify: "bs_pc s tid = B_push_notify \<Longrightarrow> notify_one wake_pop (bs_pc s) f \<Longrightarrow>
    bq_step tid s (s\<lparr>bs_pc := f(tid := B_done (R_status Success))\<rparr>)"
| push_spurious: "bs_pc s tid = B_push_wait x \<Longrightarrow>
    bq_step tid s (s\<lparr>bs_pc := (bs_pc s)(tid := B_push x)\<rparr>)"
| try_push_fail: "bs_pc s tid = B_idle \<Longrightarrow> bq_try_push (bs_q s) x = (st, q) \<Longrightarrow> st \<noteq> Success \<Longrightarrow>
    bq_step tid s (s\<lparr>bs_q := q, bs_pc := (bs_pc s)(tid := B_done (R_status st))\<rparr>)"
| try_push_done: "bs_pc s tid = B_idle \<Longrightarrow> bq_try_push (bs_q s) x = (Success, q) \<Longrightarrow>
    notify_one wake_pop (bs_pc s) f \<Longrightarrow>
    bq_step tid s
      (s\<lparr>bs_q := q, bs_in := bs_in s @ [x], bs_pc := f(tid := B_done (R_status Success))\<rparr>)"
| call_pop: "bs_pc s tid = B_idle \<Longrightarrow> bq_step tid s (s\<lparr>bs_pc := (bs_pc s)(tid := B_pop)\<rparr>)"
| pop_wait: "bs_pc s tid = B_pop \<Longrightarrow> bq_pop (bs_q s) = None \<Longrightarrow>
    bq_step tid s (s\<lparr>bs_pc := (bs_pc s)(tid := B_pop_wait)\<rparr>)"
| pop_closed: "bs_pc s tid = B_pop \<Longrightarrow> bq_pop (bs_q s) = Some (None, q) \<Longrightarrow>
    bq_step tid s (s\<lparr>bs_q := q, bs_pc := (bs_pc s)(tid := B_done (R_item None))\<rparr>)"
| pop_done: "bs_pc s tid = B_pop \<Longrightarrow> bq_pop (bs_q s) = Some (Some x, q) \<Longrightarrow>
    bq_step tid s
      (s\<lparr>bs_q := q, bs_out := bs_out s @ [x], bs_pc := (bs_pc s)(tid := B_pop_notify x)\<rparr>)"
| pop_notify: "bs_pc s tid = B_pop_notify x \<Longrightarrow> notify_one wake_push (bs_pc s) f \<Longrightarrow>
    bq_step tid s (s\<lparr>bs_pc := f(tid := B_done (R_item (Some x)))\<rparr>)"
| pop_spurious: "bs_pc s tid = B_pop_wait \<Longrightarrow>
    bq_step tid s (s\<lparr>bs_pc := (bs_pc s)(tid := B_pop)\<rparr>)"
| try_pop_fail: "bs_pc s tid = B_idle \<Longrightarrow> bq_try_pop (bs_q s) d = (st, d', q) \<Longrightarrow> st \<noteq> Success \<Longrightarrow>
    bq_step tid s (s\<lparr>bs_q := q, bs_pc := (bs_pc s)(tid := B_done (R_status st))\<rparr>)"
| try_pop_done: "bs_pc s tid = B_idle \<Longrightarrow> bq_try_pop (bs_q s) d = (Success, x, q) \<Longrightarrow>
    notify_one wake_push (bs_pc s) f \<Longrightarrow>
    bq_step tid s
      (s\<lparr>bs_q := q, bs_out := bs_out s @ [x], bs_pc := f(tid := B_done (R_status Success))\<rparr>)"
| close_begin: "bs_pc s tid = B_idle \<Longrightarrow>
    bq_step tid s (s\<lparr>bs_q := bq_close (bs_q s), bs_pc := (bs_pc s)(tid := B_close_not_empty)\<rparr>)"
| close_not_empty: "bs_pc s tid = B_close_not_empty \<Longrightarrow>
    bq_step tid s (s\<lparr>bs_pc := (notify_all wake_pop (bs_pc s))(tid := B_close_not_full)\<rparr>)"
| close_not_full: "bs_pc s tid = B_close_not_full \<Longrightarrow>
    bq_step tid s (s\<lparr>bs_pc := (notify_all wake_push (bs_pc s))(tid := B_done R_unit)\<rparr>)"
| return: "bs_pc s tid = B_done r \<Longrightarrow> bq_step tid s (s\<lparr>bs_pc := (bs_pc s)(tid := B_idle)\<rparr>)"

definition bq_sys_step :: "'a bq_sys \<Rightarrow> 'a bq_sys \<Rightarrow> bool" where
  "bq_sys_step s t \<longleftrightarrow> (\<exists>tid. bq_step tid s t)"

subsection \<open>Invariant\<close>

definition threads :: "('c \<Rightarrow> bool) \<Rightarrow> (nat \<Rightarrow> 'c) \<Rightarrow> nat" where
  "threads P f = card {t. P (f t)}"

fun is_push_wait :: "'a bq_pc \<Rightarrow> bool" where
  "is_push_wait (B_push_wait x) = True"
| "is_push_wait _ = False"

text \<open>
  No lost wake-up on a condition variable: while a thread waits, there are at least as many
  helpers (woken threads that will test the predicate, and threads about to notify) as there are
  waiters the state could serve (\<open>n\<close>); after \<open>close\<close>, some thread is still about to wake all.
\<close>

definition wakeups ::
    "('c \<Rightarrow> bool) \<Rightarrow> ('c \<Rightarrow> bool) \<Rightarrow> ('c \<Rightarrow> bool) \<Rightarrow> bool \<Rightarrow> nat \<Rightarrow> (nat \<Rightarrow> 'c) \<Rightarrow> bool" where
  "wakeups waits helps closing closed n f \<longleftrightarrow> (\<exists>t. waits (f t)) \<longrightarrow>
     (if closed then \<exists>t. closing (f t) else n \<le> threads helps f)"

fun helps_pop :: "'a bq_pc \<Rightarrow> bool" where
  "helps_pop B_pop = True"
| "helps_pop B_push_notify = True"
| "helps_pop _ = False"

fun helps_push :: "'a bq_pc \<Rightarrow> bool" where
  "helps_push (B_push x) = True"
| "helps_push (B_pop_notify x) = True"
| "helps_push _ = False"

fun closing :: "'a bq_pc \<Rightarrow> bool" where
  "closing B_close_not_empty = True"
| "closing B_close_not_full = True"
| "closing _ = False"

definition pop_wakeups :: "'a blocking_queue \<Rightarrow> (nat \<Rightarrow> 'a bq_pc) \<Rightarrow> bool" where
  "pop_wakeups q = wakeups (\<lambda>c. c = B_pop_wait) helps_pop (\<lambda>c. c = B_close_not_empty)
     (bq_closed q) (length (bq_queue q))"

definition push_wakeups :: "'a blocking_queue \<Rightarrow> (nat \<Rightarrow> 'a bq_pc) \<Rightarrow> bool" where
  "push_wakeups q = wakeups is_push_wait helps_push closing
     (bq_closed q) (unat (bq_capacity q) - length (bq_queue q))"

definition bs_inv :: "u64 \<Rightarrow> 'a bq_sys \<Rightarrow> bool" where
  "bs_inv capacity s \<longleftrightarrow> bq_inv (bs_q s) \<and> bq_capacity (bs_q s) = capacity \<and>
     bs_in s = bs_out s @ bq_queue (bs_q s) \<and> finite {t. bs_pc s t \<noteq> B_idle} \<and>
     (\<forall>t. closing (bs_pc s t) \<longrightarrow> bq_closed (bs_q s)) \<and>
     pop_wakeups (bs_q s) (bs_pc s) \<and> push_wakeups (bs_q s) (bs_pc s)"

section \<open>Counting threads\<close>

lemma threads_finite:
  assumes "finite {t. f t \<noteq> B_idle}" "\<not> P B_idle"
  shows "finite {t. P (f t)}"
  by (rule finite_subset [OF _ assms(1)]) (use assms(2) in auto)

lemma threads_update:
  assumes "finite {t. f t \<noteq> B_idle}" "\<not> P B_idle"
  shows "threads P (f(t := c)) + of_bool (P (f t)) = threads P f + of_bool (P c)"
proof -
  have fin: "finite {t. P (f t)}" by (rule threads_finite) fact+
  have "{u. P ((f(t := c)) u)} = (if P c then insert t ({u. P (f u)} - {t}) else {u. P (f u)} - {t})"
    by auto
  moreover have "P (f t) \<Longrightarrow> 0 < card {u. P (f u)}" using fin by (auto simp: card_gt_0_iff)
  ultimately show ?thesis
    using fin by (auto simp: threads_def card_Diff_singleton_if insert_absorb)
qed

lemma finite_update:
  "finite {t. f t \<noteq> B_idle} \<Longrightarrow> finite {t. (f(u := c)) t \<noteq> B_idle}"
  by (rule finite_subset [of _ "insert u {t. f t \<noteq> B_idle}"]) auto

lemma wakeups_update:
  assumes fin: "finite {t. f t \<noteq> B_idle}" and idle: "\<not> helps B_idle"
    and old: "wakeups waits helps clos closed n f"
    and waits: "waits c \<Longrightarrow> \<not> closed \<and> n' = 0" and clos: "clos (f t) \<Longrightarrow> clos c"
    and bal: "\<not> closed \<Longrightarrow> \<not> waits c \<Longrightarrow> n' + of_bool (helps (f t)) \<le> n + of_bool (helps c)"
  shows "wakeups waits helps clos closed n' (f(t := c))"
proof (cases "waits c")
  case True
  then show ?thesis using waits by (simp add: wakeups_def)
next
  case False
  show ?thesis
    unfolding wakeups_def
  proof
    assume "\<exists>u. waits ((f(t := c)) u)"
    then have "\<exists>u. waits (f u)" using False by (auto split: if_splits)
    then have old: "if closed then \<exists>u. clos (f u) else n \<le> threads helps f"
      using old by (simp add: wakeups_def)
    have "\<exists>u. clos ((f(t := c)) u)" if "clos (f u)" for u
      using that clos by (cases "u = t") auto
    moreover have "threads helps (f(t := c)) + of_bool (helps (f t)) = threads helps f + of_bool (helps c)"
      by (rule threads_update) fact+
    ultimately show "if closed then \<exists>u. clos ((f(t := c)) u) else n' \<le> threads helps (f(t := c))"
      using old bal False by (cases closed) (simp_all del: fun_upd_apply, blast)
  qed
qed

text \<open>A notification on the waiters' own condition variable adds a helper, if anyone waits.\<close>

lemma wakeups_notify:
  assumes fin: "finite {t. f t \<noteq> B_idle}" and idle: "\<not> helps B_idle"
    and old: "wakeups waits helps clos closed n f" and notify: "notify_one wake f g"
    and wake: "\<And>d. wake d \<noteq> d \<longleftrightarrow> waits d"
      "\<And>d. waits d \<Longrightarrow> helps (wake d) \<and> \<not> helps d \<and> \<not> waits (wake d) \<and> \<not> clos d"
    and pcs: "\<not> waits (f t)" "\<not> waits c" "clos (f t) \<Longrightarrow> clos c"
    and bal: "n' + of_bool (helps (f t)) \<le> n + 1 + of_bool (helps c)"
  shows "wakeups waits helps clos closed n' (g(t := c))"
proof (cases "\<exists>u. waits (f u)")
  case True
  then obtain u where u: "waits (f u)" "g = f(u := wake (f u))"
    using notify wake(1) by (auto simp: notify_one_def)
  have ut: "u \<noteq> t" using u(1) pcs(1) by auto
  have g: "wakeups waits helps clos closed (n + 1) g"
    unfolding u(2) using wake(2) [OF u(1)]
    by (intro wakeups_update [where helps = helps and n = n, OF fin idle old]) auto
  have "g t = f t" using ut u(2) by simp
  moreover have "finite {t. g t \<noteq> B_idle}" unfolding u(2) by (rule finite_update [OF fin])
  ultimately show ?thesis
    using pcs bal by (intro wakeups_update [where helps = helps, OF _ idle g]) auto
next
  case False
  then have "g = f" using notify wake(1) by (auto simp: notify_one_def)
  then show ?thesis using False pcs(2) by (auto simp: wakeups_def split: if_splits)
qed

text \<open>A notification on the other condition variable changes nothing here.\<close>

lemma wakeups_notify_other:
  assumes fin: "finite {t. f t \<noteq> B_idle}" and idle: "\<not> helps B_idle"
    and old: "wakeups waits helps clos closed n f" and notify: "notify_one wake f g"
    and wake: "\<And>d. wake d \<noteq> d \<Longrightarrow> \<not> helps d \<and> \<not> waits (wake d) \<and> \<not> clos d"
    and pcs: "wake (f t) = f t" "\<not> waits c" "clos (f t) \<Longrightarrow> clos c"
    and bal: "n' + of_bool (helps (f t)) \<le> n + of_bool (helps c)"
  shows "wakeups waits helps clos closed n' (g(t := c))"
proof -
  have "wakeups waits helps clos closed n g \<and> g t = f t \<and> finite {t. g t \<noteq> B_idle}"
  proof (cases "g = f")
    case True
    then show ?thesis using old fin by simp
  next
    case False
    then obtain u where u: "wake (f u) \<noteq> f u" "g = f(u := wake (f u))"
      using notify by (auto simp: notify_one_def)
    then have "g t = f t" using pcs(1) by auto
    moreover have "finite {t. g t \<noteq> B_idle}" unfolding u(2) by (rule finite_update [OF fin])
    moreover have "wakeups waits helps clos closed n g"
      unfolding u(2) using wake [OF u(1)]
      by (intro wakeups_update [where helps = helps and n = n, OF fin idle old]) auto
    ultimately show ?thesis by blast
  qed
  then show ?thesis
    using pcs bal by (intro wakeups_update [where helps = helps and n = n, OF _ idle]) auto
qed

section \<open>Every step keeps the invariant\<close>

lemma bq_push_None: "bq_push q x = None \<longleftrightarrow> \<not> bq_closed q \<and> unat (bq_capacity q) \<le> length (bq_queue q)"
  by (auto simp: bq_push_def bq_can_push_def)

lemma bq_push_Success: "bq_push q x = Some (Success, q') \<longleftrightarrow>
    \<not> bq_closed q \<and> length (bq_queue q) < unat (bq_capacity q) \<and> q' = q\<lparr>bq_queue := bq_queue q @ [x]\<rparr>"
  by (auto simp: bq_push_def bq_can_push_def)

lemma bq_push_Closed: "bq_push q x = Some (Closed, q') \<longleftrightarrow> bq_closed q \<and> q' = q"
  by (auto simp: bq_push_def bq_can_push_def)

lemma bq_pop_None: "bq_pop q = None \<longleftrightarrow> \<not> bq_closed q \<and> bq_queue q = []"
  by (auto simp: bq_pop_def bq_can_pop_def split: list.splits)

lemma bq_pop_end: "bq_pop q = Some (None, q') \<longleftrightarrow> bq_closed q \<and> bq_queue q = [] \<and> q' = q"
  by (auto simp: bq_pop_def bq_can_pop_def split: list.splits)

lemma bq_pop_item: "bq_pop q = Some (Some x, q') \<longleftrightarrow>
    (\<exists>rest. bq_queue q = x # rest \<and> q' = q\<lparr>bq_queue := rest\<rparr>)"
  by (auto simp: bq_pop_def bq_can_pop_def split: list.splits)

lemma bq_try_push_Success: "bq_inv q \<Longrightarrow> bq_try_push q x = (Success, q') \<longleftrightarrow>
    \<not> bq_closed q \<and> length (bq_queue q) < unat (bq_capacity q) \<and> q' = q\<lparr>bq_queue := bq_queue q @ [x]\<rparr>"
  by (auto simp: bq_try_push_def bq_inv_def)

lemma bq_try_push_fail: "bq_try_push q x = (st, q') \<Longrightarrow> st \<noteq> Success \<Longrightarrow> q' = q"
  by (auto simp: bq_try_push_def split: if_splits)

lemma bq_try_pop_Success: "bq_try_pop q d = (Success, x, q') \<longleftrightarrow>
    (\<exists>rest. bq_queue q = x # rest \<and> q' = q\<lparr>bq_queue := rest\<rparr>)"
  by (auto simp: bq_try_pop_def split: list.splits)

lemma bq_try_pop_fail: "bq_try_pop q d = (st, d', q') \<Longrightarrow> st \<noteq> Success \<Longrightarrow> q' = q"
  by (auto simp: bq_try_pop_def split: list.splits)

lemmas bq_results = bq_push_None bq_push_Success bq_push_Closed bq_pop_None bq_pop_end bq_pop_item
  bq_try_pop_Success

lemma wake_helpers [simp]:
  "wake_pop d = d \<longleftrightarrow> d \<noteq> B_pop_wait" "wake_push e = e \<longleftrightarrow> \<not> is_push_wait e"
  "is_push_wait e \<Longrightarrow> helps_push (wake_push e) \<and> \<not> helps_push e \<and> \<not> is_push_wait (wake_push e) \<and> \<not> closing e"
  by (cases d; simp) (cases e; simp)+

lemma wake_sleeps [simp]:
  "wake_pop d \<noteq> B_pop_wait" "\<not> is_push_wait (wake_push e)"
  "wake_push e = B_pop_wait \<longleftrightarrow> e = B_pop_wait" "is_push_wait (wake_pop d) \<longleftrightarrow> is_push_wait d"
  by ((cases d; simp), (cases e; simp)+, (cases d; simp))

lemma notify_one_sleeps:
  "notify_one wake_pop f g \<Longrightarrow> (g t = B_pop_wait \<longrightarrow> f t = B_pop_wait) \<and> (is_push_wait (g t) \<longrightarrow> is_push_wait (f t))"
  "notify_one wake_push f g \<Longrightarrow> (g t = B_pop_wait \<longrightarrow> f t = B_pop_wait) \<and> (is_push_wait (g t) \<longrightarrow> is_push_wait (f t))"
  unfolding notify_one_def by (metis fun_upd_apply wake_sleeps)+

text \<open>A step of one thread that notifies nobody.\<close>

lemma bs_inv_update:
  assumes inv: "bs_inv cap s" and q: "bq_inv q" "bq_capacity q = cap" "bq_closed q = bq_closed (bs_q s)"
    and log: "ins = outs @ bq_queue q" and clos: "closing c \<Longrightarrow> bq_closed q"
    and pop: "c = B_pop_wait \<Longrightarrow> \<not> bq_closed q \<and> bq_queue q = []"
      "\<not> bq_closed q \<Longrightarrow> c \<noteq> B_pop_wait \<Longrightarrow>
         length (bq_queue q) + of_bool (helps_pop (bs_pc s t)) \<le> length (bq_queue (bs_q s)) + of_bool (helps_pop c)"
    and push: "is_push_wait c \<Longrightarrow> \<not> bq_closed q \<and> unat cap \<le> length (bq_queue q)"
      "\<not> bq_closed q \<Longrightarrow> \<not> is_push_wait c \<Longrightarrow>
         unat cap - length (bq_queue q) + of_bool (helps_push (bs_pc s t)) \<le> unat cap - length (bq_queue (bs_q s)) + of_bool (helps_push c)"
    and old: "\<not> closing (bs_pc s t)"
  shows "bs_inv cap (s\<lparr>bs_q := q, bs_in := ins, bs_out := outs, bs_pc := (bs_pc s)(t := c)\<rparr>)"
proof -
  let ?f = "bs_pc s"
  have fin: "finite {t. ?f t \<noteq> B_idle}" and pw: "pop_wakeups (bs_q s) ?f"
    and uw: "push_wakeups (bs_q s) ?f" and cap: "bq_capacity (bs_q s) = cap"
    using inv by (simp_all add: bs_inv_def)
  have "pop_wakeups q (?f(t := c))"
    unfolding pop_wakeups_def q(3)
    by (rule wakeups_update [OF fin _ pw [unfolded pop_wakeups_def]]) (use pop q(3) old in auto)
  moreover have "push_wakeups q (?f(t := c))"
    unfolding push_wakeups_def q(3)
    by (rule wakeups_update [OF fin _ uw [unfolded push_wakeups_def]]) (use push q cap old in auto)
  moreover have "\<forall>u. closing ((?f(t := c)) u) \<longrightarrow> bq_closed q"
    using inv clos q(3) by (auto simp: bs_inv_def)
  ultimately show ?thesis
    using q(1,2) log finite_update [OF fin] by (simp add: bs_inv_def del: fun_upd_apply)
qed

text \<open>A step that notifies one waiter of \<open>not_empty_\<close>, respectively \<open>not_full_\<close>.\<close>

lemma finite_notify:
  "notify_one wake f g \<Longrightarrow> finite {t. f t \<noteq> B_idle} \<Longrightarrow> finite {t. (g(u := c)) t \<noteq> B_idle}"
  using finite_update [of f] finite_update [of g u c] by (auto simp: notify_one_def simp del: fun_upd_apply)

lemma closing_notify:
  assumes "notify_one wake f g" "\<forall>t. closing (f t) \<longrightarrow> b" "\<not> closing c"
    and "\<And>d. wake d \<noteq> d \<Longrightarrow> \<not> closing (wake d)"
  shows "\<forall>t. closing ((g(u := c)) t) \<longrightarrow> b"
  using assms by (auto simp: notify_one_def split: if_splits)

lemma bs_inv_notify_pop:
  assumes inv: "bs_inv cap s" and q: "bq_inv q" "bq_capacity q = cap" "bq_closed q = bq_closed (bs_q s)"
    and log: "ins = outs @ bq_queue q" and notify: "notify_one wake_pop (bs_pc s) f"
    and pcs: "bs_pc s t = B_push_notify \<and> bq_queue q = bq_queue (bs_q s) \<or>
      bs_pc s t = B_idle \<and> length (bq_queue q) = Suc (length (bq_queue (bs_q s)))"
  shows "bs_inv cap (s\<lparr>bs_q := q, bs_in := ins, bs_out := outs, bs_pc := f(t := B_done r)\<rparr>)"
proof -
  have fin: "finite {t. bs_pc s t \<noteq> B_idle}" and pw: "pop_wakeups (bs_q s) (bs_pc s)"
    and uw: "push_wakeups (bs_q s) (bs_pc s)" and cap: "bq_capacity (bs_q s) = cap"
    and cl: "\<forall>t. closing (bs_pc s t) \<longrightarrow> bq_closed (bs_q s)"
    using inv by (simp_all add: bs_inv_def)
  have "pop_wakeups q (f(t := B_done r))"
    unfolding pop_wakeups_def q(3)
    by (rule wakeups_notify [OF fin _ pw [unfolded pop_wakeups_def] notify])
      (use pcs in auto)
  moreover have "push_wakeups q (f(t := B_done r))"
    unfolding push_wakeups_def q(3)
    by (rule wakeups_notify_other [OF fin _ uw [unfolded push_wakeups_def] notify])
      (use pcs q cap in auto)
  moreover have "\<forall>u. closing ((f(t := B_done r)) u) \<longrightarrow> bq_closed q"
    unfolding q(3) by (rule closing_notify [OF notify cl]) auto
  ultimately show ?thesis
    using q(1,2) log finite_notify [OF notify fin] by (simp add: bs_inv_def del: fun_upd_apply)
qed

lemma bs_inv_notify_push:
  assumes inv: "bs_inv cap s" and q: "bq_inv q" "bq_capacity q = cap" "bq_closed q = bq_closed (bs_q s)"
    and log: "ins = outs @ bq_queue q" and notify: "notify_one wake_push (bs_pc s) f"
    and pcs: "(\<exists>x. bs_pc s t = B_pop_notify x) \<and> bq_queue q = bq_queue (bs_q s) \<or>
      bs_pc s t = B_idle \<and> Suc (length (bq_queue q)) = length (bq_queue (bs_q s))"
  shows "bs_inv cap (s\<lparr>bs_q := q, bs_in := ins, bs_out := outs, bs_pc := f(t := B_done r)\<rparr>)"
proof -
  have fin: "finite {t. bs_pc s t \<noteq> B_idle}" and pw: "pop_wakeups (bs_q s) (bs_pc s)"
    and uw: "push_wakeups (bs_q s) (bs_pc s)" and cap: "bq_capacity (bs_q s) = cap"
    and cl: "\<forall>t. closing (bs_pc s t) \<longrightarrow> bq_closed (bs_q s)"
    using inv by (simp_all add: bs_inv_def)
  have woken: "\<not> closing (wake_push d) \<and> \<not> helps_pop d \<and> wake_push d \<noteq> B_pop_wait \<and> d \<noteq> B_close_not_empty"
    if "is_push_wait d" for d :: "'a bq_pc"
    using that by (cases d) auto
  have "push_wakeups q (f(t := B_done r))"
    unfolding push_wakeups_def q(3)
    by (rule wakeups_notify [OF fin _ uw [unfolded push_wakeups_def] notify])
      (use pcs cap q in auto)
  moreover have "pop_wakeups q (f(t := B_done r))"
    unfolding pop_wakeups_def q(3)
    by (rule wakeups_notify_other [OF fin _ pw [unfolded pop_wakeups_def] notify])
      (use pcs woken in auto)
  moreover have "\<forall>u. closing ((f(t := B_done r)) u) \<longrightarrow> bq_closed q"
    unfolding q(3) by (rule closing_notify [OF notify cl]) (use woken in auto)
  ultimately show ?thesis
    using q(1,2) log finite_notify [OF notify fin] by (simp add: bs_inv_def del: fun_upd_apply)
qed

lemma bs_same:
  "s\<lparr>bs_pc := f\<rparr> = s\<lparr>bs_q := bs_q s, bs_in := bs_in s, bs_out := bs_out s, bs_pc := f\<rparr>"
  "s\<lparr>bs_q := q, bs_pc := f\<rparr> = s\<lparr>bs_q := q, bs_in := bs_in s, bs_out := bs_out s, bs_pc := f\<rparr>"
  "s\<lparr>bs_q := q, bs_in := ins, bs_pc := f\<rparr> = s\<lparr>bs_q := q, bs_in := ins, bs_out := bs_out s, bs_pc := f\<rparr>"
  "s\<lparr>bs_q := q, bs_out := outs, bs_pc := f\<rparr> = s\<lparr>bs_q := q, bs_in := bs_in s, bs_out := outs, bs_pc := f\<rparr>"
  by (cases s; simp)+

lemma finite_notify_all:
  assumes "finite {t. f t \<noteq> B_idle}" "wake B_idle = B_idle"
  shows "finite {t. ((notify_all wake f)(u := c)) t \<noteq> B_idle}"
  by (rule finite_subset [of _ "insert u {t. f t \<noteq> B_idle}"]) (use assms in \<open>auto simp: notify_all_def\<close>)

lemma bs_inv_close_not_empty:
  assumes inv: "bs_inv cap s" and pc: "bs_pc s t = B_close_not_empty"
  shows "bs_inv cap (s\<lparr>bs_pc := (notify_all wake_pop (bs_pc s))(t := B_close_not_full)\<rparr>)"
proof -
  let ?g = "(notify_all wake_pop (bs_pc s))(t := B_close_not_full)"
  have "closing (bs_pc s t)" using pc by simp
  then have closed: "bq_closed (bs_q s)" using inv unfolding bs_inv_def by blast
  have "pop_wakeups (bs_q s) ?g"
  proof -
    have "wake_pop d \<noteq> B_pop_wait" for d :: "'a bq_pc" by (cases d) simp_all
    then show ?thesis by (auto simp: pop_wakeups_def wakeups_def notify_all_def)
  qed
  moreover have "push_wakeups (bs_q s) ?g"
    using closed by (auto simp: push_wakeups_def wakeups_def intro: exI [of _ t])
  ultimately show ?thesis
    using inv closed finite_notify_all [of "bs_pc s" wake_pop t B_close_not_full]
    by (simp add: bs_inv_def del: fun_upd_apply)
qed

lemma bs_inv_close_not_full:
  assumes inv: "bs_inv cap s" and pc: "bs_pc s t = B_close_not_full"
  shows "bs_inv cap (s\<lparr>bs_pc := (notify_all wake_push (bs_pc s))(t := B_done R_unit)\<rparr>)"
proof -
  let ?g = "(notify_all wake_push (bs_pc s))(t := B_done R_unit)"
  have "closing (bs_pc s t)" using pc by simp
  then have closed: "bq_closed (bs_q s)" using inv unfolding bs_inv_def by blast
  have wake: "\<not> is_push_wait (wake_push d)" "wake_push d = B_pop_wait \<longleftrightarrow> d = B_pop_wait"
    for d :: "'a bq_pc"
    by (cases d; simp)+
  have "push_wakeups (bs_q s) ?g"
    using wake(1) by (auto simp: push_wakeups_def wakeups_def notify_all_def)
  moreover have "pop_wakeups (bs_q s) ?g"
  proof -
    have "\<exists>u. ?g u = B_close_not_empty" if "?g u = B_pop_wait" for u
    proof -
      have "bs_pc s u = B_pop_wait" using that wake(2) by (auto simp: notify_all_def split: if_splits)
      then obtain v where "bs_pc s v = B_close_not_empty"
        using inv closed by (auto simp: bs_inv_def pop_wakeups_def wakeups_def)
      then show ?thesis using pc by (intro exI [of _ v]) (auto simp: notify_all_def)
    qed
    then show ?thesis
      using closed by (auto simp: pop_wakeups_def wakeups_def simp del: fun_upd_apply)
  qed
  ultimately show ?thesis
    using inv closed finite_notify_all [of "bs_pc s" wake_push t "B_done R_unit"]
    by (simp add: bs_inv_def del: fun_upd_apply)
qed

lemma bs_inv_close_begin:
  assumes inv: "bs_inv cap s"
  shows "bs_inv cap (s\<lparr>bs_q := bq_close (bs_q s), bs_pc := (bs_pc s)(t := B_close_not_empty)\<rparr>)"
proof -
  have "finite {t. bs_pc s t \<noteq> B_idle}" using inv by (simp add: bs_inv_def)
  then have "finite {u. ((bs_pc s)(t := B_close_not_empty)) u \<noteq> B_idle}" by (rule finite_update)
  then show ?thesis
    using inv bq_inv_steps(5) [of "bs_q s"]
    by (auto simp: bs_inv_def bq_close_def pop_wakeups_def push_wakeups_def wakeups_def
        intro: exI [of _ t])
qed

lemma bs_inv_step:
  assumes step: "bq_step t s s'" and inv: "bs_inv cap s"
  shows "bs_inv cap s'"
proof -
  have q: "bq_inv (bs_q s)" "bq_capacity (bs_q s) = cap" "bs_in s = bs_out s @ bq_queue (bs_q s)"
    using inv by (simp_all add: bs_inv_def)
  have keep: "bs_inv cap (s\<lparr>bs_pc := (bs_pc s)(t := c)\<rparr>)"
    if "\<not> closing c" "c \<noteq> B_pop_wait" "\<not> is_push_wait c" "\<not> closing (bs_pc s t)"
      "\<not> bq_closed (bs_q s) \<Longrightarrow> helps_pop (bs_pc s t) \<Longrightarrow> helps_pop c"
      "\<not> bq_closed (bs_q s) \<Longrightarrow> helps_push (bs_pc s t) \<Longrightarrow> helps_push c" for c
    unfolding bs_same(1) [where s = s] using that q by (intro bs_inv_update [OF inv]) auto
  from step show ?thesis
  proof cases
    case (push_wait x)
    then show ?thesis
      unfolding push_wait(1) bs_same(1) [where s = s] using q by (intro bs_inv_update [OF inv]) (auto simp: bq_results)
  next
    case (push_done x q')
    then show ?thesis
      unfolding push_done(1) bs_same(3) [where s = s] using q
      by (intro bs_inv_update [OF inv]) (auto simp: bq_results bq_inv_def)
  next
    case (push_notify f)
    then show ?thesis
      unfolding push_notify(1) bs_same(1) [where s = s] using q by (intro bs_inv_notify_pop [OF inv]) auto
  next
    case (try_push_done x q' f)
    then show ?thesis
      unfolding try_push_done(1) bs_same(3) [where s = s] using q bq_try_push_Success [OF q(1)]
      by (intro bs_inv_notify_pop [OF inv]) (auto simp: bq_inv_def)
  next
    case pop_wait
    then show ?thesis
      unfolding pop_wait(1) bs_same(1) [where s = s] using q by (intro bs_inv_update [OF inv]) (auto simp: bq_results)
  next
    case (pop_done x q')
    then show ?thesis
      unfolding pop_done(1) bs_same(4) [where s = s] using q
      by (intro bs_inv_update [OF inv]) (auto simp: bq_results bq_inv_def)
  next
    case (pop_notify x f)
    then show ?thesis
      unfolding pop_notify(1) bs_same(1) [where s = s] using q by (intro bs_inv_notify_push [OF inv]) auto
  next
    case (try_pop_done d x q' f)
    then show ?thesis
      unfolding try_pop_done(1) bs_same(4) [where s = s] using q
      by (intro bs_inv_notify_push [OF inv]) (auto simp: bq_results bq_inv_def)
  next
    case (try_push_fail x st q')
    have "q' = bs_q s" using bq_try_push_fail [OF try_push_fail(3,4)] .
    then show ?thesis using try_push_fail(1,2) keep [of "B_done (R_status st)"] by simp
  next
    case (try_pop_fail d st d' q')
    have "q' = bs_q s" using bq_try_pop_fail [OF try_pop_fail(3,4)] .
    then show ?thesis using try_pop_fail(1,2) keep [of "B_done (R_status st)"] by simp
  next
    case close_begin
    then show ?thesis using bs_inv_close_begin [OF inv] by simp
  next
    case close_not_empty
    then show ?thesis using bs_inv_close_not_empty [OF inv] by simp
  next
    case close_not_full
    then show ?thesis using bs_inv_close_not_full [OF inv] by simp
  next
    case (push_closed x q')
    then show ?thesis using keep [of "B_done (R_status Closed)"] by (simp add: bq_results)
  next
    case (pop_closed q')
    then show ?thesis using keep [of "B_done (R_item None)"] by (simp add: bq_results)
  qed (auto intro!: keep)
qed

lemma bs_inv_init: "bq_sys_init cap s \<Longrightarrow> bs_inv cap s"
  using bq_make_inv [of cap]
  by (auto simp: bq_sys_init_def bs_inv_def pop_wakeups_def push_wakeups_def wakeups_def bq_make_def
      split: if_splits)

interpretation bq_sys: invariant_system "bq_sys_init cap" bq_sys_step "bs_inv cap" for cap
  by unfold_locales (auto simp: bq_sys_step_def intro: bs_inv_init bs_inv_step)

section \<open>Example run\<close>

text \<open>A consumer has gone to sleep, and a producer has pushed but not yet notified.\<close>

lemma bq_example_waiting:
  "\<exists>s :: nat bq_sys. reachable (bq_sys_init 1) bq_sys_step s \<and> bs_pc s 1 = B_pop_wait \<and>
     bs_pc s 0 = B_push_notify \<and> bs_q s = \<lparr>bq_capacity = 1, bq_queue = [5], bq_closed = False\<rparr> \<and>
     bs_in s = [5] \<and> bs_out s = []"
proof -
  let ?R = "reachable (bq_sys_init 1) (bq_sys_step :: nat bq_sys \<Rightarrow> nat bq_sys \<Rightarrow> bool)"
  have go: "?R t" if "?R s" "bq_step u s t" for u s t
    using that reach_step by (fastforce simp: bq_sys_step_def)
  define s0 :: "nat bq_sys" where "s0 = \<lparr>bs_q = \<lparr>bq_capacity = 1, bq_queue = [], bq_closed = False\<rparr>,
    bs_pc = (\<lambda>_. B_idle), bs_in = [], bs_out = []\<rparr>"
  have 0: "?R s0" by (rule reach_init) (simp add: bq_sys_init_def bq_make_def s0_def)
  have 1: "?R (s0\<lparr>bs_pc := (bs_pc s0)(1 := B_pop)\<rparr>)"
    by (rule go [OF 0 bq_step.call_pop]) (simp add: s0_def)
  have 2: "?R (s0\<lparr>bs_pc := (bs_pc s0)(1 := B_pop_wait)\<rparr>)"
    using go [OF 1 bq_step.pop_wait [where tid = 1]] by (simp add: s0_def bq_results)
  have 3: "?R (s0\<lparr>bs_pc := (bs_pc s0)(1 := B_pop_wait, 0 := B_push 5)\<rparr>)"
    using go [OF 2 bq_step.call_push [where tid = 0 and x = 5]] by (simp add: s0_def)
  let ?t = "s0\<lparr>bs_q := \<lparr>bq_capacity = 1, bq_queue = [5], bq_closed = False\<rparr>, bs_in := [5],
    bs_pc := (bs_pc s0)(1 := B_pop_wait, 0 := B_push_notify)\<rparr>"
  have "?R ?t"
    using go [OF 3 bq_step.push_done [where tid = 0 and x = 5]] by (simp add: s0_def bq_results)
  then show ?thesis by (intro exI [of _ ?t]) (simp add: s0_def)
qed

section \<open>Properties\<close>

text \<open>
  C8: In every interleaving of any number of threads using all operations, the items pushed are,
  in order, the items popped followed by the items still queued, and at most \<open>capacity\<close> items
  are queued.
\<close>

theorem bq_concurrent_fifo:
  assumes "reachable (bq_sys_init cap) bq_sys_step s"
  shows "bs_in s = bs_out s @ bq_queue (bs_q s) \<and> length (bq_queue (bs_q s)) \<le> unat cap"
  using bq_sys.reachable_inv [OF assms] by (auto simp: bs_inv_def bq_inv_def)

theorem bq_concurrent_fifo_witness:
  "\<exists>s :: nat bq_sys. reachable (bq_sys_init 1) bq_sys_step s \<and> bs_in s = [5] \<and>
     bs_in s = bs_out s @ bq_queue (bs_q s)"
proof -
  obtain s :: "nat bq_sys" where s: "reachable (bq_sys_init 1) bq_sys_step s" "bs_in s = [5]"
    using bq_example_waiting by blast
  then show ?thesis using bq_concurrent_fifo [OF s(1)] by blast
qed

text \<open>
  C7: No lost wake-up: whenever a thread waits in \<open>pop\<close> although the predicate it waits for
  holds, some other thread can run and will either take an item itself, or notify \<open>not_empty_\<close>;
  likewise for a thread that waits in \<open>push\<close>. So the queue is never stuck with all threads
  asleep while there is work.
\<close>

theorem bq_no_lost_wakeup:
  assumes "reachable (bq_sys_init cap) bq_sys_step s"
  shows "(bs_pc s t = B_pop_wait \<and> bq_can_pop (bs_q s) \<longrightarrow>
      (\<exists>u. helps_pop (bs_pc s u) \<or> bs_pc s u = B_close_not_empty)) \<and>
    (is_push_wait (bs_pc s t) \<and> bq_can_push (bs_q s) \<longrightarrow>
      (\<exists>u. helps_push (bs_pc s u) \<or> closing (bs_pc s u)))"
proof -
  have inv: "bs_inv cap s" using assms by (rule bq_sys.reachable_inv)
  have pos: "\<exists>u. P (f u)" if "0 < threads P f" for P and f :: "nat \<Rightarrow> 'a bq_pc"
    using that by (auto simp: threads_def card_gt_0_iff)
  have "\<exists>u. helps_pop (bs_pc s u) \<or> bs_pc s u = B_close_not_empty"
    if "bs_pc s t = B_pop_wait" "bq_can_pop (bs_q s)"
  proof (cases "bq_closed (bs_q s)")
    case True
    then show ?thesis
      using inv that(1) unfolding bs_inv_def pop_wakeups_def wakeups_def by (metis (full_types))
  next
    case False
    then have "0 < length (bq_queue (bs_q s))" using that(2) by (simp add: bq_can_pop_def)
    moreover have "length (bq_queue (bs_q s)) \<le> threads helps_pop (bs_pc s)"
      using inv that(1) False by (auto simp: bs_inv_def pop_wakeups_def wakeups_def)
    ultimately have "0 < threads helps_pop (bs_pc s)" by linarith
    then show ?thesis using pos [of helps_pop "bs_pc s"] by blast
  qed
  moreover have "\<exists>u. helps_push (bs_pc s u) \<or> closing (bs_pc s u)"
    if "is_push_wait (bs_pc s t)" "bq_can_push (bs_q s)"
  proof (cases "bq_closed (bs_q s)")
    case True
    then show ?thesis
      using inv that(1) unfolding bs_inv_def push_wakeups_def wakeups_def by (metis (full_types))
  next
    case False
    then have "0 < unat (bq_capacity (bs_q s)) - length (bq_queue (bs_q s))"
      using that(2) by (simp add: bq_can_push_def)
    moreover have "unat (bq_capacity (bs_q s)) - length (bq_queue (bs_q s)) \<le> threads helps_push (bs_pc s)"
      using inv that(1) False unfolding bs_inv_def push_wakeups_def wakeups_def by (metis (full_types))
    ultimately have "0 < threads helps_push (bs_pc s)" by linarith
    then show ?thesis using pos [of helps_push "bs_pc s"] by blast
  qed
  ultimately show ?thesis by blast
qed

theorem bq_no_lost_wakeup_witness:
  "\<exists>s :: nat bq_sys. reachable (bq_sys_init 1) bq_sys_step s \<and> bs_pc s 1 = B_pop_wait \<and>
     bq_can_pop (bs_q s) \<and> (\<exists>u. helps_pop (bs_pc s u) \<or> bs_pc s u = B_close_not_empty)"
proof -
  obtain s :: "nat bq_sys" where s: "reachable (bq_sys_init 1) bq_sys_step s" "bs_pc s 1 = B_pop_wait"
      "bs_q s = \<lparr>bq_capacity = 1, bq_queue = [5], bq_closed = False\<rparr>"
    using bq_example_waiting by blast
  have "bq_can_pop (bs_q s)" by (simp add: s(3) bq_can_pop_def)
  then show ?thesis using bq_no_lost_wakeup [OF s(1), of 1] s(1,2) by blast
qed

text \<open>
  \<open>close\<close> is final: once the queue is closed no step of any thread reopens it or adds an item,
  no thread goes to sleep in \<open>push\<close> or \<open>pop\<close> any more, and the items still queued are only ever
  removed from the front.
\<close>

lemma bq_closed_stays:
  assumes "bq_closed (bs_q s)" "bq_step t s s'"
  shows "bq_closed (bs_q s') \<and> bs_in s' = bs_in s \<and>
    (\<exists>popped. bq_queue (bs_q s) = popped @ bq_queue (bs_q s') \<and> bs_out s' = bs_out s @ popped) \<and>
    (\<forall>u. bs_pc s' u = B_pop_wait \<longrightarrow> bs_pc s u = B_pop_wait) \<and>
    (\<forall>u. is_push_wait (bs_pc s' u) \<longrightarrow> is_push_wait (bs_pc s u))"
  using assms(2)
proof cases
  case (push_notify f)
  then show ?thesis using assms(1) notify_one_sleeps(1) [of "bs_pc s" f] by auto
next
  case (try_push_done x q f)
  then show ?thesis using assms(1) by (simp add: bq_try_push_def)
next
  case (pop_notify x f)
  then show ?thesis using assms(1) notify_one_sleeps(2) [of "bs_pc s" f] by auto
next
  case (try_pop_done d x q f)
  then show ?thesis using assms(1) notify_one_sleeps(2) [of "bs_pc s" f] by (auto simp: bq_results)
next
  case close_not_empty
  then show ?thesis using assms(1) by (simp add: notify_all_def)
next
  case close_not_full
  then show ?thesis using assms(1) by (simp add: notify_all_def)
next
  case (try_push_fail x st q)
  then show ?thesis using assms(1) by (auto simp: bq_try_push_def)
next
  case (try_pop_fail d st d' q)
  then show ?thesis using assms(1) bq_try_pop_fail [OF try_pop_fail(3,4)] by auto
qed (use assms(1) in \<open>auto simp: bq_results bq_close_def\<close>)

end
