(* ===== verification/Consumer_Handles.thy ===== *)
theory Consumer_Handles
  imports Results
begin

text \<open>
  The \<open>Consumer\<close> handles of the two broadcast queues. Both header files define the same class: a
  queue pointer (\<open>None\<close> for \<open>nullptr\<close>) and a cursor, movable and not copyable. Queues and
  consumers live in a store at addresses, so that moving a handle, moving it onto itself and
  sharing a queue between handles have their effect. The queue type and the three operations of
  the queue that handles call are arguments; \<open>Spmc_Multicast\<close> and \<open>Versioned_Spmc\<close> supply them.
\<close>

section \<open>Definitions\<close>

record consumer =
  cs_queue :: "nat option"
  cs_next :: u64

record 'q cast_store =
  st_queues :: "nat \<Rightarrow> 'q option"
  st_consumers :: "nat \<Rightarrow> consumer option"

text \<open>\<open>register_consumer\<close> on the queue at \<open>a\<close> constructs a consumer at \<open>c\<close>.\<close>

definition st_register :: "('q \<Rightarrow> u64) \<Rightarrow> 'q cast_store \<Rightarrow> nat \<Rightarrow> nat \<Rightarrow> 'q cast_store" where
  "st_register register s a c =
     (case st_queues s a of
        None \<Rightarrow> s
      | Some q \<Rightarrow> s\<lparr>st_consumers := (st_consumers s)
          (c \<mapsto> \<lparr>cs_queue = Some a, cs_next = register q\<rparr>)\<rparr>)"

definition st_move_construct :: "'q cast_store \<Rightarrow> nat \<Rightarrow> nat \<Rightarrow> 'q cast_store" where
  "st_move_construct s new other =
     (case st_consumers s other of
        None \<Rightarrow> s
      | Some c \<Rightarrow> s\<lparr>st_consumers := (st_consumers s)
          (other \<mapsto> c\<lparr>cs_queue := None\<rparr>, new \<mapsto> c)\<rparr>)"

definition st_move_assign :: "'q cast_store \<Rightarrow> nat \<Rightarrow> nat \<Rightarrow> 'q cast_store" where
  "st_move_assign s this other =
     (if this \<noteq> other
      then (case st_consumers s other of
              None \<Rightarrow> s
            | Some c \<Rightarrow> s\<lparr>st_consumers := (st_consumers s)
                (other \<mapsto> c\<lparr>cs_queue := None\<rparr>, this \<mapsto> c)\<rparr>)
      else s)"

definition st_publish ::
    "('q \<Rightarrow> byte list \<Rightarrow> write_result \<times> 'q) \<Rightarrow>
     'q cast_store \<Rightarrow> nat \<Rightarrow> byte list \<Rightarrow> (write_result \<times> 'q cast_store) option" where
  "st_publish publish s a payload =
     (case st_queues s a of
        None \<Rightarrow> None
      | Some q \<Rightarrow> (case publish q payload of
          (result, q') \<Rightarrow> Some (result, s\<lparr>st_queues := (st_queues s)(a \<mapsto> q')\<rparr>)))"

text \<open>\<open>Consumer::try_read\<close>; \<open>None\<close> when there is no consumer object at the address.\<close>

definition st_try_read ::
    "('q \<Rightarrow> u64 \<Rightarrow> byte list \<Rightarrow> read_result \<times> byte list \<times> u64) \<Rightarrow>
     'q cast_store \<Rightarrow> nat \<Rightarrow> byte list \<Rightarrow> (read_result \<times> byte list \<times> 'q cast_store) option" where
  "st_try_read read s c destination =
     (case st_consumers s c of
        None \<Rightarrow> None
      | Some cs \<Rightarrow>
          (case cs_queue cs of
             None \<Rightarrow> Some (read_res Invalid_consumer 0 (cs_next cs), destination, s)
           | Some a \<Rightarrow>
               (case st_queues s a of
                  None \<Rightarrow> None
                | Some q \<Rightarrow>
                    (case read q (cs_next cs) destination of
                       (result, destination', n) \<Rightarrow>
                         Some (result, destination', s\<lparr>st_consumers :=
                           (st_consumers s)(c \<mapsto> cs\<lparr>cs_next := n\<rparr>)\<rparr>)))))"

subsection \<open>Client programs\<close>

text \<open>
  A client program over any number of queues and handles, and everything it gets back.
\<close>

datatype cast_op =
    Cast_publish nat "byte list"
  | Cast_register nat nat
  | Cast_move_construct nat nat
  | Cast_move_assign nat nat
  | Cast_read nat "byte list"

datatype cast_answer = Wrote write_result | Got read_result "byte list" | No_value | No_object

fun cast_step ::
    "('q \<Rightarrow> byte list \<Rightarrow> write_result \<times> 'q) \<Rightarrow> ('q \<Rightarrow> u64) \<Rightarrow>
     ('q \<Rightarrow> u64 \<Rightarrow> byte list \<Rightarrow> read_result \<times> byte list \<times> u64) \<Rightarrow>
     'q cast_store \<Rightarrow> cast_op \<Rightarrow> cast_answer \<times> 'q cast_store" where
  "cast_step publish register read s (Cast_publish a x) =
     (case st_publish publish s a x of None \<Rightarrow> (No_object, s) | Some (r, s') \<Rightarrow> (Wrote r, s'))"
| "cast_step publish register read s (Cast_register a c) = (No_value, st_register register s a c)"
| "cast_step publish register read s (Cast_move_construct new other) = (No_value, st_move_construct s new other)"
| "cast_step publish register read s (Cast_move_assign this other) = (No_value, st_move_assign s this other)"
| "cast_step publish register read s (Cast_read c dest) =
     (case st_try_read read s c dest of None \<Rightarrow> (No_object, s) | Some (r, d, s') \<Rightarrow> (Got r d, s'))"

fun cast_run ::
    "('q \<Rightarrow> byte list \<Rightarrow> write_result \<times> 'q) \<Rightarrow> ('q \<Rightarrow> u64) \<Rightarrow>
     ('q \<Rightarrow> u64 \<Rightarrow> byte list \<Rightarrow> read_result \<times> byte list \<times> u64) \<Rightarrow>
     'q cast_store \<Rightarrow> cast_op list \<Rightarrow> cast_answer list \<times> 'q cast_store" where
  "cast_run publish register read s [] = ([], s)"
| "cast_run publish register read s (op # ops) =
     (case cast_step publish register read s op of (a, s') \<Rightarrow>
       (case cast_run publish register read s' ops of (answers, s'') \<Rightarrow> (a # answers, s'')))"

fun cast_publications :: "cast_op list \<Rightarrow> byte list list" where
  "cast_publications [] = []"
| "cast_publications (Cast_publish a x # ops) = x # cast_publications ops"
| "cast_publications (_ # ops) = cast_publications ops"

text \<open>
  Two stores with the same handles and related queues; every cursor of a live handle is legal.
\<close>

definition store_rel ::
    "(u64 \<Rightarrow> bool) \<Rightarrow> ('p \<Rightarrow> 'q \<Rightarrow> bool) \<Rightarrow> 'p cast_store \<Rightarrow> 'q cast_store \<Rightarrow> bool" where
  "store_rel cursor R s t \<longleftrightarrow> st_consumers s = st_consumers t \<and>
     (\<forall>a. rel_option R (st_queues s a) (st_queues t a)) \<and>
     (\<forall>c \<in> ran (st_consumers s). cursor (cs_next c))"

section \<open>Handles\<close>

lemmas handle_defs = st_register_def st_move_construct_def st_move_assign_def st_publish_def
  st_try_read_def

lemma read_moved_from:
  assumes "st_consumers s other = Some c" "new \<noteq> other"
  shows "st_try_read read (st_move_construct s new other) other dest =
    Some (read_res Invalid_consumer 0 (cs_next c), dest, st_move_construct s new other)"
  using assms by (simp add: st_move_construct_def st_try_read_def)

lemma move_target:
  "st_consumers s other = Some c \<Longrightarrow> st_consumers (st_move_construct s new other) new = Some c"
  by (simp add: st_move_construct_def)

lemma move_assign_construct:
  "new \<noteq> other \<Longrightarrow> st_move_assign s new other = st_move_construct s new other"
  by (simp add: st_move_construct_def st_move_assign_def)

lemma move_assign_self: "st_move_assign s c c = s"
  by (simp add: st_move_assign_def)

lemma read_frame:
  assumes "st_try_read read s c dest = Some (r, d, s')"
  shows "st_queues s' = st_queues s \<and> (\<forall>k. k \<noteq> c \<longrightarrow> st_consumers s' k = st_consumers s k)"
  using assms by (auto simp: st_try_read_def split: option.splits prod.splits)

section \<open>Indistinguishable queues\<close>

text \<open>
  Two implementations of the queue operations cannot be told apart by client programs when a
  relation between their queues, which may depend on how many publications are still to come, is
  kept by publishing and makes the results equal.
\<close>

locale cast_refinement =
  fixes R :: "nat \<Rightarrow> 'p \<Rightarrow> 'q \<Rightarrow> bool"
    and cursor :: "u64 \<Rightarrow> bool"
    and publish1 :: "'p \<Rightarrow> byte list \<Rightarrow> write_result \<times> 'p"
    and register1 :: "'p \<Rightarrow> u64"
    and read1 :: "'p \<Rightarrow> u64 \<Rightarrow> byte list \<Rightarrow> read_result \<times> byte list \<times> u64"
    and publish2 :: "'q \<Rightarrow> byte list \<Rightarrow> write_result \<times> 'q"
    and register2 :: "'q \<Rightarrow> u64"
    and read2 :: "'q \<Rightarrow> u64 \<Rightarrow> byte list \<Rightarrow> read_result \<times> byte list \<times> u64"
  assumes rel_mono: "R (Suc k) p q \<Longrightarrow> R k p q"
    and publish_rel: "R (Suc k) p q \<Longrightarrow>
      \<exists>r p' q'. publish1 p x = (r, p') \<and> publish2 q x = (r, q') \<and> R k p' q'"
    and register_rel: "R k p q \<Longrightarrow> register1 p = register2 q \<and> cursor (register2 q)"
    and read_rel: "R k p q \<Longrightarrow> cursor n \<Longrightarrow> read1 p n d = read2 q n d \<and> cursor (snd (snd (read2 q n d)))"
begin

lemma store_rel_mono: "store_rel cursor (R (Suc k)) s t \<Longrightarrow> store_rel cursor (R k) s t"
  unfolding store_rel_def by (metis (no_types, lifting) option.rel_mono_strong rel_mono)

lemma live_cursor: "store_rel cursor (R k) s t \<Longrightarrow> st_consumers s c = Some cs \<Longrightarrow> cursor (cs_next cs)"
  unfolding store_rel_def by (blast intro: ranI)

lemma consumers_update:
  assumes "store_rel cursor (R k) s t" "\<And>c. Some c = v \<Longrightarrow> cursor (cs_next c)"
  shows "store_rel cursor (R k) (s\<lparr>st_consumers := (st_consumers s)(a := v)\<rparr>)
    (t\<lparr>st_consumers := (st_consumers t)(a := v)\<rparr>)"
proof -
  have "cursor (cs_next c)" if "c \<in> ran ((st_consumers s)(a := v))" for c
    using that assms(2) live_cursor [OF assms(1)] by (fastforce simp: ran_def split: if_splits)
  then show ?thesis using assms(1) by (simp add: store_rel_def)
qed

lemma publish_step:
  assumes "store_rel cursor (R (Suc k)) s t"
  shows "rel_option (rel_prod (=) (store_rel cursor (R k))) (st_publish publish1 s a x) (st_publish publish2 t a x)"
proof (cases "st_queues s a")
  case None
  then have "st_queues t a = None" using assms by (metis option.rel_sel store_rel_def)
  then show ?thesis using None by (simp add: st_publish_def)
next
  case (Some p)
  then obtain q where q: "st_queues t a = Some q" "R (Suc k) p q"
    using assms by (metis option_rel_Some1 store_rel_def)
  then obtain r p' q' where "publish1 p x = (r, p')" "publish2 q x = (r, q')" "R k p' q'"
    using publish_rel by blast
  then show ?thesis using Some q store_rel_mono [OF assms] by (simp add: st_publish_def store_rel_def)
qed

lemma read_step:
  assumes "store_rel cursor (R k) s t"
  shows "rel_option (rel_prod (=) (rel_prod (=) (store_rel cursor (R k))))
    (st_try_read read1 s c d) (st_try_read read2 t c d)"
proof -
  have eq: "st_consumers t = st_consumers s" using assms by (simp add: store_rel_def)
  show ?thesis
  proof (cases "st_consumers s c")
    case None
    then show ?thesis by (simp add: st_try_read_def eq)
  next
    case (Some cs)
    note cs = Some
    then have cur: "cursor (cs_next cs)" using live_cursor [OF assms] by blast
    show ?thesis
    proof (cases "cs_queue cs")
      case None
      then show ?thesis using cs assms by (simp add: st_try_read_def eq)
    next
      case (Some a)
      have rel: "rel_option (R k) (st_queues s a) (st_queues t a)" using assms by (simp add: store_rel_def)
      then show ?thesis
      proof (cases rule: option.rel_cases)
        case None
        then show ?thesis using cs Some by (simp add: st_try_read_def eq)
      next
        case (Some p q)
        note pq = Some
        obtain r d' n where rd: "read2 q (cs_next cs) d = (r, d', n)" by (metis prod_cases3)
        then have "read1 p (cs_next cs) d = (r, d', n)" "cursor n"
          using read_rel [OF pq(3) cur, of d] by simp_all
        then show ?thesis
          using cs pq rd \<open>cs_queue cs = Some a\<close> assms
            consumers_update [OF assms, of "Some (cs\<lparr>cs_next := n\<rparr>)" c]
          by (simp add: st_try_read_def eq)
      qed
    qed
  qed
qed

lemma register_step:
  assumes "store_rel cursor (R k) s t"
  shows "store_rel cursor (R k) (st_register register1 s a c) (st_register register2 t a c)"
proof -
  have "rel_option (R k) (st_queues s a) (st_queues t a)" using assms by (simp add: store_rel_def)
  then show ?thesis
  proof (cases rule: option.rel_cases)
    case (Some p q)
    then show ?thesis
      using register_rel [OF Some(3)] consumers_update [OF assms, of "Some \<lparr>cs_queue = Some a, cs_next = register2 q\<rparr>" c]
      by (simp add: st_register_def)
  qed (use assms in \<open>simp add: st_register_def\<close>)
qed

lemma move_step:
  assumes "store_rel cursor (R k) s t"
  shows "store_rel cursor (R k) (st_move_construct s a b) (st_move_construct t a b)"
proof (cases "st_consumers s b")
  case (Some c)
  then have "cursor (cs_next c)" "st_consumers t = st_consumers s"
    using assms live_cursor [OF assms] by (simp_all add: store_rel_def)
  then show ?thesis
    using Some consumers_update [OF consumers_update [OF assms, of "Some (c\<lparr>cs_queue := None\<rparr>)" b], of "Some c" a]
    by (simp add: st_move_construct_def)
qed (use assms in \<open>simp add: st_move_construct_def store_rel_def\<close>)

lemma run_equal:
  "store_rel cursor (R (length (cast_publications ops))) s t \<Longrightarrow>
   fst (cast_run publish1 register1 read1 s ops) = fst (cast_run publish2 register2 read2 t ops)"
proof (induction ops arbitrary: s t)
  case (Cons op ops)
  obtain s' t' w where step: "cast_step publish1 register1 read1 s op = (w, s')"
    "cast_step publish2 register2 read2 t op = (w, t')"
    and rel: "store_rel cursor (R (length (cast_publications ops))) s' t'"
  proof (cases op)
    case (Cast_publish a x)
    then have "store_rel cursor (R (Suc (length (cast_publications ops)))) s t" using Cons.prems by simp
    from publish_step [OF this, of a x] store_rel_mono [OF this] show ?thesis
      using that Cast_publish by (cases rule: option.rel_cases) auto
  next
    case (Cast_register a c)
    then show ?thesis using that register_step Cons.prems by simp
  next
    case (Cast_move_construct a b)
    then show ?thesis using that move_step Cons.prems by simp
  next
    case (Cast_move_assign a b)
    then show ?thesis
      using that move_step Cons.prems by (cases "a = b") (simp_all add: move_assign_self move_assign_construct)
  next
    case (Cast_read c d)
    then have "store_rel cursor (R (length (cast_publications ops))) s t" using Cons.prems by simp
    from read_step [OF this, of c d] this show ?thesis
      using that Cast_read by (cases rule: option.rel_cases) auto
  qed
  show ?case using Cons.IH [OF rel] step by (simp add: case_prod_beta)
qed simp

end

end
