(* ===== verification/Spmc_Multicast.thy ===== *)
theory Spmc_Multicast
  imports Fixed_Message Consumer_Handles Contracts
begin

text \<open>
  \<open>SPMCMulticastQueue<MaxPayloadSize>\<close> (\<open>include/orbitqueue/spmc_multicast_queue.h\<close>). The mutex
  makes every operation of the queue atomic, so each is one function on the guarded state. The
  \<open>Consumer\<close> handles are those of \<open>Consumer_Handles\<close>, with these operations.
\<close>

section \<open>Definitions\<close>

record multicast_queue =
  mc_capacity :: u64
  mc_slots :: "fixed_message list"
  mc_published :: u64

definition mc_make :: "nat \<Rightarrow> u64 \<Rightarrow> cpp_exception + multicast_queue" where
  "mc_make N capacity =
     (if capacity = 0
      then Inl (Invalid_argument ''SPMCMulticastQueue capacity must be greater than zero'')
      else Inr \<lparr>mc_capacity = capacity, mc_slots = replicate (unat capacity) (fm_new N),
                mc_published = 0\<rparr>)"

definition mc_try_publish ::
    "nat \<Rightarrow> multicast_queue \<Rightarrow> byte list \<Rightarrow> write_result \<times> multicast_queue" where
  "mc_try_publish N q payload =
     (if length payload > N then (write_res Message_too_large 0, q)
      else (let sequence = mc_published q + 1;
                i = ring_index (mc_capacity q) (sequence - 1);
                (result, slot) = fm_assign N (mc_slots q ! i) payload sequence
            in (result, q\<lparr>mc_slots := (mc_slots q)[i := slot], mc_published := sequence\<rparr>)))"

text \<open>The cursor of a consumer that registers now.\<close>

definition mc_register :: "multicast_queue \<Rightarrow> u64" where
  "mc_register q = mc_published q + 1"

definition mc_oldest :: "u64 \<Rightarrow> u64 \<Rightarrow> u64" where
  "mc_oldest capacity published =
     (if published \<ge> capacity then published - capacity + 1 else 1)"

text \<open>\<open>try_read\<close>: the result, the destination and the consumer's cursor afterwards.\<close>

definition mc_try_read ::
    "multicast_queue \<Rightarrow> u64 \<Rightarrow> byte list \<Rightarrow> read_result \<times> byte list \<times> u64" where
  "mc_try_read q next_sequence destination =
     (if next_sequence > mc_published q
      then (read_res Empty 0 next_sequence, destination, next_sequence)
      else let oldest = mc_oldest (mc_capacity q) (mc_published q) in
        if next_sequence < oldest
        then (read_res Consumer_lagged 0 oldest, destination, oldest)
        else let expected = next_sequence;
                 slot = mc_slots q ! ring_index (mc_capacity q) (expected - 1) in
          if fm_sequence slot \<noteq> expected
          then (read_res Overwritten 0 oldest, destination, oldest)
          else let (result, destination') = fm_copy_to slot destination in
            (result, destination', if ok (rr_status result) then next_sequence + 1 else next_sequence))"

subsection \<open>History\<close>

text \<open>
  \<open>mc_hist N q log\<close>: the payloads published so far are \<open>log\<close>; the slot of every retained
  sequence holds its payload. Sequence numbers have not wrapped.
\<close>

definition mc_cap :: "multicast_queue \<Rightarrow> nat" where
  "mc_cap q = unat (mc_capacity q)"

definition mc_slot :: "multicast_queue \<Rightarrow> nat \<Rightarrow> fixed_message" where
  "mc_slot q s = mc_slots q ! ((s - 1) mod mc_cap q)"

definition mc_hist :: "nat \<Rightarrow> multicast_queue \<Rightarrow> byte list list \<Rightarrow> bool" where
  "mc_hist N q log \<longleftrightarrow> mc_capacity q \<noteq> 0 \<and> length (mc_slots q) = mc_cap q \<and>
     (\<forall>m \<in> set (mc_slots q). fm_wf N m) \<and> unat (mc_published q) = length log \<and>
     (\<forall>x \<in> set log. length x \<le> N) \<and>
     (\<forall>s. 0 < s \<and> s \<le> length log \<and> length log < s + mc_cap q \<longrightarrow>
        fm_holds N (log ! (s - 1)) (of_nat s) (mc_slot q s))"

text \<open>The operations as the broadcast contract has them.\<close>

definition mc_publish_op :: "nat \<Rightarrow> multicast_queue \<Rightarrow> byte list \<Rightarrow> queue_status \<times> nat \<times> multicast_queue" where
  "mc_publish_op N q payload = (case mc_try_publish N q payload of
     (r, q') \<Rightarrow> (wr_status r, unat (wr_sequence r), q'))"

definition mc_read_op ::
    "multicast_queue \<Rightarrow> nat \<Rightarrow> byte list \<Rightarrow> queue_status \<times> byte list option \<times> nat" where
  "mc_read_op q n dest = (case mc_try_read q (of_nat n) dest of
     (r, d, n') \<Rightarrow> (rr_status r, if ok (rr_status r) then Some (take (rr_bytes_read r) d) else None, unat n'))"

section \<open>Publishing\<close>

lemma mc_cap_pos: "mc_hist N q log \<Longrightarrow> 0 < mc_cap q"
  by (simp add: mc_hist_def mc_cap_def unat_gt_0)

lemma mc_make_hist:
  assumes "mc_make N capacity = Inr q"
  shows "mc_hist N q [] \<and> mc_capacity q = capacity \<and> mc_published q = 0"
  using assms by (auto simp: mc_make_def mc_hist_def mc_cap_def split: if_splits)

lemma mc_slot_wf:
  assumes "mc_hist N q log"
  shows "fm_wf N (mc_slot q s)"
  using assms mc_cap_pos [OF assms] by (simp add: mc_hist_def mc_slot_def)

lemma mc_publish_success:
  assumes hist: "mc_hist N q log" and size: "length x \<le> N" and life: "Suc (length log) < 2 ^ 64"
  obtains q' where "mc_try_publish N q x = (write_res Success (of_nat (Suc (length log))), q')"
    and "mc_hist N q' (log @ [x])" "mc_capacity q' = mc_capacity q"
proof -
  let ?L = "length log" and ?C = "mc_cap q"
  define sq where "sq = mc_published q + 1"
  have upub: "unat (mc_published q) = ?L" using hist by (simp add: mc_hist_def)
  then have pub: "mc_published q = of_nat ?L" using word_of_unat [of "mc_published q"] by simp
  have sq: "sq = of_nat (Suc ?L)" using pub by (simp add: sq_def add.commute)
  then have usq: "unat sq = Suc ?L" using unat_of_nat_64 [OF life] by simp
  have C: "0 < ?C" using mc_cap_pos [OF hist] .
  define i where "i = ring_index (mc_capacity q) (sq - 1)"
  have i: "i = ?L mod ?C" using upub by (simp add: i_def sq_def ring_index_def unat_mod mc_cap_def)
  have il: "i < length (mc_slots q)" using i C hist by (simp add: mc_hist_def)
  define m where "m = snd (fm_assign N (mc_slots q ! i) x sq)"
  define q' where "q' = q\<lparr>mc_slots := (mc_slots q)[i := m], mc_published := sq\<rparr>"
  have holds: "fm_holds N x sq m"
    unfolding m_def using hist il size by (intro fm_assign_holds) (auto simp: mc_hist_def)
  have res: "mc_try_publish N q x = (write_res Success sq, q')"
    using size fm_assign_status [OF size, of "mc_slots q ! i" sq]
    by (simp add: mc_try_publish_def Let_def case_prod_beta q'_def m_def i_def sq_def)
  have cap: "mc_cap q' = ?C" by (simp add: q'_def mc_cap_def)
  have slot: "mc_slot q' s = (if (s - 1) mod ?C = i then m else mc_slot q s)" for s
    using il by (simp add: mc_slot_def cap) (simp add: q'_def)
  have "fm_holds N ((log @ [x]) ! (s - 1)) (of_nat s) (mc_slot q' s)"
    if s: "0 < s" "s \<le> Suc ?L" "Suc ?L < s + ?C" for s
  proof (cases "s = Suc ?L")
    case True
    then show ?thesis using holds slot i sq by simp
  next
    case False
    then have "s - 1 < ?L" "s \<le> ?L" using s by auto
    moreover have "(s - 1) mod ?C \<noteq> i"
      unfolding i by (rule residue_neq) (use s False in auto)
    ultimately show ?thesis using hist s slot by (simp add: mc_hist_def nth_append)
  qed
  moreover have "\<forall>m \<in> set (mc_slots q'). fm_wf N m"
  proof -
    have "set (mc_slots q') \<subseteq> insert m (set (mc_slots q))"
      by (simp add: q'_def set_update_subset_insert)
    then show ?thesis using hist holds by (auto simp: mc_hist_def fm_holds_def)
  qed
  ultimately have "mc_hist N q' (log @ [x])"
    using hist size usq by (simp add: mc_hist_def cap) (simp add: q'_def)
  then show ?thesis using that res sq by (simp add: q'_def)
qed

section \<open>Reading\<close>

lemma mc_oldest_unat:
  assumes "unat published = L" "capacity \<noteq> 0"
  shows "unat (mc_oldest capacity published) = (if unat capacity \<le> L then L - unat capacity + 1 else 1)"
proof -
  have "unat (published - capacity + 1) = L - unat capacity + 1" if "capacity \<le> published"
  proof -
    have "unat (published - capacity) = L - unat capacity"
      using that assms(1) by (simp add: unat_sub_if' word_le_nat_alt)
    moreover have "L - unat capacity + 1 < 2 ^ 64"
    proof -
      have "0 < unat capacity" "unat capacity \<le> L"
        using assms that by (simp_all add: unat_gt_0 word_le_nat_alt)
      then show ?thesis using assms(1) unat_less_2p64 [of published] by linarith
    qed
    ultimately show ?thesis by (simp add: unat_Suc_word)
  qed
  then show ?thesis using assms by (simp add: mc_oldest_def word_le_nat_alt)
qed

text \<open>The result of a read in each of its four cases.\<close>

lemma mc_read_empty:
  assumes "mc_hist N q log" "length log < unat n"
  shows "mc_try_read q n dest = (read_res Empty 0 n, dest, n)"
  using assms by (simp add: mc_try_read_def mc_hist_def word_less_nat_alt)

lemma mc_read_lagged:
  assumes hist: "mc_hist N q log" and lag: "unat n + mc_cap q \<le> length log"
  shows "mc_try_read q n dest =
    (read_res Consumer_lagged 0 (of_nat (Suc (length log) - mc_cap q)), dest,
     of_nat (Suc (length log) - mc_cap q))"
proof -
  let ?o = "mc_oldest (mc_capacity q) (mc_published q)"
  have pub: "unat (mc_published q) = length log" using hist by (simp add: mc_hist_def)
  have o: "unat ?o = Suc (length log) - mc_cap q"
    using mc_oldest_unat [OF pub, of "mc_capacity q"] hist lag
    by (simp add: mc_hist_def mc_cap_def Suc_diff_le)
  then have "?o = of_nat (Suc (length log) - mc_cap q)" using word_of_unat [of ?o] by simp
  moreover have "\<not> mc_published q < n" "n < ?o"
    using o pub lag mc_cap_pos [OF hist] by (simp_all add: word_less_nat_alt Suc_diff_le)
  ultimately show ?thesis by (simp add: mc_try_read_def Let_def)
qed

lemma mc_read_retained:
  assumes hist: "mc_hist N q log" and n: "0 < unat n" "unat n \<le> length log"
    "length log < unat n + mc_cap q"
  defines "x \<equiv> log ! (unat n - 1)"
  shows "mc_try_read q n dest =
    (if length dest < length x then (read_res Message_too_large 0 n, dest, n)
     else (read_res Success (length x) n, copy_n (length x) x dest, n + 1))"
proof -
  let ?o = "mc_oldest (mc_capacity q) (mc_published q)"
  have pub: "unat (mc_published q) = length log" using hist by (simp add: mc_hist_def)
  have C: "0 < mc_cap q" using mc_cap_pos [OF hist] .
  have "unat ?o \<le> unat n"
    using mc_oldest_unat [OF pub, of "mc_capacity q"] hist n
    by (cases "unat (mc_capacity q) \<le> length log") (auto simp: mc_hist_def mc_cap_def)
  then have cmp: "\<not> mc_published q < n" "\<not> n < ?o"
    using pub n by (simp_all add: word_less_nat_alt)
  have "unat (n - 1) = unat n - 1" using n(1) by (simp add: unat_minus_one unat_gt_0)
  then have slot: "mc_slots q ! ring_index (mc_capacity q) (n - 1) = mc_slot q (unat n)"
    by (simp add: mc_slot_def ring_index_def unat_mod mc_cap_def)
  have holds: "fm_holds N x n (mc_slot q (unat n))"
  proof -
    have "fm_holds N (log ! (unat n - 1)) (of_nat (unat n)) (mc_slot q (unat n))"
      using hist n unfolding mc_hist_def by blast
    then show ?thesis by (simp add: x_def)
  qed
  then have "fm_sequence (mc_slot q (unat n)) = n" by (simp add: fm_holds_def)
  then show ?thesis
    using cmp slot fm_copy_to_holds [OF holds, of dest] by (simp add: mc_try_read_def Let_def)
qed

lemma mc_read_not_overwritten:
  assumes "mc_hist N q log" "0 < unat n"
  shows "rr_status (fst (mc_try_read q n dest)) \<noteq> Overwritten"
proof -
  consider "length log < unat n" | "unat n + mc_cap q \<le> length log"
    | "unat n \<le> length log" "length log < unat n + mc_cap q" by linarith
  then show ?thesis
    by cases (simp_all add: mc_read_empty [OF assms(1)] mc_read_lagged [OF assms(1)] mc_read_retained [OF assms])
qed

lemma mc_read_cursor:
  assumes "mc_hist N q log" "0 < unat n" "length log < 2 ^ 64 - 1"
  shows "unat n \<le> unat (snd (snd (mc_try_read q n dest)))"
proof -
  consider "length log < unat n" | "unat n + mc_cap q \<le> length log"
    | "unat n \<le> length log" "length log < unat n + mc_cap q" by linarith
  then show ?thesis
  proof cases
    case 1
    then show ?thesis by (simp add: mc_read_empty [OF assms(1)])
  next
    case 2
    have "unat (of_nat (Suc (length log) - mc_cap q) :: u64) = Suc (length log) - mc_cap q"
      using assms(3) by (intro unat_of_nat_64) simp
    then show ?thesis using 2 mc_cap_pos [OF assms(1)]
      by (simp add: mc_read_lagged [OF assms(1) 2] del: of_nat_Suc of_nat_diff)
  next
    case 3
    then show ?thesis using assms(3) by (simp add: mc_read_retained [OF assms(1,2)] unat_Suc_word)
  qed
qed

section \<open>The broadcast contract\<close>

lemma mc_log_bound: "mc_hist N q log \<Longrightarrow> length log < 2 ^ 64"
  using unat_less_2p64 [of "mc_published q"] by (simp add: mc_hist_def)

interpretation mc_cast: multicast "mc_hist N" mc_cap "2 ^ 64 - 1" "\<lambda>x. length x \<le> N"
  "\<lambda>x dest. length x \<le> length dest" "mc_publish_op N" mc_read_op for N
proof
  fix q log
  assume hist: "mc_hist N q log"
  show "0 < mc_cap q" using mc_cap_pos [OF hist] .
  show "\<exists>q'. mc_publish_op N q x = (Success, Suc (length log), q') \<and> mc_hist N q' (log @ [x]) \<and>
      mc_cap q' = mc_cap q" if "length x \<le> N" "Suc (length log) < 2 ^ 64 - 1" for x
  proof -
    have life: "Suc (length log) < 2 ^ 64" using that(2) by simp
    show ?thesis
      by (rule mc_publish_success [OF hist that(1) life])
        (use life in \<open>simp add: mc_publish_op_def mc_cap_def unat_of_nat_64 del: of_nat_Suc\<close>)
  qed
  assume lim: "length log < 2 ^ 64 - 1"
  then have life: "Suc (length log) < 2 ^ 64" by simp
  have conv: "unat (of_nat n :: u64) = n" if "n \<le> Suc (length log)" for n
    using that life by (intro unat_of_nat_64) simp
  show "mc_read_op q (Suc (length log)) d = (Empty, None, Suc (length log))" for d
    using mc_read_empty [OF hist, of "of_nat (Suc (length log))" d] conv [of "Suc (length log)"]
    by (simp add: mc_read_op_def ok_def del: of_nat_Suc)
  show "mc_read_op q n d = (Consumer_lagged, None, Suc (length log) - mc_cap q)"
    if "0 < n" "n + mc_cap q \<le> length log" for n d
    using mc_read_lagged [OF hist, of "of_nat n" d] conv [of n] conv [of "Suc (length log) - mc_cap q"] that
    by (simp add: mc_read_op_def ok_def del: of_nat_Suc)
  show "mc_read_op q n d =
      (if length (log ! (n - 1)) \<le> length d then (Success, Some (log ! (n - 1)), Suc n)
       else (Message_too_large, None, n))"
    if "0 < n" "n \<le> length log" "length log < n + mc_cap q" for n d
    using mc_read_retained [OF hist, of "of_nat n" d] conv [of n] conv [of "Suc n"] that
    by (auto simp: mc_read_op_def ok_def add.commute)
qed

lemma mc_register_unat: "mc_hist N q log \<Longrightarrow> length log < 2 ^ 64 - 1 \<Longrightarrow> unat (mc_register q) = Suc (length log)"
  using unat_Suc_word [of "mc_published q"] by (simp add: mc_register_def mc_hist_def)

section \<open>Properties\<close>

text \<open>
  C21: A consumer of the multicast queue, from its registration on and with publications and reads
  in any order, receives payloads published after it registered, each under its own sequence
  number and unchanged, in strictly increasing order; if it is never told that it lagged, it
  receives every one of them without a gap.
\<close>

theorem spmc_consumer_stream:
  assumes "mc_hist N q log" "\<forall>x \<in> set (publications ops). length x \<le> N"
    and "length log + length (publications ops) < 2 ^ 64 - 1"
    and "follow (mc_publish_op N) mc_read_op q (unat (mc_register q)) ops = (got, lags, q', nx')"
  shows "mc_hist N q' (log @ publications ops) \<and> sorted_wrt (<) (map fst got) \<and>
    (\<forall>(s, x) \<in> set got. length log < s \<and> s < nx' \<and> x = (log @ publications ops) ! (s - 1)) \<and>
    (lags = 0 \<longrightarrow> map fst got = [Suc (length log)..<nx'])"
proof -
  have reg: "unat (mc_register q) = Suc (length log)"
    using mc_register_unat [OF assms(1)] assms(3) by simp
  show ?thesis
    using mc_cast.follow_delivers [OF assms(1,2) _ _ assms(3,4)] reg by auto
qed

theorem spmc_consumer_stream_witness:
  "\<exists>q q' nx'. mc_make 1 2 = Inr q \<and>
     follow (mc_publish_op 1) mc_read_op q (unat (mc_register q))
       [Mc_read [0], Mc_publish [7], Mc_read [0], Mc_publish [8], Mc_publish [9], Mc_publish [5],
        Mc_read [0], Mc_read [0]] = ([(1, [7]), (3, [9])], 1, q', nx') \<and>
     mc_hist 1 q' [[7], [8], [9], [5]] \<and> sorted_wrt (<) (map fst [(1 :: nat, [7 :: byte]), (3, [9])])"
proof -
  let ?ops = "[Mc_read [0], Mc_publish [7], Mc_read [0], Mc_publish [8], Mc_publish [9], Mc_publish [5],
    Mc_read [0], Mc_read [0]]"
  let ?run = "\<lambda>q. follow (mc_publish_op 1) mc_read_op q (unat (mc_register q)) ?ops"
  obtain q where q: "mc_make 1 2 = Inr q" by (simp add: mc_make_def)
  obtain got lags q' nx' where d: "?run q = (got, lags, q', nx')" by (metis prod_cases4)
  have eval: "fst (?run (projr (mc_make 1 2))) = [(1, [7]), (3, [9])] \<and>
    fst (snd (?run (projr (mc_make 1 2)))) = 1"
    by code_simp
  have qe: "projr (mc_make 1 2) = q" using q by simp
  have gl: "got = [(1, [7]), (3, [9])]" "lags = 1" using eval unfolding qe d by simp_all
  have "mc_hist 1 q []" using mc_make_hist [OF q] by simp
  then have "mc_hist 1 q' ([] @ publications ?ops) \<and> sorted_wrt (<) (map fst got)"
    using spmc_consumer_stream [where log = "[]", OF _ _ _ d] by simp
  then show ?thesis using q d gl by (intro exI [of _ q] exI [of _ q'] exI [of _ nx']) simp
qed

text \<open>
  C22: What a read returns is determined by the history and the cursor, on every branch: nothing
  new is \<open>empty\<close>; a cursor whose payload is no longer retained is moved to the oldest retained
  sequence with \<open>consumer_lagged\<close>; otherwise the payload is copied and the cursor advances, or
  the destination is too small and nothing changes. The status \<open>overwritten\<close> never occurs.
\<close>

theorem spmc_read_spec:
  assumes "mc_hist N q log" "0 < unat n"
  shows "mc_try_read q n dest =
    (if length log < unat n then (read_res Empty 0 n, dest, n)
     else if unat n + mc_cap q \<le> length log
     then let oldest = of_nat (Suc (length log) - mc_cap q) in (read_res Consumer_lagged 0 oldest, dest, oldest)
     else let x = log ! (unat n - 1) in
       if length dest < length x then (read_res Message_too_large 0 n, dest, n)
       else (read_res Success (length x) n, x @ drop (length x) dest, n + 1))"
  using assms mc_read_empty [OF assms(1), of n dest] mc_read_lagged [OF assms(1), of n dest]
    mc_read_retained [OF assms, of dest]
  by (simp add: Let_def not_le not_less copy_n_def del: of_nat_Suc)

theorem spmc_read_spec_witness:
  "\<exists>q. mc_hist 1 q [[7]] \<and> mc_try_read q 1 [0, 3] = (read_res Success 1 1, [7, 3], 2) \<and>
     mc_try_read q 2 [0] = (read_res Empty 0 2, [0], 2)"
proof -
  obtain q0 where q0: "mc_make 1 2 = Inr q0" by (simp add: mc_make_def)
  obtain q where q: "mc_hist 1 q [[7]]" "mc_capacity q = 2"
    by (rule mc_publish_success [of 1 q0 "[]" "[7]"]) (use mc_make_hist [OF q0] in auto)
  show ?thesis
    using spmc_read_spec [OF q(1), of 1 "[0, 3]"] spmc_read_spec [OF q(1), of 2 "[0]"] q
    by (intro exI [of _ q]) (simp add: mc_cap_def)
qed

text \<open>
  C23: Consumer handles move: a read through a moved-from handle reports \<open>invalid_consumer\<close> and its
  last cursor and changes nothing; the target continues where the source stood; assigning a
  handle to itself changes nothing; and a read changes no queue and no other consumer.
\<close>

theorem spmc_consumer_handles:
  assumes "st_consumers s other = Some c" "new \<noteq> other"
  shows "st_try_read mc_try_read (st_move_construct s new other) other dest =
      Some (read_res Invalid_consumer 0 (cs_next c), dest, st_move_construct s new other) \<and>
    st_consumers (st_move_construct s new other) new = Some c \<and>
    st_move_assign s new other = st_move_construct s new other \<and>
    st_move_assign s other other = s \<and>
    (\<forall>r d s'. st_try_read mc_try_read s other dest = Some (r, d, s') \<longrightarrow>
       st_queues s' = st_queues s \<and> (\<forall>k. k \<noteq> other \<longrightarrow> st_consumers s' k = st_consumers s k))"
  using read_moved_from [OF assms] move_target [OF assms(1)] move_assign_construct [OF assms(2)]
    move_assign_self read_frame
  by blast

theorem spmc_consumer_handles_witness:
  "st_try_read mc_try_read (st_move_construct \<lparr>st_queues = Map.empty,
       st_consumers = [0 \<mapsto> \<lparr>cs_queue = Some 5, cs_next = 3\<rparr>]\<rparr> 1 0) 0 [] =
     Some (read_res Invalid_consumer 0 3, [], st_move_construct \<lparr>st_queues = Map.empty,
       st_consumers = [0 \<mapsto> \<lparr>cs_queue = Some 5, cs_next = 3\<rparr>]\<rparr> 1 0)"
  using spmc_consumer_handles [of "\<lparr>st_queues = Map.empty,
      st_consumers = [0 \<mapsto> \<lparr>cs_queue = Some 5, cs_next = 3\<rparr>]\<rparr>" 0 "\<lparr>cs_queue = Some 5, cs_next = 3\<rparr>" 1 "[]"]
  by simp

end
