(* ===== verification/Versioned_Spmc.thy ===== *)
theory Versioned_Spmc
  imports Spmc_Multicast
begin

text \<open>
  \<open>VersionedSPMCQueue<MaxPayloadSize>\<close> (\<open>include/orbitqueue/versioned_spmc_queue.h\<close>). The read is
  a function of the values its loads return (\<open>vq_read\<close>), with its bounded retry loop, so that the
  same function serves the undisturbed call (\<open>vq_try_read\<close>, all loads from the present state) and
  the concurrent model in \<open>Versioned_Weak\<close>.
\<close>

section \<open>Definitions\<close>

record version_cell =
  vc_version :: u64
  vc_sequence :: u64
  vc_size :: nat
  vc_storage :: "byte list"

record versioned_queue =
  vq_capacity :: u64
  vq_cells :: "version_cell list"
  vq_produced :: u64
  vq_published :: u64

definition vq_validate_capacity :: "u64 \<Rightarrow> cpp_exception + u64" where
  "vq_validate_capacity capacity =
     (if capacity = 0
      then Inl (Invalid_argument ''VersionedSPMCQueue capacity must be greater than zero'')
      else Inr capacity)"

definition vq_make :: "nat \<Rightarrow> u64 \<Rightarrow> cpp_exception + versioned_queue" where
  "vq_make N capacity =
     (case vq_validate_capacity capacity of
        Inl e \<Rightarrow> Inl e
      | Inr c \<Rightarrow> Inr \<lparr>vq_capacity = c,
          vq_cells = replicate (unat c)
            \<lparr>vc_version = 0, vc_sequence = 0, vc_size = 0, vc_storage = replicate N 0\<rparr>,
          vq_produced = 0, vq_published = 0\<rparr>)"

definition vq_register :: "versioned_queue \<Rightarrow> u64" where
  "vq_register q = vq_published q + 1"

definition vq_try_publish ::
    "nat \<Rightarrow> versioned_queue \<Rightarrow> byte list \<Rightarrow> write_result \<times> versioned_queue" where
  "vq_try_publish N q payload =
     (if length payload > N then (write_res Message_too_large 0, q)
      else (let sequence = vq_produced q + 1;
                i = ring_index (vq_capacity q) (sequence - 1);
                cell = vq_cells q ! i;
                version = vc_version cell;
                cell' = cell\<lparr>vc_version := version + 2, vc_sequence := sequence,
                  vc_size := length payload,
                  vc_storage := copy_n (length payload) payload (vc_storage cell)\<rparr>
            in (write_res Success sequence,
                q\<lparr>vq_cells := (vq_cells q)[i := cell'], vq_produced := sequence,
                  vq_published := sequence\<rparr>)))"

definition vq_oldest_retained :: "u64 \<Rightarrow> u64 \<Rightarrow> u64" where
  "vq_oldest_retained capacity published =
     (if published \<ge> capacity then published - capacity + 1 else 1)"

definition vq_resume_after_overwrite :: "u64 \<Rightarrow> u64 \<Rightarrow> u64 \<Rightarrow> u64" where
  "vq_resume_after_overwrite capacity published want =
     (let refreshed = vq_oldest_retained capacity published in
      if refreshed > want then refreshed else want)"

text \<open>The loads of one attempt, and the retry loop: \<open>None\<close> when no attempt was stable.\<close>

record snapshot =
  sn_sequence :: u64
  sn_size :: nat
  sn_scratch :: "byte list"

record observation =
  ob_before :: u64
  ob_snapshot :: snapshot
  ob_after :: u64

definition read_attempts :: nat where
  "read_attempts = 64"

fun vq_attempts :: "nat \<Rightarrow> nat \<Rightarrow> (nat \<Rightarrow> observation) \<Rightarrow> snapshot option" where
  "vq_attempts 0 attempt obs = None"
| "vq_attempts (Suc n) attempt obs =
     (if ob_before (obs attempt) AND 1 \<noteq> 0 then vq_attempts n (Suc attempt) obs
      else if ob_before (obs attempt) = ob_after (obs attempt) then Some (ob_snapshot (obs attempt))
      else vq_attempts n (Suc attempt) obs)"

text \<open>
  The part of \<open>read\<close> before the loop (an early result with the new cursor), and the part after it.
  \<open>refreshed\<close> is the value \<open>resume_after_overwrite\<close> loads from \<open>published_\<close>.
\<close>

definition vq_read_begin :: "u64 \<Rightarrow> u64 \<Rightarrow> u64 \<Rightarrow> (read_result \<times> u64) option" where
  "vq_read_begin capacity published next_sequence =
     (if next_sequence > published then Some (read_res Empty 0 next_sequence, next_sequence)
      else let oldest = vq_oldest_retained capacity published in
        if next_sequence < oldest then Some (read_res Consumer_lagged 0 oldest, oldest) else None)"

definition vq_read_end ::
    "u64 \<Rightarrow> u64 \<Rightarrow> snapshot option \<Rightarrow> u64 \<Rightarrow> byte list \<Rightarrow> read_result \<times> byte list \<times> u64" where
  "vq_read_end capacity want snap refreshed destination =
     (let resume = vq_resume_after_overwrite capacity refreshed want in
      case snap of
        None \<Rightarrow> (read_res Overwritten 0 resume, destination, resume)
      | Some sn \<Rightarrow>
          if sn_sequence sn \<noteq> want then (read_res Overwritten 0 resume, destination, resume)
          else if length destination < sn_size sn then (read_res Message_too_large 0 want, destination, want)
          else (read_res Success (sn_size sn) want, copy_n (sn_size sn) (sn_scratch sn) destination, want + 1))"

definition vq_read ::
    "u64 \<Rightarrow> u64 \<Rightarrow> (nat \<Rightarrow> observation) \<Rightarrow> u64 \<Rightarrow> u64 \<Rightarrow> byte list \<Rightarrow> read_result \<times> byte list \<times> u64" where
  "vq_read capacity published obs refreshed next_sequence destination =
     (case vq_read_begin capacity published next_sequence of
        Some (result, n) \<Rightarrow> (result, destination, n)
      | None \<Rightarrow> vq_read_end capacity next_sequence (vq_attempts read_attempts 0 obs) refreshed destination)"

definition cell_observation :: "version_cell \<Rightarrow> observation" where
  "cell_observation c = \<lparr>ob_before = vc_version c,
     ob_snapshot = \<lparr>sn_sequence = vc_sequence c, sn_size = vc_size c, sn_scratch = vc_storage c\<rparr>,
     ob_after = vc_version c\<rparr>"

definition vq_try_read ::
    "versioned_queue \<Rightarrow> u64 \<Rightarrow> byte list \<Rightarrow> read_result \<times> byte list \<times> u64" where
  "vq_try_read q next_sequence destination =
     vq_read (vq_capacity q) (vq_published q)
       (\<lambda>_. cell_observation (vq_cells q ! ring_index (vq_capacity q) (next_sequence - 1)))
       (vq_published q) next_sequence destination"

subsection \<open>The queue it promises to be\<close>

text \<open>
  A versioned queue between two calls, seen as the mutex queue: forget the versions. Between two
  calls every version is even.
\<close>

definition vc_message :: "version_cell \<Rightarrow> fixed_message" where
  "vc_message c = \<lparr>fm_storage = vc_storage c, fm_size = vc_size c, fm_sequence = vc_sequence c\<rparr>"

definition vq_abs :: "versioned_queue \<Rightarrow> multicast_queue" where
  "vq_abs q = \<lparr>mc_capacity = vq_capacity q, mc_slots = map vc_message (vq_cells q),
     mc_published = vq_published q\<rparr>"

definition vq_quiet :: "versioned_queue \<Rightarrow> bool" where
  "vq_quiet q \<longleftrightarrow> vq_capacity q \<noteq> 0 \<and> length (vq_cells q) = unat (vq_capacity q) \<and>
     (\<forall>c \<in> set (vq_cells q). even (unat (vc_version c))) \<and> vq_produced q = vq_published q"

definition vq_hist :: "nat \<Rightarrow> versioned_queue \<Rightarrow> byte list list \<Rightarrow> bool" where
  "vq_hist N q log \<longleftrightarrow> vq_quiet q \<and> mc_hist N (vq_abs q) log"

definition vq_rel :: "nat \<Rightarrow> nat \<Rightarrow> versioned_queue \<Rightarrow> multicast_queue \<Rightarrow> bool" where
  "vq_rel N k v q \<longleftrightarrow> q = vq_abs v \<and> (\<exists>log. vq_hist N v log \<and> length log + k < 2 ^ 64 - 1)"

definition vq_publish_op :: "nat \<Rightarrow> versioned_queue \<Rightarrow> byte list \<Rightarrow> queue_status \<times> nat \<times> versioned_queue" where
  "vq_publish_op N q payload = (case vq_try_publish N q payload of
     (r, q') \<Rightarrow> (wr_status r, unat (wr_sequence r), q'))"

definition vq_read_op ::
    "versioned_queue \<Rightarrow> nat \<Rightarrow> byte list \<Rightarrow> queue_status \<times> byte list option \<times> nat" where
  "vq_read_op q n dest = (case vq_try_read q (of_nat n) dest of
     (r, d, n') \<Rightarrow> (rr_status r, if ok (rr_status r) then Some (take (rr_bytes_read r) d) else None, unat n'))"

subsection \<open>Consumer handles\<close>

text \<open>The members of the class \<open>Consumer\<close> of this header.\<close>

definition vc_move_construct :: "versioned_queue cast_store \<Rightarrow> nat \<Rightarrow> nat \<Rightarrow> versioned_queue cast_store" where
  "vc_move_construct = st_move_construct"

definition vc_move_assign :: "versioned_queue cast_store \<Rightarrow> nat \<Rightarrow> nat \<Rightarrow> versioned_queue cast_store" where
  "vc_move_assign = st_move_assign"

definition vc_try_read ::
    "versioned_queue cast_store \<Rightarrow> nat \<Rightarrow> byte list \<Rightarrow> (read_result \<times> byte list \<times> versioned_queue cast_store) option" where
  "vc_try_read = st_try_read vq_try_read"

section \<open>The undisturbed read\<close>

lemma oldest_retained_eq: "vq_oldest_retained = mc_oldest"
  by (simp add: vq_oldest_retained_def mc_oldest_def fun_eq_iff)

lemma odd_word: "(v AND 1 \<noteq> (0 :: u64)) \<longleftrightarrow> odd (unat v)"
proof -
  have "unat (v AND 1) = unat v mod 2" by (simp add: and_one_eq unat_mod)
  then show ?thesis by (metis odd_iff_mod_2_eq_one unat_eq_0 zero_neq_one parity_cases)
qed

lemma vq_attempts_stable:
  assumes "even (unat (ob_before ob))" "ob_after ob = ob_before ob"
  shows "vq_attempts read_attempts 0 (\<lambda>_. ob) = Some (ob_snapshot ob)"
proof -
  have n: "read_attempts = Suc 63" by (simp add: read_attempts_def)
  have "\<not> ob_before ob AND 1 \<noteq> 0" using assms(1) odd_word by blast
  then show ?thesis unfolding n vq_attempts.simps using assms(2) by (simp add: Let_def)
qed

text \<open>A cursor never moves backward, whatever the loads returned.\<close>

lemma vq_resume_ge: "want \<le> vq_resume_after_overwrite capacity published want"
  by (simp add: vq_resume_after_overwrite_def Let_def order.strict_implies_order)

lemma vq_read_begin_cursor: "vq_read_begin capacity published n = Some (r, n') \<Longrightarrow> n \<le> n'"
  by (auto simp: vq_read_begin_def Let_def split: if_splits)

lemma vq_read_end_cursor:
  assumes "n < n + 1"
  shows "n \<le> snd (snd (vq_read_end capacity n sn refreshed dest))"
  using vq_resume_ge [of n capacity refreshed] assms
  by (auto simp: vq_read_end_def Let_def split: option.splits)

section \<open>Refinement of the mutex queue\<close>

lemma even_plus_2: "even (unat (v :: u64)) \<Longrightarrow> even (unat (v + 2))"
proof -
  assume "even (unat v)"
  then have "even ((unat v + 2) mod 2 ^ 64)" by (simp add: dvd_mod_iff)
  then show ?thesis by (simp add: unat_word_ariths)
qed

lemma vq_make_hist:
  assumes "vq_make N capacity = Inr q"
  shows "vq_hist N q [] \<and> vq_capacity q = capacity \<and> mc_make N capacity = Inr (vq_abs q)"
proof -
  have q: "q = \<lparr>vq_capacity = capacity, vq_cells = replicate (unat capacity)
            \<lparr>vc_version = 0, vc_sequence = 0, vc_size = 0, vc_storage = replicate N 0\<rparr>,
          vq_produced = 0, vq_published = 0\<rparr>" and c: "capacity \<noteq> 0"
    using assms by (auto simp: vq_make_def vq_validate_capacity_def split: if_splits)
  have m: "mc_make N capacity = Inr (vq_abs q)"
    using c by (simp add: q mc_make_def vq_abs_def vc_message_def fm_new_def)
  then have "mc_hist N (vq_abs q) []" using mc_make_hist by blast
  then show ?thesis using m c by (simp add: q vq_hist_def vq_quiet_def)
qed

lemma vq_publish_abs:
  assumes "vq_quiet q"
  shows "mc_try_publish N (vq_abs q) x = (case vq_try_publish N q x of (r, q') \<Rightarrow> (r, vq_abs q'))"
proof -
  have "ring_index (vq_capacity q) n < length (vq_cells q)" for n
    using assms by (simp add: vq_quiet_def ring_index_def unat_mod unat_gt_0)
  then show ?thesis using assms
    by (simp add: vq_quiet_def mc_try_publish_def vq_try_publish_def vq_abs_def fm_assign_def Let_def
        vc_message_def map_update)
qed

lemma vq_publish_quiet:
  assumes "vq_quiet q"
  shows "vq_quiet (snd (vq_try_publish N q x))"
proof -
  let ?i = "ring_index (vq_capacity q) (vq_produced q)"
  have "?i < length (vq_cells q)"
    using assms by (simp add: vq_quiet_def ring_index_def unat_mod unat_gt_0)
  then have "even (unat (vc_version (vq_cells q ! ?i) + 2))"
    using assms even_plus_2 by (simp add: vq_quiet_def)
  then show ?thesis using assms
    by (auto simp: vq_quiet_def vq_try_publish_def Let_def dest!: subsetD [OF set_update_subset_insert])
qed

lemma vq_publish_hist:
  assumes "vq_hist N q log" "length x \<le> N" "Suc (length log) < 2 ^ 64"
  obtains q' where "vq_try_publish N q x = (write_res Success (of_nat (Suc (length log))), q')"
    and "vq_hist N q' (log @ [x])" "vq_capacity q' = vq_capacity q"
proof -
  obtain r q' where p: "vq_try_publish N q x = (r, q')" by fastforce
  have quiet: "vq_quiet q" and hist: "mc_hist N (vq_abs q) log" using assms(1) by (simp_all add: vq_hist_def)
  have "mc_try_publish N (vq_abs q) x = (r, vq_abs q')" using vq_publish_abs [OF quiet] p by simp
  then have "r = write_res Success (of_nat (Suc (length log)))" "mc_hist N (vq_abs q') (log @ [x])"
    "mc_capacity (vq_abs q') = mc_capacity (vq_abs q)"
    using mc_publish_success [OF hist assms(2,3)] by (metis prod.inject)+
  moreover have "vq_quiet q'" using vq_publish_quiet [OF quiet, of N x] p by simp
  ultimately show ?thesis using that p by (simp add: vq_hist_def vq_abs_def)
qed

lemma vq_read_abs:
  assumes v: "vq_hist N v log" and n: "0 < unat n"
  shows "vq_try_read v n dest = mc_try_read (vq_abs v) n dest"
proof -
  let ?i = "ring_index (vq_capacity v) (n - 1)" and ?q = "vq_abs v"
  define c where "c = vq_cells v ! ?i"
  have m: "mc_hist N ?q log" and quiet: "vq_quiet v" using v by (simp_all add: vq_hist_def)
  have i: "?i < length (vq_cells v)" using quiet by (simp add: vq_quiet_def ring_index_def unat_mod unat_gt_0)
  have slot: "mc_slots ?q ! ?i = vc_message c" using i by (simp add: vq_abs_def c_def)
  have even: "even (unat (vc_version c))" using i quiet by (simp add: c_def vq_quiet_def)
  have obs: "vq_attempts read_attempts 0 (\<lambda>_. cell_observation c) =
      Some \<lparr>sn_sequence = vc_sequence c, sn_size = vc_size c, sn_scratch = vc_storage c\<rparr>"
    using vq_attempts_stable [of "cell_observation c"] even by (simp add: cell_observation_def)
  have cm: "mc_capacity ?q = vq_capacity v" "mc_published ?q = vq_published v" by (simp_all add: vq_abs_def)
  show ?thesis
  proof (cases "vq_read_begin (vq_capacity v) (vq_published v) n")
    case (Some a)
    then show ?thesis
      by (auto simp: vq_try_read_def vq_read_def mc_try_read_def vq_read_begin_def cm
          oldest_retained_eq Let_def split: if_splits)
  next
    case None
    then have rest: "\<not> mc_published ?q < n" "\<not> n < mc_oldest (mc_capacity ?q) (mc_published ?q)"
      by (auto simp: vq_read_begin_def cm oldest_retained_eq Let_def split: if_splits)
    have "rr_status (fst (mc_try_read ?q n dest)) \<noteq> Overwritten"
      by (rule mc_read_not_overwritten [OF m n])
    then have "vc_sequence c = n"
      using rest slot by (auto simp: mc_try_read_def cm Let_def vc_message_def split: if_splits)
    then show ?thesis
      using None rest slot obs
      by (simp add: vq_try_read_def vq_read_def c_def [symmetric] vq_read_end_def mc_try_read_def
          cm Let_def vc_message_def fm_copy_to_def ok_def)
  qed
qed

interpretation vq_mc: cast_refinement "vq_rel N" "\<lambda>n. 0 < unat n" "vq_try_publish N" vq_register vq_try_read
  "mc_try_publish N" mc_register mc_try_read for N
proof
  fix k p q
  show "vq_rel N k p q" if "vq_rel N (Suc k) p q" using that by (auto simp: vq_rel_def)
  show "\<exists>r p' q'. vq_try_publish N p x = (r, p') \<and> mc_try_publish N q x = (r, q') \<and> vq_rel N k p' q'"
    if rel: "vq_rel N (Suc k) p q" for x
  proof -
    obtain log where q: "q = vq_abs p" and hist: "vq_hist N p log" and life: "length log + Suc k < 2 ^ 64 - 1"
      using rel unfolding vq_rel_def by blast
    obtain r p' where p: "vq_try_publish N p x = (r, p')" by fastforce
    have quiet: "vq_quiet p" using hist by (simp add: vq_hist_def)
    have m: "mc_try_publish N q x = (r, vq_abs p')" using vq_publish_abs [OF quiet] p q by simp
    have "vq_rel N k p' (vq_abs p')"
    proof (cases "length x \<le> N")
      case True
      have "Suc (length log) < 2 ^ 64" using life by simp
      from vq_publish_hist [OF hist True this] have "vq_hist N p' (log @ [x])" by (metis p prod.inject)
      then show ?thesis using life by (auto simp: vq_rel_def intro!: exI [of _ "log @ [x]"])
    next
      case False
      then have "p' = p" using p by (simp add: vq_try_publish_def)
      then show ?thesis using hist life by (auto simp: vq_rel_def)
    qed
    then show ?thesis using p m by blast
  qed
  assume rel: "vq_rel N k p q"
  then obtain log where q: "q = vq_abs p" and hist: "vq_hist N p log" and life: "length log < 2 ^ 64 - 1"
    unfolding vq_rel_def by (metis add_lessD1)
  have m: "mc_hist N q log" using hist q by (simp add: vq_hist_def)
  have "vq_register p = mc_register q" by (simp add: q vq_register_def mc_register_def vq_abs_def)
  then show "vq_register p = mc_register q \<and> 0 < unat (mc_register q)" using mc_register_unat [OF m life] by simp
  show "vq_try_read p n d = mc_try_read q n d \<and> 0 < unat (snd (snd (mc_try_read q n d)))"
    if "0 < unat n" for n d
    using vq_read_abs [OF hist that] mc_read_cursor [OF m that life, of d] that q by simp
qed

text \<open>The broadcast contract, from the one of the mutex queue.\<close>

lemma vq_read_op_abs:
  assumes "vq_hist N q log" "0 < n" "n < 2 ^ 64"
  shows "vq_read_op q n d = mc_read_op (vq_abs q) n d"
proof -
  have "unat (of_nat n :: u64) = n" using assms(3) by (rule unat_of_nat_64)
  then show ?thesis using vq_read_abs [OF assms(1), of "of_nat n" d] assms(2)
    by (simp add: vq_read_op_def mc_read_op_def)
qed

interpretation vq_cast: multicast "vq_hist N" "\<lambda>q. mc_cap (vq_abs q)" "2 ^ 64 - 1" "\<lambda>x. length x \<le> N"
  "\<lambda>x dest. length x \<le> length dest" "vq_publish_op N" vq_read_op for N
proof
  fix q log
  assume hist: "vq_hist N q log"
  then have m: "mc_hist N (vq_abs q) log" by (simp add: vq_hist_def)
  show "0 < mc_cap (vq_abs q)" using mc_cap_pos [OF m] .
  show "\<exists>q'. vq_publish_op N q x = (Success, Suc (length log), q') \<and> vq_hist N q' (log @ [x]) \<and>
      mc_cap (vq_abs q') = mc_cap (vq_abs q)" if "length x \<le> N" "Suc (length log) < 2 ^ 64 - 1" for x
  proof -
    have life: "Suc (length log) < 2 ^ 64" using that(2) by simp
    show ?thesis
      by (rule vq_publish_hist [OF hist that(1) life])
        (use life in \<open>simp add: vq_publish_op_def mc_cap_def vq_abs_def unat_of_nat_64 del: of_nat_Suc\<close>)
  qed
  assume lim: "length log < 2 ^ 64 - 1"
  note op = vq_read_op_abs [OF hist]
  show "vq_read_op q (Suc (length log)) d = (Empty, None, Suc (length log))" for d
    using op [of "Suc (length log)" d] mc_cast.read_empty [OF m lim] lim by simp
  show "vq_read_op q n d = (Consumer_lagged, None, Suc (length log) - mc_cap (vq_abs q))"
    if "0 < n" "n + mc_cap (vq_abs q) \<le> length log" for n d
    using op [of n d] mc_cast.read_lagged [OF m lim that] lim that by simp
  show "vq_read_op q n d =
      (if length (log ! (n - 1)) \<le> length d then (Success, Some (log ! (n - 1)), Suc n)
       else (Message_too_large, None, n))"
    if "0 < n" "n \<le> length log" "length log < n + mc_cap (vq_abs q)" for n d
    using op [of n d] mc_cast.read_retained [OF m lim that] lim that by simp
qed

lemma vq_attempts_cong:
  "(\<And>i. a \<le> i \<Longrightarrow> i < a + n \<Longrightarrow> obs i = obs' i) \<Longrightarrow> vq_attempts n a obs = vq_attempts n a obs'"
  by (induction n arbitrary: a) simp_all

section \<open>Properties\<close>

text \<open>
  C20: As the header of the class says, the observable contract of the versioned queue is the one of
  the mutex queue: on queues of the same capacities, a client program of publications,
  registrations, handle moves and reads, over any number of queues and handles, gets exactly the
  same answers, delivered bytes, sequence numbers and statuses from both implementations.
\<close>

theorem versioned_equals_multicast:
  assumes "length (cast_publications ops) < 2 ^ 64 - 1"
    and "\<And>a. rel_option (\<lambda>v q. \<exists>c. vq_make N c = Inr v \<and> mc_make N c = Inr q) (vqs a) (mcs a)"
  shows "fst (cast_run (vq_try_publish N) vq_register vq_try_read
      \<lparr>st_queues = vqs, st_consumers = Map.empty\<rparr> ops) =
    fst (cast_run (mc_try_publish N) mc_register mc_try_read
      \<lparr>st_queues = mcs, st_consumers = Map.empty\<rparr> ops)"
proof (rule vq_mc.run_equal)
  have "vq_rel N (length (cast_publications ops)) v q" if "vq_make N c = Inr v" "mc_make N c = Inr q" for v q c
    using vq_make_hist [OF that(1)] that(2) assms(1) by (auto simp: vq_rel_def intro!: exI [of _ "[]"])
  then have "rel_option (vq_rel N (length (cast_publications ops))) (vqs a) (mcs a)" for a
    using option.rel_mono_strong [OF assms(2)] by blast
  then show "store_rel (\<lambda>n. 0 < unat n) (vq_rel N (length (cast_publications ops)))
      \<lparr>st_queues = vqs, st_consumers = Map.empty\<rparr> \<lparr>st_queues = mcs, st_consumers = Map.empty\<rparr>"
    by (simp add: store_rel_def)
qed

theorem versioned_equals_multicast_witness:
  "fst (cast_run (vq_try_publish 1) vq_register vq_try_read
      \<lparr>st_queues = [0 \<mapsto> projr (vq_make 1 2)], st_consumers = Map.empty\<rparr>
      [Cast_register 0 0, Cast_publish 0 [7], Cast_publish 0 [8], Cast_publish 0 [9], Cast_read 0 [0],
       Cast_move_construct 1 0, Cast_read 1 [0], Cast_read 0 [0]]) =
   fst (cast_run (mc_try_publish 1) mc_register mc_try_read
      \<lparr>st_queues = [0 \<mapsto> projr (mc_make 1 2)], st_consumers = Map.empty\<rparr>
      [Cast_register 0 0, Cast_publish 0 [7], Cast_publish 0 [8], Cast_publish 0 [9], Cast_read 0 [0],
       Cast_move_construct 1 0, Cast_read 1 [0], Cast_read 0 [0]]) \<and>
   vq_make 1 2 = Inr (projr (vq_make 1 2)) \<and> mc_make 1 2 = Inr (projr (mc_make 1 2))"
proof -
  have "vq_make 1 2 = Inr (projr (vq_make 1 2))" "mc_make 1 2 = Inr (projr (mc_make 1 2))"
    by (simp_all add: vq_make_def vq_validate_capacity_def mc_make_def)
  moreover from this have "rel_option (\<lambda>v q. \<exists>c. vq_make 1 c = Inr v \<and> mc_make 1 c = Inr q)
      ([0 \<mapsto> projr (vq_make 1 2)] a) ([0 \<mapsto> projr (mc_make 1 2)] a)" for a :: nat
    by (cases "a = 0") auto
  ultimately show ?thesis by (intro conjI versioned_equals_multicast) simp_all
qed

text \<open>
  A consumer of the versioned queue, with publications and reads in any order and each
  undisturbed, receives payloads published after it registered, unchanged and in strictly
  increasing order, and every one of them if it is never told that it lagged.
\<close>

lemma versioned_consumer_stream:
  assumes "vq_hist N q log" "\<forall>x \<in> set (publications ops). length x \<le> N"
    and "length log + length (publications ops) < 2 ^ 64 - 1"
    and "follow (vq_publish_op N) vq_read_op q (unat (vq_register q)) ops = (got, lags, q', nx')"
  shows "vq_hist N q' (log @ publications ops) \<and> sorted_wrt (<) (map fst got) \<and>
    (\<forall>(s, x) \<in> set got. length log < s \<and> s < nx' \<and> x = (log @ publications ops) ! (s - 1)) \<and>
    (lags = 0 \<longrightarrow> map fst got = [Suc (length log)..<nx'])"
proof -
  have "mc_hist N (vq_abs q) log" using assms(1) by (simp add: vq_hist_def)
  then have "unat (mc_register (vq_abs q)) = Suc (length log)"
    using mc_register_unat assms(3) by simp
  then have "unat (vq_register q) = Suc (length log)" by (simp add: vq_register_def mc_register_def vq_abs_def)
  then show ?thesis
    using vq_cast.follow_delivers [OF assms(1,2) _ _ assms(3,4)] by auto
qed

text \<open>
  A read looks at the cell at most 64 times and always answers: two sequences of loads that agree on
  the first 64 attempts give the same result, whatever the producer does. And whatever the loads
  return, the cursor does not move backward, so no sequence is delivered twice.
\<close>

lemma versioned_read_bounded:
  assumes "\<forall>a < 64. obs a = obs' a"
  shows "vq_read capacity published obs refreshed n dest = vq_read capacity published obs' refreshed n dest \<and>
    (n \<noteq> - 1 \<longrightarrow> n \<le> snd (snd (vq_read capacity published obs refreshed n dest)))"
proof -
  have same: "vq_attempts read_attempts 0 obs = vq_attempts read_attempts 0 obs'"
    by (rule vq_attempts_cong) (use assms in \<open>simp add: read_attempts_def\<close>)
  have "n \<le> snd (snd (vq_read capacity published obs refreshed n dest))" if "n \<noteq> - 1"
  proof -
    have "1 + n \<noteq> 0" using that by (metis add.commute eq_neg_iff_add_eq_0)
    then have "n < n + 1" by (simp add: word_less_nat_alt unatSuc add.commute)
    then show ?thesis
      using vq_read_begin_cursor [of capacity published n] vq_read_end_cursor
      by (auto simp: vq_read_def split: option.splits)
  qed
  then show ?thesis unfolding vq_read_def same by blast
qed

end
