(* ===== verification/Ring_Generations.thy ===== *)
theory Ring_Generations
  imports Main
begin

text \<open>
  Publications and ring cells: publication \<open>s\<close> (counted from 1) of a queue with \<open>C\<close> cells goes to
  cell \<open>vcell C s\<close> as its generation \<open>vgen C s\<close>; \<open>gens C i n\<close> of the first \<open>n\<close> publications went to
  cell \<open>i\<close>. The lemmas relate the three; \<open>overtaken\<close> says when a cell has been reused.
\<close>

section \<open>Definitions\<close>

definition vcell :: "nat \<Rightarrow> nat \<Rightarrow> nat" where
  "vcell C s = (s - 1) mod C"

definition vgen :: "nat \<Rightarrow> nat \<Rightarrow> nat" where
  "vgen C s = (s - 1) div C + 1"

fun gens :: "nat \<Rightarrow> nat \<Rightarrow> nat \<Rightarrow> nat" where
  "gens C i 0 = 0"
| "gens C i (Suc n) = gens C i n + (if n mod C = i then 1 else 0)"

section \<open>Counting generations\<close>

lemma gens_mono: "m \<le> n \<Longrightarrow> gens C i m \<le> gens C i n"
proof (induction n)
  case (Suc n)
  then show ?case by (cases "m = Suc n") auto
qed simp

lemma gens_le: "gens C i n \<le> n"
  by (induction n) auto

lemma gens_closed: "i < C \<Longrightarrow> gens C i n = (n + C - 1 - i) div C"
proof (induction n)
  case (Suc n)
  have "(Suc n + C - 1 - i) = Suc (n + C - 1 - i)" using Suc.prems by simp
  moreover have "n mod C = i \<longleftrightarrow> Suc (n + C - 1 - i) mod C = 0"
  proof -
    have "Suc (n + C - 1 - i) = n + C - i" using Suc.prems by simp
    moreover have "(n + C - i) mod C = 0 \<longleftrightarrow> n mod C = i"
      using Suc.prems mod_eq_dvd_iff_nat [of i "n + C" C] by (simp add: mod_eq_0_iff_dvd)
    ultimately show ?thesis by simp
  qed
  ultimately show ?case using Suc by (simp add: div_Suc)
qed simp

lemma gens_own:
  assumes "0 < C" "0 < s"
  shows "gens C (vcell C s) s = vgen C s"
proof -
  define q where "q = s - 1"
  have s: "s = Suc q" using assms(2) by (simp add: q_def)
  have "q = q div C * C + q mod C" by simp
  then have e: "s + C - 1 - q mod C = q div C * C + C" using s by linarith
  have "gens C (q mod C) s = (s + C - 1 - q mod C) div C" by (rule gens_closed) (simp add: assms(1))
  also have "\<dots> = q div C + 1" unfolding e using assms(1) by simp
  finally show ?thesis by (simp add: vcell_def vgen_def q_def)
qed

lemma gens_prev:
  assumes "0 < C"
  shows "gens C (vcell C (Suc n)) n = vgen C (Suc n) - 1"
  using gens_own [OF assms, of "Suc n"] by (simp add: vcell_def)

lemma vgen_le_gens:
  assumes "0 < C" "0 < s" "s \<le> n"
  shows "vgen C s \<le> gens C (vcell C s) n"
  using gens_own [OF assms(1,2)] gens_mono [OF assms(3)] by metis

text \<open>A cell with more generations than that of \<open>s\<close> has been taken over by a later publication.\<close>

lemma overtaken:
  assumes "0 < C" "0 < s" "vgen C s < gens C (vcell C s) n"
  shows "s + C \<le> n"
proof (rule ccontr)
  assume "\<not> s + C \<le> n"
  then have "n \<le> s + C - 1" by simp
  then have "gens C (vcell C s) n \<le> gens C (vcell C s) (s + C - 1)" by (rule gens_mono)
  also have "\<dots> = vgen C s"
  proof -
    define q where "q = s - 1"
    have s: "s = Suc q" using assms(2) by (simp add: q_def)
    have "q = q div C * C + q mod C" by simp
    then have e: "s + C - 1 + C - 1 - q mod C = (q div C + 1) * C + (C - 1)" using assms(1) s by (simp; linarith)
    have "gens C (q mod C) (s + C - 1) = (s + C - 1 + C - 1 - q mod C) div C"
      by (rule gens_closed) (simp add: assms(1))
    also have "\<dots> = q div C + 1" unfolding e using assms(1) by (simp only: div_mult_self3) simp
    finally show ?thesis by (simp add: vcell_def vgen_def q_def)
  qed
  finally show False using assms(3) by simp
qed

lemma same_cell_gen:
  assumes "vcell C s = vcell C s'" "vgen C s = vgen C s'" "0 < s" "0 < s'"
  shows "s = s'"
proof -
  have "s - 1 = (s - 1) div C * C + (s - 1) mod C" by simp
  also have "\<dots> = (s' - 1) div C * C + (s' - 1) mod C" using assms(1,2) by (simp add: vcell_def vgen_def)
  also have "\<dots> = s' - 1" by simp
  finally show ?thesis using assms(3,4) by simp
qed

lemma vgen_mono: "s \<le> s' \<Longrightarrow> vgen C s \<le> vgen C s'"
  by (simp add: vgen_def div_le_mono)

lemma same_cell_le:
  assumes "vcell C s = vcell C s'" "vgen C s \<le> vgen C s'" "0 < s'"
  shows "s \<le> s'"
proof -
  have "s - 1 = (s - 1) div C * C + (s - 1) mod C" by simp
  also have "\<dots> \<le> (s' - 1) div C * C + (s' - 1) mod C"
    using assms(1,2) unfolding vcell_def vgen_def by (intro add_mono mult_le_mono1) simp_all
  also have "\<dots> = s' - 1" by simp
  finally show ?thesis using assms(3) by simp
qed

end
