(* ===== verification/Versioned_Machine.thy ===== *)
theory Versioned_Machine
  imports Versioned_Spmc Ring_Generations
begin

text \<open>
  \<open>VersionedSPMCQueue\<close> under the C++ memory model: the producer thread and any number of consumer
  threads, one atomic access or fence at a time (\<open>include/orbitqueue/versioned_spmc_queue.h\<close>).

  Memory keeps, for every atomic object, all stores in modification order; a store carries the
  view that an acquiring reader synchronises with, and a thread has a view of the earliest store
  of each object it may still read. A relaxed load reads any store not older than the view, and
  remembers the store's view until an acquire fence; an acquire load joins it at once; a release
  fence fixes the view that later relaxed stores carry; a release store carries the thread's
  whole view. All objects are written by the producer alone, so their modification order is its
  program order, and the consumers write nothing, so this is all the memory model allows.
  \<open>m_by\<close> and \<open>vw_log\<close> are ghosts: which publication a store belongs to, and the payloads of all
  publications begun so far.
\<close>

section \<open>Definitions\<close>

subsection \<open>Memory\<close>

datatype loc = Pub | Ver nat | Seq nat | Size nat | Byte nat nat

type_synonym view = "loc \<Rightarrow> nat"

record msg =
  m_val :: u64
  m_view :: view
  m_by :: nat

type_synonym memory = "loc \<Rightarrow> msg list"

definition join :: "view \<Rightarrow> view \<Rightarrow> view" where
  "join V W = (\<lambda>l. max (V l) (W l))"

definition newest :: "memory \<Rightarrow> view" where
  "newest mem = (\<lambda>l. length (mem l) - 1)"

text \<open>A store: the message carries \<open>V\<close> and its own position.\<close>

definition store :: "loc \<Rightarrow> u64 \<Rightarrow> view \<Rightarrow> nat \<Rightarrow> memory \<Rightarrow> memory" where
  "store l v V b mem = mem(l := mem l @ [\<lparr>m_val = v, m_view = V(l := length (mem l)), m_by = b\<rparr>])"

definition can_load :: "memory \<Rightarrow> view \<Rightarrow> loc \<Rightarrow> nat \<Rightarrow> bool" where
  "can_load mem V l ts \<longleftrightarrow> V l \<le> ts \<and> ts < length (mem l)"

definition loaded :: "memory \<Rightarrow> loc \<Rightarrow> nat \<Rightarrow> u64" where
  "loaded mem l ts = m_val (mem l ! ts)"

definition acquire_view :: "memory \<Rightarrow> view \<Rightarrow> loc \<Rightarrow> nat \<Rightarrow> view" where
  "acquire_view mem V l ts = join (V(l := ts)) (m_view (mem l ! ts))"

subsection \<open>The producer\<close>

datatype writer_pc =
    W_idle
  | W_load "byte list" u64
  | W_mark "byte list" u64 u64
  | W_fence "byte list" u64 u64
  | W_data "byte list" u64 u64 "(loc \<times> u64) list"
  | W_fence2 "byte list" u64 u64
  | W_even "byte list" u64 u64
  | W_pub "byte list" u64
  | W_done write_result

datatype reader_pc =
    R_unregistered
  | R_idle
  | R_check "byte list" u64
  | R_before "byte list" u64 nat
  | R_data "byte list" u64 nat u64 "u64 list"
  | R_after "byte list" u64 nat u64 "u64 list"
  | R_end "byte list" u64 "snapshot option"
  | R_done read_result "byte list"

record reader =
  rd_pc :: reader_pc
  rd_next :: u64
  rd_view :: view
  rd_acq :: view
  rd_out :: "(u64 \<times> read_result \<times> byte list \<times> byte list) list"

record vw_sys =
  vw_mem :: memory
  vw_produced :: u64
  vw_writer :: writer_pc
  vw_rel :: view
  vw_log :: "byte list list"
  vw_reader :: "nat \<Rightarrow> reader"

text \<open>The guarded fields of the cell of a sequence, and the stores of one publication to them.\<close>

definition cell_of :: "u64 \<Rightarrow> u64 \<Rightarrow> nat" where
  "cell_of cap sequence = ring_index cap (sequence - 1)"

definition data_writes :: "u64 \<Rightarrow> byte list \<Rightarrow> u64 \<Rightarrow> (loc \<times> u64) list" where
  "data_writes cap payload sequence =
     (let i = cell_of cap sequence in
      [(Seq i, sequence), (Size i, of_nat (length payload))] @
      map (\<lambda>k. (Byte i k, ucast (payload ! k))) [0..<length payload])"

definition data_locs :: "nat \<Rightarrow> nat \<Rightarrow> loc list" where
  "data_locs N i = [Seq i, Size i] @ map (Byte i) [0..<N]"

definition to_snapshot :: "u64 list \<Rightarrow> snapshot" where
  "to_snapshot vals = \<lparr>sn_sequence = vals ! 0, sn_size = unat (vals ! 1), sn_scratch = map ucast (drop 2 vals)\<rparr>"

definition vw_init_reader :: reader where
  "vw_init_reader = \<lparr>rd_pc = R_unregistered, rd_next = 0, rd_view = (\<lambda>_. 0), rd_acq = (\<lambda>_. 0), rd_out = []\<rparr>"

text \<open>The constructor accepts positive capacities; \<open>MaxPayloadSize\<close> is a \<open>std::size_t\<close>.\<close>

definition vw_init :: "nat \<Rightarrow> u64 \<Rightarrow> vw_sys \<Rightarrow> bool" where
  "vw_init N cap s \<longleftrightarrow> 0 < unat cap \<and> N < 2 ^ 64 \<and>
     s = \<lparr>vw_mem = (\<lambda>_. [\<lparr>m_val = 0, m_view = (\<lambda>_. 0), m_by = 0\<rparr>]), vw_produced = 0,
     vw_writer = W_idle, vw_rel = (\<lambda>_. 0), vw_log = [], vw_reader = (\<lambda>_. vw_init_reader)\<rparr>"

inductive vw_write :: "nat \<Rightarrow> u64 \<Rightarrow> vw_sys \<Rightarrow> vw_sys \<Rightarrow> bool" for N cap where
  w_reject: "vw_writer s = W_idle \<Longrightarrow> length (payload :: byte list) > N \<Longrightarrow>
    vw_write N cap s (s\<lparr>vw_writer := W_done (write_res Message_too_large 0)\<rparr>)"
| w_begin: "vw_writer s = W_idle \<Longrightarrow> length payload \<le> N \<Longrightarrow>
    vw_write N cap s
      (s\<lparr>vw_log := vw_log s @ [payload], vw_writer := W_load payload (vw_produced s + 1)\<rparr>)"
| w_load: "vw_writer s = W_load payload sequence \<Longrightarrow>
    version = m_val (last (vw_mem s (Ver (cell_of cap sequence)))) \<Longrightarrow>
    vw_write N cap s (s\<lparr>vw_writer := W_mark payload sequence version\<rparr>)"
| w_mark: "vw_writer s = W_mark payload sequence version \<Longrightarrow>
    vw_write N cap s
      (s\<lparr>vw_mem := store (Ver (cell_of cap sequence)) (version + 1) (vw_rel s) (length (vw_log s)) (vw_mem s),
         vw_writer := W_fence payload sequence version\<rparr>)"
| w_fence: "vw_writer s = W_fence payload sequence version \<Longrightarrow>
    vw_write N cap s
      (s\<lparr>vw_rel := newest (vw_mem s),
         vw_writer := W_data payload sequence version (data_writes cap payload sequence)\<rparr>)"
| w_data: "vw_writer s = W_data payload sequence version ((l, v) # todo) \<Longrightarrow>
    vw_write N cap s
      (s\<lparr>vw_mem := store l v (vw_rel s) (length (vw_log s)) (vw_mem s),
         vw_writer := W_data payload sequence version todo\<rparr>)"
| w_data_end: "vw_writer s = W_data payload sequence version [] \<Longrightarrow>
    vw_write N cap s (s\<lparr>vw_writer := W_fence2 payload sequence version\<rparr>)"
| w_fence2: "vw_writer s = W_fence2 payload sequence version \<Longrightarrow>
    vw_write N cap s (s\<lparr>vw_rel := newest (vw_mem s), vw_writer := W_even payload sequence version\<rparr>)"
| w_even: "vw_writer s = W_even payload sequence version \<Longrightarrow>
    vw_write N cap s
      (s\<lparr>vw_mem := store (Ver (cell_of cap sequence)) (version + 2) (newest (vw_mem s)) (length (vw_log s)) (vw_mem s),
         vw_writer := W_pub payload sequence\<rparr>)"
| w_pub: "vw_writer s = W_pub payload sequence \<Longrightarrow>
    vw_write N cap s
      (s\<lparr>vw_mem := store Pub sequence (newest (vw_mem s)) (length (vw_log s)) (vw_mem s),
         vw_produced := sequence, vw_writer := W_done (write_res Success sequence)\<rparr>)"
| w_return: "vw_writer s = W_done r \<Longrightarrow> vw_write N cap s (s\<lparr>vw_writer := W_idle\<rparr>)"

subsection \<open>A consumer\<close>

inductive reader_step :: "nat \<Rightarrow> u64 \<Rightarrow> memory \<Rightarrow> reader \<Rightarrow> reader \<Rightarrow> bool" for N cap mem where
  r_register: "rd_pc r = R_unregistered \<Longrightarrow> can_load mem (rd_view r) Pub ts \<Longrightarrow>
    reader_step N cap mem r
      (r\<lparr>rd_pc := R_idle, rd_next := loaded mem Pub ts + 1, rd_view := acquire_view mem (rd_view r) Pub ts\<rparr>)"
| r_load: "rd_pc r = R_idle \<Longrightarrow> can_load mem (rd_view r) Pub ts \<Longrightarrow>
    reader_step N cap mem r
      (r\<lparr>rd_pc := R_check dest (loaded mem Pub ts), rd_view := acquire_view mem (rd_view r) Pub ts\<rparr>)"
| r_early: "rd_pc r = R_check dest published \<Longrightarrow>
    vq_read_begin cap published (rd_next r) = Some (res, n) \<Longrightarrow>
    reader_step N cap mem r
      (r\<lparr>rd_pc := R_done res dest, rd_next := n, rd_out := rd_out r @ [(rd_next r, res, dest, dest)]\<rparr>)"
| r_try: "rd_pc r = R_check dest published \<Longrightarrow> vq_read_begin cap published (rd_next r) = None \<Longrightarrow>
    reader_step N cap mem r (r\<lparr>rd_pc := R_before dest (rd_next r) 0\<rparr>)"
| r_odd: "rd_pc r = R_before dest want attempt \<Longrightarrow> attempt < read_attempts \<Longrightarrow>
    can_load mem (rd_view r) (Ver (cell_of cap want)) ts \<Longrightarrow>
    before = loaded mem (Ver (cell_of cap want)) ts \<Longrightarrow> before AND 1 \<noteq> 0 \<Longrightarrow>
    reader_step N cap mem r
      (r\<lparr>rd_pc := R_before dest want (Suc attempt),
         rd_view := acquire_view mem (rd_view r) (Ver (cell_of cap want)) ts\<rparr>)"
| r_even: "rd_pc r = R_before dest want attempt \<Longrightarrow> attempt < read_attempts \<Longrightarrow>
    can_load mem (rd_view r) (Ver (cell_of cap want)) ts \<Longrightarrow>
    before = loaded mem (Ver (cell_of cap want)) ts \<Longrightarrow> before AND 1 = 0 \<Longrightarrow>
    reader_step N cap mem r
      (r\<lparr>rd_pc := R_data dest want attempt before [],
         rd_view := acquire_view mem (rd_view r) (Ver (cell_of cap want)) ts\<rparr>)"
| r_data: "rd_pc r = R_data dest want attempt before vals \<Longrightarrow> length vals < N + 2 \<Longrightarrow>
    l = data_locs N (cell_of cap want) ! length vals \<Longrightarrow> can_load mem (rd_view r) l ts \<Longrightarrow>
    reader_step N cap mem r
      (r\<lparr>rd_pc := R_data dest want attempt before (vals @ [loaded mem l ts]),
         rd_view := (rd_view r)(l := ts), rd_acq := join (rd_acq r) (m_view (mem l ! ts))\<rparr>)"
| r_fence: "rd_pc r = R_data dest want attempt before vals \<Longrightarrow> length vals = N + 2 \<Longrightarrow>
    reader_step N cap mem r
      (r\<lparr>rd_pc := R_after dest want attempt before vals, rd_view := join (rd_view r) (rd_acq r)\<rparr>)"
| r_stable: "rd_pc r = R_after dest want attempt before vals \<Longrightarrow>
    can_load mem (rd_view r) (Ver (cell_of cap want)) ts \<Longrightarrow>
    after = loaded mem (Ver (cell_of cap want)) ts \<Longrightarrow> before = after \<Longrightarrow>
    reader_step N cap mem r
      (r\<lparr>rd_pc := R_end dest want (Some (to_snapshot vals)),
         rd_view := (rd_view r)(Ver (cell_of cap want) := ts),
         rd_acq := join (rd_acq r) (m_view (mem (Ver (cell_of cap want)) ! ts))\<rparr>)"
| r_torn: "rd_pc r = R_after dest want attempt before vals \<Longrightarrow>
    can_load mem (rd_view r) (Ver (cell_of cap want)) ts \<Longrightarrow>
    after = loaded mem (Ver (cell_of cap want)) ts \<Longrightarrow> before \<noteq> after \<Longrightarrow>
    reader_step N cap mem r
      (r\<lparr>rd_pc := R_before dest want (Suc attempt),
         rd_view := (rd_view r)(Ver (cell_of cap want) := ts),
         rd_acq := join (rd_acq r) (m_view (mem (Ver (cell_of cap want)) ! ts))\<rparr>)"
| r_give_up: "rd_pc r = R_before dest want attempt \<Longrightarrow> attempt = read_attempts \<Longrightarrow>
    reader_step N cap mem r (r\<lparr>rd_pc := R_end dest want None\<rparr>)"
| r_copy: "rd_pc r = R_end dest want (Some sn) \<Longrightarrow> sn_sequence sn = want \<Longrightarrow>
    vq_read_end cap want (Some sn) 0 dest = (res, d, n) \<Longrightarrow>
    reader_step N cap mem r
      (r\<lparr>rd_pc := R_done res d, rd_next := n, rd_out := rd_out r @ [(want, res, dest, d)]\<rparr>)"
| r_overwritten: "rd_pc r = R_end dest want sn \<Longrightarrow> (\<forall>x. sn = Some x \<longrightarrow> sn_sequence x \<noteq> want) \<Longrightarrow>
    can_load mem (rd_view r) Pub ts \<Longrightarrow>
    vq_read_end cap want sn (loaded mem Pub ts) dest = (res, d, n) \<Longrightarrow>
    reader_step N cap mem r
      (r\<lparr>rd_pc := R_done res d, rd_next := n, rd_view := acquire_view mem (rd_view r) Pub ts,
         rd_out := rd_out r @ [(want, res, dest, d)]\<rparr>)"
| r_return: "rd_pc r = R_done res d \<Longrightarrow> reader_step N cap mem r (r\<lparr>rd_pc := R_idle\<rparr>)"

text \<open>How many own steps at most are left in a call of the producer and of a consumer.\<close>

fun write_rank :: "writer_pc \<Rightarrow> nat" where
  "write_rank W_idle = 0"
| "write_rank (W_done r) = 1"
| "write_rank (W_pub x sq) = 2"
| "write_rank (W_even x sq v) = 3"
| "write_rank (W_fence2 x sq v) = 4"
| "write_rank (W_data x sq v todo) = 5 + length todo"
| "write_rank (W_fence x sq v) = 8 + length x"
| "write_rank (W_mark x sq v) = 9 + length x"
| "write_rank (W_load x sq) = 10 + length x"

fun read_rank :: "nat \<Rightarrow> reader_pc \<Rightarrow> nat" where
  "read_rank N R_unregistered = 0"
| "read_rank N R_idle = 0"
| "read_rank N (R_done res d) = 1"
| "read_rank N (R_end dest want sn) = 2"
| "read_rank N (R_before dest want a) = 3 + (read_attempts - a) * (N + 5)"
| "read_rank N (R_after dest want a before vals) = 4 + (read_attempts - Suc a) * (N + 5)"
| "read_rank N (R_data dest want a before vals) =
     5 + (N + 2 - length vals) + (read_attempts - Suc a) * (N + 5)"
| "read_rank N (R_check dest p) = 4 + read_attempts * (N + 5)"

text \<open>
  The system. Supported lifetime: fewer than \<open>2 ^ 63\<close> publications, so that neither a sequence nor
  a version (two per publication to a cell) wraps.
\<close>

definition vw_step :: "nat \<Rightarrow> u64 \<Rightarrow> vw_sys \<Rightarrow> vw_sys \<Rightarrow> bool" where
  "vw_step N cap s t \<longleftrightarrow> length (vw_log t) < 2 ^ 63 \<and>
     (vw_write N cap s t \<or>
      (\<exists>c r. reader_step N cap (vw_mem s) (vw_reader s c) r \<and> t = s\<lparr>vw_reader := (vw_reader s)(c := r)\<rparr>))"

subsection \<open>Invariant\<close>

fun content :: "byte list \<Rightarrow> u64 \<Rightarrow> loc \<Rightarrow> u64" where
  "content x sq (Seq i) = sq"
| "content x sq (Size i) = of_nat (length x)"
| "content x sq (Byte i k) = ucast (x ! k)"
| "content x sq _ = 0"

fun data_of :: "loc \<Rightarrow> nat option" where
  "data_of (Seq i) = Some i"
| "data_of (Size i) = Some i"
| "data_of (Byte i k) = Some i"
| "data_of _ = None"

text \<open>From view \<open>V\<close>, no store to the fields of publication \<open>s\<close> that is older than it can be read.\<close>

definition covers :: "nat \<Rightarrow> byte list list \<Rightarrow> memory \<Rightarrow> view \<Rightarrow> nat \<Rightarrow> bool" where
  "covers C log mem V s \<longleftrightarrow> (\<forall>l \<in> set (data_locs (length (log ! (s - 1))) (vcell C s)).
     V l < length (mem l) \<and> s \<le> m_by (mem l ! V l))"

definition ok_pub :: "nat \<Rightarrow> memory \<Rightarrow> bool" where
  "ok_pub C mem \<longleftrightarrow> (\<forall>t < length (mem Pub). m_val (mem Pub ! t) = of_nat t \<and>
     (\<forall>s. 0 < s \<and> s \<le> t \<longrightarrow> 2 * vgen C s \<le> m_view (mem Pub ! t) (Ver (vcell C s))))"

definition ok_ver :: "nat \<Rightarrow> byte list list \<Rightarrow> memory \<Rightarrow> bool" where
  "ok_ver C log mem \<longleftrightarrow> (\<forall>i. \<forall>t < length (mem (Ver i)). m_val (mem (Ver i) ! t) = of_nat t \<and>
     (0 < t \<and> even t \<longrightarrow> (\<exists>s. 0 < s \<and> s \<le> length log \<and> vcell C s = i \<and> vgen C s = t div 2 \<and>
        covers C log mem (m_view (mem (Ver i) ! t)) s)))"

definition ok_data :: "nat \<Rightarrow> byte list list \<Rightarrow> memory \<Rightarrow> bool" where
  "ok_data C log mem \<longleftrightarrow> (\<forall>l i. data_of l = Some i \<longrightarrow> sorted_wrt (<) (map m_by (mem l)) \<and>
     (\<forall>m \<in> set (mem l). 0 < m_by m \<longrightarrow> m_by m \<le> length log \<and> vcell C (m_by m) = i \<and>
        2 * vgen C (m_by m) - 1 \<le> m_view m (Ver i) \<and>
        m_val m = content (log ! (m_by m - 1)) (of_nat (m_by m)) l))"

text \<open>A view of stores that exist.\<close>

definition bounded :: "memory \<Rightarrow> view \<Rightarrow> bool" where
  "bounded mem V \<longleftrightarrow> (\<forall>l. V l < length (mem l))"

definition ok_views :: "memory \<Rightarrow> bool" where
  "ok_views mem \<longleftrightarrow> (\<forall>l. \<forall>m \<in> set (mem l). bounded mem (m_view m))"

definition ok_mem :: "nat \<Rightarrow> byte list list \<Rightarrow> memory \<Rightarrow> bool" where
  "ok_mem C log mem \<longleftrightarrow> (\<forall>l. mem l \<noteq> []) \<and> ok_views mem \<and> ok_pub C mem \<and> ok_ver C log mem \<and> ok_data C log mem \<and>
     length (mem Pub) \<le> Suc (length log) \<and> (\<forall>i. length (mem (Ver i)) \<le> Suc (2 * gens C i (length log)))"

text \<open>
  The producer between two calls has published everything begun; during a call, the versions and the
  fields of the cell say how far it has come.
\<close>

definition ver_lengths :: "nat \<Rightarrow> memory \<Rightarrow> nat \<Rightarrow> bool" where
  "ver_lengths C mem n \<longleftrightarrow> (\<forall>i. length (mem (Ver i)) = Suc (2 * gens C i n))"

definition ver_odd :: "nat \<Rightarrow> memory \<Rightarrow> nat \<Rightarrow> bool" where
  "ver_odd C mem n \<longleftrightarrow>
     (\<forall>i. length (mem (Ver i)) = Suc (2 * gens C i n + (if i = vcell C (Suc n) then 1 else 0)))"

definition writing :: "nat \<Rightarrow> vw_sys \<Rightarrow> byte list \<Rightarrow> u64 \<Rightarrow> bool" where
  "writing N s x sq \<longleftrightarrow> length (vw_log s) = length (vw_mem s Pub) \<and> sq = of_nat (length (vw_log s)) \<and>
     vw_log s ! (length (vw_log s) - 1) = x \<and> length x \<le> N"

definition written :: "vw_sys \<Rightarrow> loc list \<Rightarrow> bool" where
  "written s ls \<longleftrightarrow> (\<forall>l i. data_of l = Some i \<longrightarrow>
     (if l \<in> set ls then m_by (last (vw_mem s l)) = length (vw_log s)
      else m_by (last (vw_mem s l)) < length (vw_log s)))"

definition version_of :: "nat \<Rightarrow> vw_sys \<Rightarrow> u64" where
  "version_of C s = of_nat (2 * (vgen C (length (vw_log s)) - 1))"

fun ok_writer :: "nat \<Rightarrow> nat \<Rightarrow> vw_sys \<Rightarrow> writer_pc \<Rightarrow> bool" where
  "ok_writer N C s (W_load x sq) \<longleftrightarrow> writing N s x sq \<and> written s [] \<and>
     ver_lengths C (vw_mem s) (length (vw_log s) - 1)"
| "ok_writer N C s (W_mark x sq v) \<longleftrightarrow> writing N s x sq \<and> written s [] \<and> v = version_of C s \<and>
     ver_lengths C (vw_mem s) (length (vw_log s) - 1)"
| "ok_writer N C s (W_fence x sq v) \<longleftrightarrow> writing N s x sq \<and> written s [] \<and> v = version_of C s \<and>
     ver_odd C (vw_mem s) (length (vw_log s) - 1)"
| "ok_writer N C s (W_data x sq v todo) \<longleftrightarrow> writing N s x sq \<and> v = version_of C s \<and>
     ver_odd C (vw_mem s) (length (vw_log s) - 1) \<and>
     2 * vgen C (length (vw_log s)) - 1 \<le> vw_rel s (Ver (vcell C (length (vw_log s)))) \<and>
     (\<exists>dn ls. todo = map (\<lambda>l. (l, content x sq l)) ls \<and> written s dn \<and>
        data_locs (length x) (vcell C (length (vw_log s))) = dn @ ls)"
| "ok_writer N C s (W_fence2 x sq v) \<longleftrightarrow> writing N s x sq \<and> v = version_of C s \<and>
     ver_odd C (vw_mem s) (length (vw_log s) - 1) \<and>
     written s (data_locs (length x) (vcell C (length (vw_log s))))"
| "ok_writer N C s (W_even x sq v) \<longleftrightarrow> writing N s x sq \<and> v = version_of C s \<and>
     ver_odd C (vw_mem s) (length (vw_log s) - 1) \<and>
     written s (data_locs (length x) (vcell C (length (vw_log s))))"
| "ok_writer N C s (W_pub x sq) \<longleftrightarrow> writing N s x sq \<and> ver_lengths C (vw_mem s) (length (vw_log s))"
| "ok_writer N C s _ \<longleftrightarrow> Suc (length (vw_log s)) = length (vw_mem s Pub) \<and>
     ver_lengths C (vw_mem s) (length (vw_log s))"

text \<open>
  What a consumer knows. \<open>observed\<close>: a value loaded from a field of publication \<open>s\<close> or a later one,
  of which the view \<open>V\<close> then knows that the version became odd.
\<close>

definition observed :: "nat \<Rightarrow> byte list list \<Rightarrow> view \<Rightarrow> nat \<Rightarrow> loc \<Rightarrow> u64 \<Rightarrow> bool" where
  "observed C log V s l v \<longleftrightarrow> l \<in> set (data_locs (length (log ! (s - 1))) (vcell C s)) \<longrightarrow>
     (\<exists>s'. s \<le> s' \<and> s' \<le> length log \<and> vcell C s' = vcell C s \<and>
        2 * vgen C s' - 1 \<le> V (Ver (vcell C s)) \<and> v = content (log ! (s' - 1)) (of_nat s') l)"

definition wanted :: "nat \<Rightarrow> memory \<Rightarrow> reader \<Rightarrow> u64 \<Rightarrow> bool" where
  "wanted C mem r want \<longleftrightarrow> want = rd_next r \<and> unat want < length (mem Pub) \<and>
     2 * vgen C (unat want) \<le> rd_view r (Ver (vcell C (unat want)))"

definition reading ::
    "nat \<Rightarrow> nat \<Rightarrow> byte list list \<Rightarrow> memory \<Rightarrow> view \<Rightarrow> reader \<Rightarrow> u64 \<Rightarrow> u64 \<Rightarrow> u64 list \<Rightarrow> bool" where
  "reading N C log mem A r want before vals \<longleftrightarrow> wanted C mem r want \<and>
     unat before \<le> rd_view r (Ver (vcell C (unat want))) \<and> length vals \<le> N + 2 \<and>
     (\<exists>s. unat want \<le> s \<and> s \<le> length log \<and> vcell C s = vcell C (unat want) \<and> unat before = 2 * vgen C s \<and>
        covers C log mem (rd_view r) s \<and>
        (\<forall>j < length vals. observed C log A s (data_locs N (vcell C s) ! j) (vals ! j)))"

fun ok_rpc :: "nat \<Rightarrow> nat \<Rightarrow> byte list list \<Rightarrow> memory \<Rightarrow> reader \<Rightarrow> reader_pc \<Rightarrow> bool" where
  "ok_rpc N C log mem r R_unregistered \<longleftrightarrow> rd_out r = []"
| "ok_rpc N C log mem r (R_check dest p) \<longleftrightarrow> 0 < unat (rd_next r) \<and> unat p < length (mem Pub) \<and>
     (\<forall>s. 0 < s \<and> s \<le> unat p \<longrightarrow> 2 * vgen C s \<le> rd_view r (Ver (vcell C s)))"
| "ok_rpc N C log mem r (R_before dest want a) \<longleftrightarrow> 0 < unat (rd_next r) \<and> wanted C mem r want \<and>
     (0 < a \<longrightarrow> unat want + C \<le> length log) \<and> a \<le> read_attempts"
| "ok_rpc N C log mem r (R_data dest want a before vals) \<longleftrightarrow> 0 < unat (rd_next r) \<and> a < read_attempts \<and>
     reading N C log mem (rd_acq r) r want before vals"
| "ok_rpc N C log mem r (R_after dest want a before vals) \<longleftrightarrow> 0 < unat (rd_next r) \<and> a < read_attempts \<and>
     length vals = N + 2 \<and> reading N C log mem (rd_view r) r want before vals"
| "ok_rpc N C log mem r (R_end dest want sn) \<longleftrightarrow> 0 < unat (rd_next r) \<and> want = rd_next r \<and>
     unat want < length (mem Pub) \<and>
     (case sn of
        None \<Rightarrow> unat want + C \<le> length log
      | Some x \<Rightarrow> if sn_sequence x = want
          then sn_size x = length (log ! (unat want - 1)) \<and>
            take (sn_size x) (sn_scratch x) = log ! (unat want - 1)
          else unat want + C \<le> length log)"
| "ok_rpc N C log mem r _ \<longleftrightarrow> 0 < unat (rd_next r)"

definition ok_result ::
    "nat \<Rightarrow> byte list list \<Rightarrow> memory \<Rightarrow> u64 \<times> read_result \<times> byte list \<times> byte list \<Rightarrow> bool" where
  "ok_result C log mem = (\<lambda>(want, res, dest, d).
     (case rr_status res of
        Success \<Rightarrow> 0 < unat want \<and> unat want < length (mem Pub) \<and> (let x = log ! (unat want - 1) in
          length x \<le> length dest \<and> res = read_res Success (length x) want \<and> d = copy_n (length x) x dest)
      | Overwritten \<Rightarrow> unat want + C \<le> length log \<and> d = dest
      | Message_too_large \<Rightarrow> 0 < unat want \<and> unat want < length (mem Pub) \<and> d = dest \<and>
          length dest < length (log ! (unat want - 1))
      | Consumer_lagged \<Rightarrow> unat want + C < length (mem Pub) \<and> d = dest
      | Empty \<Rightarrow> d = dest
      | _ \<Rightarrow> False))"

definition delivered :: "reader \<Rightarrow> u64 list" where
  "delivered r = map fst (filter (\<lambda>(want, res, dest, d). rr_status res = Success) (rd_out r))"

definition ok_reader :: "nat \<Rightarrow> nat \<Rightarrow> byte list list \<Rightarrow> memory \<Rightarrow> reader \<Rightarrow> bool" where
  "ok_reader N C log mem r \<longleftrightarrow> ok_rpc N C log mem r (rd_pc r) \<and> unat (rd_next r) \<le> length (mem Pub) \<and>
     bounded mem (rd_view r) \<and> bounded mem (rd_acq r) \<and>
     (\<forall>x \<in> set (rd_out r). ok_result C log mem x) \<and>
     sorted_wrt (<) (delivered r) \<and> (\<forall>w \<in> set (delivered r). w < rd_next r)"

text \<open>The facts about memory that a consumer relies on.\<close>

definition sound_memory :: "nat \<Rightarrow> u64 \<Rightarrow> byte list list \<Rightarrow> memory \<Rightarrow> bool" where
  "sound_memory N cap log mem \<longleftrightarrow> ok_mem (unat cap) log mem \<and> length log < 2 ^ 63 \<and> 0 < unat cap \<and>
     N < 2 ^ 64 \<and> (\<forall>x \<in> set log. length x \<le> N)"

definition vw_core :: "nat \<Rightarrow> u64 \<Rightarrow> vw_sys \<Rightarrow> bool" where
  "vw_core N cap s \<longleftrightarrow> length (vw_log s) < 2 ^ 63 \<and> ok_mem (unat cap) (vw_log s) (vw_mem s) \<and>
     (\<forall>x \<in> set (vw_log s). length x \<le> N) \<and>
     vw_produced s = of_nat (length (vw_mem s Pub) - 1) \<and> bounded (vw_mem s) (vw_rel s) \<and>
     ok_writer N (unat cap) s (vw_writer s)"

definition vw_inv :: "nat \<Rightarrow> u64 \<Rightarrow> vw_sys \<Rightarrow> bool" where
  "vw_inv N cap s \<longleftrightarrow> 0 < unat cap \<and> N < 2 ^ 64 \<and> vw_core N cap s \<and>
     (\<forall>c. ok_reader N (unat cap) (vw_log s) (vw_mem s) (vw_reader s c))"

end
