(* ===== verification/Versioned_Weak.thy ===== *)
theory Versioned_Weak
  imports Versioned_Machine "HOL-Library.Sublist"
begin

text \<open>
  Correctness of the versioned queue under the C++ memory model: the invariant of
  \<open>Versioned_Machine\<close> holds in every reachable state. A read that succeeds delivers exactly the
  payload published under its sequence, no matter how its loads interleave with the producer's
  stores and how stale they are; \<open>overwritten\<close> is reported only for a sequence whose cell the
  producer has really reused.
\<close>

section \<open>Definitions\<close>

text \<open>Memory and log only grow.\<close>

definition grows :: "byte list list \<Rightarrow> memory \<Rightarrow> byte list list \<Rightarrow> memory \<Rightarrow> bool" where
  "grows log mem log' mem' \<longleftrightarrow> prefix log log' \<and> (\<forall>l. prefix (mem l) (mem' l))"

section \<open>Memory\<close>

lemma store_same [simp]:
  "store l v V b mem l = mem l @ [\<lparr>m_val = v, m_view = V(l := length (mem l)), m_by = b\<rparr>]"
  by (simp add: store_def)

lemma store_other [simp]: "l' \<noteq> l \<Longrightarrow> store l v V b mem l' = mem l'"
  by (simp add: store_def)

lemma grows_refl [simp]: "grows log mem log mem"
  by (simp add: grows_def)

lemma grows_store [simp]: "grows log mem log (store l v V b mem)"
  by (auto simp: grows_def store_def)

lemma grows_log: "grows log mem (log @ [x]) mem"
  by (simp add: grows_def)

lemma prefix_nth: "prefix xs ys \<Longrightarrow> n < length xs \<Longrightarrow> ys ! n = xs ! n"
  by (auto simp: prefix_def nth_append)

lemma grows_log_nth: "grows log mem log' mem' \<Longrightarrow> n < length log \<Longrightarrow> log' ! n = log ! n"
  by (simp add: grows_def prefix_nth)

lemma grows_log_length: "grows log mem log' mem' \<Longrightarrow> length log \<le> length log'"
  by (simp add: grows_def prefix_length_le)

lemma grows_mem_nth: "grows log mem log' mem' \<Longrightarrow> n < length (mem l) \<Longrightarrow> mem' l ! n = mem l ! n"
  by (simp add: grows_def prefix_nth)

lemma grows_mem_length: "grows log mem log' mem' \<Longrightarrow> length (mem l) \<le> length (mem' l)"
  by (simp add: grows_def prefix_length_le)

lemma covers_grows:
  assumes "covers C log mem V s" "grows log mem log' mem'" "0 < s" "s \<le> length log"
  shows "covers C log' mem' V s"
proof -
  have "log' ! (s - 1) = log ! (s - 1)" using grows_log_nth [OF assms(2)] assms(3,4) by simp
  moreover have "V l < length (mem' l) \<and> s \<le> m_by (mem' l ! V l)"
    if "V l < length (mem l)" "s \<le> m_by (mem l ! V l)" for l
    using that grows_mem_nth [OF assms(2) that(1)] grows_mem_length [OF assms(2), of l] by simp
  ultimately show ?thesis using assms(1) unfolding covers_def by auto
qed

lemma observed_grows:
  assumes "observed C log V s l v" "grows log mem log' mem'" "0 < s" "s \<le> length log"
  shows "observed C log' V s l v"
proof -
  have len: "length log \<le> length log'" by (rule grows_log_length [OF assms(2)])
  have eq: "log' ! (s' - 1) = log ! (s' - 1)" if "s \<le> s'" "s' \<le> length log" for s'
    using grows_log_nth [OF assms(2)] that assms(3) by simp
  show ?thesis
    unfolding observed_def eq [OF order_refl assms(4)]
  proof
    assume "l \<in> set (data_locs (length (log ! (s - 1))) (vcell C s))"
    then obtain s' where s': "s \<le> s'" "s' \<le> length log" "vcell C s' = vcell C s"
      "2 * vgen C s' - 1 \<le> V (Ver (vcell C s))" "v = content (log ! (s' - 1)) (of_nat s') l"
      using assms(1) unfolding observed_def by blast
    then have "v = content (log' ! (s' - 1)) (of_nat s') l" using eq by simp
    then show "\<exists>s'\<ge>s. s' \<le> length log' \<and> vcell C s' = vcell C s \<and>
        2 * vgen C s' - 1 \<le> V (Ver (vcell C s)) \<and> v = content (log' ! (s' - 1)) (of_nat s') l"
      using s' len by (intro exI [of _ s']) simp
  qed
qed

lemma bounded_grows: "bounded mem V \<Longrightarrow> grows log mem log' mem' \<Longrightarrow> bounded mem' V"
  unfolding bounded_def using grows_mem_length by (meson order_less_le_trans)

lemma bounded_newest: "(\<And>l. mem l \<noteq> []) \<Longrightarrow> bounded mem (newest mem)"
  by (simp add: bounded_def newest_def)

lemma bounded_store: "bounded mem V \<Longrightarrow> bounded (store l v V' b mem) V"
  by (rule bounded_grows [OF _ grows_store])

lemma ok_views_store:
  assumes "ok_views mem" "bounded mem V"
  shows "ok_views (store l v V b mem)"
proof -
  have "bounded (store l v V b mem) (V(l := length (mem l)))"
    using assms(2) by (simp add: bounded_def store_def)
  moreover have "bounded (store l v V b mem) (m_view m)" if "m \<in> set (mem l')" for m l'
    using assms(1) that bounded_store unfolding ok_views_def by blast
  ultimately show ?thesis unfolding ok_views_def by (auto simp: store_def)
qed

section \<open>Consumers and growing memory\<close>

lemma reading_want: "reading N C log mem A r want before vals \<Longrightarrow> want = rd_next r"
  by (simp add: reading_def wanted_def)

lemma readingI:
  assumes "wanted C mem r want" "unat before \<le> rd_view r (Ver (vcell C (unat want)))" "length vals \<le> N + 2"
    and "unat want \<le> s" "s \<le> length log" "vcell C s = vcell C (unat want)" "unat before = 2 * vgen C s"
    and "covers C log mem (rd_view r) s"
    and "\<And>j. j < length vals \<Longrightarrow> observed C log A s (data_locs N (vcell C s) ! j) (vals ! j)"
  shows "reading N C log mem A r want before vals"
  using assms unfolding reading_def by blast

lemma reading_grows:
  assumes "reading N C log mem A r want before vals" "grows log mem log' mem'" "0 < unat want"
  shows "reading N C log' mem' A r want before vals"
proof -
  obtain s where s: "unat want \<le> s" "s \<le> length log" "vcell C s = vcell C (unat want)"
    "unat before = 2 * vgen C s" "covers C log mem (rd_view r) s"
    "\<forall>j < length vals. observed C log A s (data_locs N (vcell C s) ! j) (vals ! j)"
    using assms(1) unfolding reading_def by blast
  have "0 < s" using s(1) assms(3) by simp
  then have "covers C log' mem' (rd_view r) s"
    "\<forall>j < length vals. observed C log' A s (data_locs N (vcell C s) ! j) (vals ! j)"
    using covers_grows [OF s(5) assms(2)] observed_grows [OF _ assms(2)] s(2,6) by auto
  moreover have "s \<le> length log'" using s(2) grows_log_length [OF assms(2)] by simp
  moreover have "wanted C mem' r want"
    using assms(1) grows_mem_length [OF assms(2), of Pub] by (auto simp: reading_def wanted_def)
  ultimately show ?thesis using assms(1) s(1,3,4) unfolding reading_def by blast
qed

lemma ok_result_grows:
  assumes "ok_result C log mem x" "grows log mem log' mem'" "length (mem Pub) \<le> Suc (length log)"
  shows "ok_result C log' mem' x"
proof -
  obtain want res dest d where x: "x = (want, res, dest, d)" by (cases x)
  have "log' ! (unat want - 1) = log ! (unat want - 1)" if "0 < unat want" "unat want < length (mem Pub)"
    using grows_log_nth [OF assms(2)] that assms(3) by simp
  moreover have "length log \<le> length log'" "length (mem Pub) \<le> length (mem' Pub)"
    using grows_log_length [OF assms(2)] grows_mem_length [OF assms(2)] by auto
  ultimately show ?thesis
    using assms(1) unfolding x ok_result_def by (cases "rr_status res") (auto simp: Let_def)
qed

lemma ok_rpc_grows:
  assumes "ok_rpc N C log mem r pc" "grows log mem log' mem'" "length (mem Pub) \<le> Suc (length log)"
  shows "ok_rpc N C log' mem' r pc"
proof -
  have len: "length log \<le> length log'" "length (mem Pub) \<le> length (mem' Pub)"
    using grows_log_length [OF assms(2)] grows_mem_length [OF assms(2)] by auto
  show ?thesis
  proof (cases pc)
    case (R_before dest want a)
    then show ?thesis using assms(1) len by (auto simp: wanted_def)
  next
    case (R_data dest want a before vals)
    then show ?thesis using assms(1) reading_grows [OF _ assms(2)] reading_want by fastforce
  next
    case (R_after dest want a before vals)
    then show ?thesis using assms(1) reading_grows [OF _ assms(2)] reading_want by fastforce
  next
    case (R_end dest want sn)
    then have "0 < unat want" "unat want < length (mem Pub)" using assms(1) by auto
    then have "log' ! (unat want - 1) = log ! (unat want - 1)"
      using grows_log_nth [OF assms(2)] assms(3) by simp
    then show ?thesis using R_end assms(1) len by (auto split: option.splits if_splits)
  qed (use assms(1) len in auto)
qed

lemma ok_reader_grows:
  assumes "ok_reader N C log mem r" "grows log mem log' mem'" "length (mem Pub) \<le> Suc (length log)"
  shows "ok_reader N C log' mem' r"
  using assms ok_rpc_grows [OF _ assms(2,3)] ok_result_grows [OF _ assms(2,3)]
    grows_mem_length [OF assms(2), of Pub] bounded_grows [OF _ assms(2)]
  unfolding ok_reader_def by (meson order_trans)

section \<open>The producer and the memory\<close>

lemma cell_of_nat:
  assumes "0 < n" "n < 2 ^ 64"
  shows "cell_of cap (of_nat n) = vcell (unat cap) n"
proof -
  have "(of_nat n :: u64) - 1 = of_nat (n - 1)" using assms(1) by (simp add: of_nat_diff)
  moreover have "unat (of_nat (n - 1) :: u64) = n - 1" using assms(2) by (intro unat_of_nat_64) simp
  ultimately show ?thesis by (simp add: cell_of_def ring_index_def unat_mod vcell_def)
qed

lemma data_writes_eq:
  "data_writes cap x sq = map (\<lambda>l. (l, content x sq l)) (data_locs (length x) (cell_of cap sq))"
  by (simp add: data_writes_def data_locs_def Let_def)

lemma data_locs_data: "l \<in> set (data_locs n i) \<Longrightarrow> data_of l = Some i"
  by (auto simp: data_locs_def)

lemma ok_ver_store_ver:
  assumes "ok_ver C log mem" "v = of_nat (length (mem (Ver i)))"
    and "even (length (mem (Ver i))) \<Longrightarrow> 0 < length (mem (Ver i)) \<Longrightarrow>
      \<exists>s. 0 < s \<and> s \<le> length log \<and> vcell C s = i \<and> vgen C s = length (mem (Ver i)) div 2 \<and> covers C log mem V s"
  shows "ok_ver C log (store (Ver i) v V b mem)"
proof -
  let ?mem = "store (Ver i) v V b mem"
  have cov: "covers C log ?mem W s" if "covers C log mem W s" "0 < s" "s \<le> length log" for W s
    using covers_grows [OF that(1) grows_store that(2,3)] .
  have "m_val (?mem (Ver j) ! t) = of_nat t \<and> (0 < t \<and> even t \<longrightarrow> (\<exists>s. 0 < s \<and> s \<le> length log \<and>
      vcell C s = j \<and> vgen C s = t div 2 \<and> covers C log ?mem (m_view (?mem (Ver j) ! t)) s))"
    if t: "t < length (?mem (Ver j))" for j t
  proof (cases "t < length (mem (Ver j))")
    case True
    have nth: "?mem (Ver j) ! t = mem (Ver j) ! t"
      using True by (cases "j = i") (simp_all add: nth_append)
    have "m_val (mem (Ver j) ! t) = of_nat t" using assms(1) True by (simp add: ok_ver_def)
    moreover have "\<exists>s. 0 < s \<and> s \<le> length log \<and> vcell C s = j \<and> vgen C s = t div 2 \<and>
        covers C log ?mem (m_view (mem (Ver j) ! t)) s" if "0 < t \<and> even t"
    proof -
      obtain s where "0 < s" "s \<le> length log" "vcell C s = j" "vgen C s = t div 2"
        "covers C log mem (m_view (mem (Ver j) ! t)) s"
        using assms(1) True \<open>0 < t \<and> even t\<close> unfolding ok_ver_def by blast
      then show ?thesis using cov by blast
    qed
    ultimately show ?thesis unfolding nth by blast
  next
    case False
    then have j: "j = i" "t = length (mem (Ver i))" using t by (cases "j = i"; simp)+
    have nth: "?mem (Ver i) ! t = \<lparr>m_val = v, m_view = V(Ver i := length (mem (Ver i))), m_by = b\<rparr>"
      by (simp add: j)
    have "\<exists>s. 0 < s \<and> s \<le> length log \<and> vcell C s = i \<and> vgen C s = t div 2 \<and>
        covers C log ?mem (V(Ver i := length (mem (Ver i)))) s" if te: "0 < t \<and> even t"
    proof -
      obtain s where s: "0 < s" "s \<le> length log" "vcell C s = i" "vgen C s = t div 2" "covers C log mem V s"
        using assms(3) te unfolding j(2) by blast
      have "Ver i \<notin> set (data_locs (length (log ! (s - 1))) (vcell C s))" by (auto simp: data_locs_def)
      then have "covers C log mem (V(Ver i := length (mem (Ver i)))) s"
        using s(5) unfolding covers_def by (metis fun_upd_other)
      then show ?thesis using s cov by blast
    qed
    then show ?thesis using assms(2) j(2) unfolding j(1) nth by simp
  qed
  then show ?thesis unfolding ok_ver_def by blast
qed

lemma ok_ver_grows:
  assumes "ok_ver C log mem" "grows log mem log' mem'" "\<And>i. mem' (Ver i) = mem (Ver i)"
  shows "ok_ver C log' mem'"
proof -
  have "\<exists>s. 0 < s \<and> s \<le> length log' \<and> vcell C s = i \<and> vgen C s = t div 2 \<and>
      covers C log' mem' (m_view (mem (Ver i) ! t)) s"
    if te: "t < length (mem (Ver i))" "0 < t \<and> even t" for i t
  proof -
    obtain s where "0 < s" "s \<le> length log" "vcell C s = i" "vgen C s = t div 2"
      "covers C log mem (m_view (mem (Ver i) ! t)) s"
      using assms(1) te unfolding ok_ver_def by blast
    then show ?thesis
      using covers_grows [OF _ assms(2)] grows_log_length [OF assms(2)] by (intro exI [of _ s]) simp
  qed
  then show ?thesis using assms(1,3) unfolding ok_ver_def by simp
qed

lemma by_mono:
  assumes "sorted_wrt (<) (map m_by xs)" "j \<le> k" "k < length xs"
  shows "m_by (xs ! j) \<le> m_by (xs ! k)"
proof (cases "j = k")
  case False
  then have "map m_by xs ! j < map m_by xs ! k"
    using assms sorted_wrt_nth_less [of "(<)" "map m_by xs" j k] by simp
  then show ?thesis using assms by simp
qed simp

lemma ok_data_store:
  assumes "ok_data C log mem" "data_of l = Some (vcell C (length log))" "mem l \<noteq> []" "0 < length log"
    and "m_by (last (mem l)) < length log" "2 * vgen C (length log) - 1 \<le> V (Ver (vcell C (length log)))"
    and "v = content (log ! (length log - 1)) (of_nat (length log)) l"
  shows "ok_data C log (store l v V (length log) mem)"
proof -
  let ?m = "\<lparr>m_val = v, m_view = V(l := length (mem l)), m_by = length log\<rparr>"
  have srt: "sorted_wrt (<) (map m_by (mem l))" using assms(1,2) unfolding ok_data_def by blast
  have "m_by m < length log" if m: "m \<in> set (mem l)" for m
  proof -
    have "m_by m \<le> m_by (last (mem l))"
    proof -
      obtain k where k: "k < length (mem l)" "m = mem l ! k" using m by (auto simp: in_set_conv_nth)
      have "last (mem l) = mem l ! (length (mem l) - 1)" using assms(3) by (rule last_conv_nth)
      moreover have "m_by (mem l ! k) \<le> m_by (mem l ! (length (mem l) - 1))"
        using k(1) by (intro by_mono [OF srt]) auto
      ultimately show ?thesis using k(2) by simp
    qed
    then show ?thesis using assms(5) by simp
  qed
  then have "sorted_wrt (<) (map m_by (mem l @ [?m]))" using srt by (simp add: sorted_wrt_append)
  moreover have "m_view ?m (Ver (vcell C (length log))) = V (Ver (vcell C (length log)))"
    using assms(2) by auto
  ultimately have own: "sorted_wrt (<) (map m_by (mem l @ [?m])) \<and>
      (\<forall>m \<in> set (mem l @ [?m]). 0 < m_by m \<longrightarrow> m_by m \<le> length log \<and> vcell C (m_by m) = vcell C (length log) \<and>
        2 * vgen C (m_by m) - 1 \<le> m_view m (Ver (vcell C (length log))) \<and>
        m_val m = content (log ! (m_by m - 1)) (of_nat (m_by m)) l)"
    using assms(1,2,6,7) unfolding ok_data_def by auto
  show ?thesis
    unfolding ok_data_def
  proof (intro allI impI)
    fix l' i assume l': "data_of l' = Some i"
    show "sorted_wrt (<) (map m_by (store l v V (length log) mem l')) \<and>
      (\<forall>m \<in> set (store l v V (length log) mem l'). 0 < m_by m \<longrightarrow> m_by m \<le> length log \<and> vcell C (m_by m) = i \<and>
        2 * vgen C (m_by m) - 1 \<le> m_view m (Ver i) \<and>
        m_val m = content (log ! (m_by m - 1)) (of_nat (m_by m)) l')"
    proof (cases "l' = l")
      case True
      then have "i = vcell C (length log)" using l' assms(2) by simp
      then show ?thesis using own True by simp
    next
      case False
      then show ?thesis using assms(1) l' unfolding ok_data_def by simp
    qed
  qed
qed

lemma ok_data_log:
  assumes "ok_data C log mem"
  shows "ok_data C (log @ [x]) mem"
proof -
  have "(log @ [x]) ! (n - 1) = log ! (n - 1)" if "0 < n" "n \<le> length log" for n
    using that nth_append_left [of "n - 1" log "[x]"] by simp
  then show ?thesis using assms unfolding ok_data_def by (simp add: le_SucI)
qed

lemma ok_data_cong: "ok_data C log mem \<Longrightarrow> (\<And>l i. data_of l = Some i \<Longrightarrow> mem' l = mem l) \<Longrightarrow> ok_data C log mem'"
  unfolding ok_data_def by metis

lemma ok_pub_store:
  assumes "ok_pub C mem" "v = of_nat (length (mem Pub))"
    and "\<And>s. 0 < s \<Longrightarrow> s \<le> length (mem Pub) \<Longrightarrow> 2 * vgen C s \<le> V (Ver (vcell C s))"
  shows "ok_pub C (store Pub v V b mem)"
  using assms unfolding ok_pub_def by (auto simp: nth_append less_Suc_eq)

section \<open>Steps of the producer\<close>

lemma write_grows:
  "vw_write N cap s t \<Longrightarrow> grows (vw_log s) (vw_mem s) (vw_log t) (vw_mem t) \<and> vw_reader t = vw_reader s"
  by (cases rule: vw_write.cases) (auto simp: grows_log)

lemma gens_step:
  assumes "0 < C" "0 < n"
  shows "gens C i n = gens C i (n - 1) + (if i = vcell C n then 1 else 0)"
  using assms by (cases n) (auto simp: vcell_def)

lemma gens_cell:
  assumes "0 < C" "0 < n"
  shows "gens C (vcell C n) (n - 1) = vgen C n - 1"
  using gens_prev [OF assms(1), of "n - 1"] assms(2) by simp

lemma distinct_data_locs: "distinct (data_locs n i)"
  by (auto simp: data_locs_def distinct_map inj_on_def)

lemma writing_simps [simp]:
  "writing N (s\<lparr>vw_writer := pc\<rparr>) x sq = writing N s x sq"
  "writing N (s\<lparr>vw_rel := V\<rparr>) x sq = writing N s x sq"
  "length (mem Pub) = length (vw_mem s Pub) \<Longrightarrow> writing N (s\<lparr>vw_mem := mem\<rparr>) x sq = writing N s x sq"
  by (simp_all add: writing_def)

lemma written_simps [simp]:
  "written (s\<lparr>vw_writer := pc\<rparr>) ls = written s ls"
  "written (s\<lparr>vw_rel := V\<rparr>) ls = written s ls"
  by (simp_all add: written_def)

lemma written_store_ver [simp]:
  "written (s\<lparr>vw_mem := store (Ver i) v V b (vw_mem s)\<rparr>) ls = written s ls"
proof -
  have "store (Ver i) v V b (vw_mem s) l = vw_mem s l" if "data_of l = Some j" for l j
    using that by (cases l) auto
  then show ?thesis unfolding written_def by (intro iff_allI imp_cong) auto
qed

lemma version_of_simps [simp]:
  "version_of C (s\<lparr>vw_writer := pc\<rparr>) = version_of C s"
  "version_of C (s\<lparr>vw_rel := V\<rparr>) = version_of C s"
  "version_of C (s\<lparr>vw_mem := mem\<rparr>) = version_of C s"
  by (simp_all add: version_of_def)

lemma writing_pos: "ok_mem C (vw_log s) (vw_mem s) \<Longrightarrow> writing N s x sq \<Longrightarrow> 0 < length (vw_log s)"
  by (auto simp: writing_def ok_mem_def)

lemma writing_last:
  assumes "writing N s x sq"
  shows "vw_log s ! (length (vw_log s) - 1) = x" "sq = of_nat (length (vw_log s))"
  using assms unfolding writing_def by blast+

lemma written_in:
  "written s ls \<Longrightarrow> l \<in> set ls \<Longrightarrow> data_of l = Some i \<Longrightarrow> m_by (last (vw_mem s l)) = length (vw_log s)"
  by (simp add: written_def)

lemma writing_cell:
  assumes "vw_core N cap s" "writing N s x sq"
  shows "cell_of cap sq = vcell (unat cap) (length (vw_log s))"
proof -
  have "0 < length (vw_log s)" "length (vw_log s) < 2 ^ 64"
    using assms writing_pos [of "unat cap"] by (auto simp: vw_core_def)
  then show ?thesis using assms(2) cell_of_nat unfolding writing_def by blast
qed

lemma core_begin:
  assumes "vw_core N cap s" "vw_writer s = W_idle" "length x \<le> N" "Suc (length (vw_log s)) < 2 ^ 63"
  shows "vw_core N cap (s\<lparr>vw_log := vw_log s @ [x], vw_writer := W_load x (vw_produced s + 1)\<rparr>)"
proof -
  let ?C = "unat cap" and ?B = "length (vw_log s)"
  have m: "ok_mem ?C (vw_log s) (vw_mem s)" and B: "Suc ?B = length (vw_mem s Pub)"
    using assms(1,2) by (simp_all add: vw_core_def)
  have "m_by (last (vw_mem s l)) < Suc ?B" if "data_of l = Some i" for l i
  proof -
    have "last (vw_mem s l) \<in> set (vw_mem s l)" using m by (simp add: ok_mem_def)
    then have "0 < m_by (last (vw_mem s l)) \<longrightarrow> m_by (last (vw_mem s l)) \<le> ?B"
      using m that unfolding ok_mem_def ok_data_def by blast
    then show ?thesis by linarith
  qed
  then have "written (s\<lparr>vw_log := vw_log s @ [x], vw_writer := pc\<rparr>) []" for pc
    by (simp add: written_def)
  moreover have "ok_mem ?C (vw_log s @ [x]) (vw_mem s)"
    using m ok_ver_grows [OF _ grows_log] ok_data_log gens_mono [of ?B "Suc ?B" ?C]
    unfolding ok_mem_def by (fastforce intro: order_trans)
  moreover have "vw_produced s + 1 = of_nat (Suc ?B)"
    using assms(1) B by (simp add: vw_core_def add.commute)
  moreover have "ver_lengths ?C (vw_mem s) ?B" using assms(1,2) by (simp add: vw_core_def)
  ultimately show ?thesis
    using assms B [symmetric] by (simp add: vw_core_def writing_def)
qed

lemma core_load:
  assumes "vw_core N cap s" "vw_writer s = W_load x sq" "0 < unat cap"
  shows "vw_core N cap (s\<lparr>vw_writer := W_mark x sq (m_val (last (vw_mem s (Ver (cell_of cap sq)))))\<rparr>)"
proof -
  let ?C = "unat cap" and ?B = "length (vw_log s)"
  let ?i = "vcell ?C ?B"
  have m: "ok_mem ?C (vw_log s) (vw_mem s)" and w: "writing N s x sq" and
    vl: "ver_lengths ?C (vw_mem s) (?B - 1)"
    using assms(1,2) by (simp_all add: vw_core_def)
  have B: "0 < ?B" using writing_pos [OF m w] .
  have len: "length (vw_mem s (Ver ?i)) = Suc (2 * (vgen ?C ?B - 1))"
    using vl gens_cell [OF assms(3) B] by (simp add: ver_lengths_def)
  then have "last (vw_mem s (Ver ?i)) = vw_mem s (Ver ?i) ! (2 * (vgen ?C ?B - 1))"
    by (metis diff_Suc_1 last_conv_nth list.size(3) nat.distinct(1))
  then have "m_val (last (vw_mem s (Ver ?i))) = version_of ?C s"
    using m len by (simp add: ok_mem_def ok_ver_def version_of_def)
  then show ?thesis
    using assms(1,2) writing_cell [OF assms(1) w]
    by (simp add: vw_core_def)
qed

lemma core_mark:
  assumes "vw_core N cap s" "vw_writer s = W_mark x sq v" "0 < unat cap"
  shows "vw_core N cap (s\<lparr>vw_mem := store (Ver (cell_of cap sq)) (v + 1) (vw_rel s) (length (vw_log s)) (vw_mem s),
    vw_writer := W_fence x sq v\<rparr>)"
proof -
  let ?C = "unat cap" and ?B = "length (vw_log s)"
  let ?i = "vcell ?C ?B"
  let ?mem = "store (Ver ?i) (v + 1) (vw_rel s) ?B (vw_mem s)"
  have m: "ok_mem ?C (vw_log s) (vw_mem s)" and w: "writing N s x sq" and
    vl: "ver_lengths ?C (vw_mem s) (?B - 1)" and v: "v = version_of ?C s"
    using assms(1,2) by (simp_all add: vw_core_def)
  have B: "0 < ?B" using writing_pos [OF m w] .
  have len: "length (vw_mem s (Ver ?i)) = Suc (2 * (vgen ?C ?B - 1))"
    using vl gens_cell [OF assms(3) B] by (simp add: ver_lengths_def)
  have "v + 1 = of_nat (length (vw_mem s (Ver ?i)))" by (simp add: len v version_of_def)
  then have "ok_ver ?C (vw_log s) ?mem" using m len by (intro ok_ver_store_ver) (simp_all add: ok_mem_def)
  moreover have "ok_data ?C (vw_log s) ?mem"
    by (rule ok_data_cong [of _ _ "vw_mem s"]) (use m in \<open>auto simp: ok_mem_def store_def\<close>)
  moreover have odd: "ver_odd ?C ?mem (?B - 1)"
    unfolding ver_odd_def
  proof
    fix j
    show "length (?mem (Ver j)) = Suc (2 * gens ?C j (?B - 1) + (if j = vcell ?C (Suc (?B - 1)) then 1 else 0))"
      using vl B by (cases "j = ?i") (simp_all add: ver_lengths_def)
  qed
  moreover have "length (?mem (Ver j)) \<le> Suc (2 * gens ?C j ?B)" for j
    using odd B gens_step [OF assms(3) B, of j] by (simp add: ver_odd_def)
  moreover have "ok_views ?mem" "bounded ?mem (vw_rel s)"
    using assms(1) m ok_views_store bounded_store by (simp_all add: vw_core_def ok_mem_def)
  ultimately have "ok_mem ?C (vw_log s) ?mem" "bounded ?mem (vw_rel s)"
    using m by (auto simp: ok_mem_def ok_pub_def store_def)
  then show ?thesis
    using assms(1,2) odd writing_cell [OF assms(1) w]
    by (simp add: vw_core_def)
qed

lemma core_fence:
  assumes "vw_core N cap s" "vw_writer s = W_fence x sq v" "0 < unat cap"
  shows "vw_core N cap (s\<lparr>vw_rel := newest (vw_mem s), vw_writer := W_data x sq v (data_writes cap x sq)\<rparr>)"
proof -
  let ?C = "unat cap" and ?B = "length (vw_log s)"
  let ?i = "vcell ?C ?B"
  have m: "ok_mem ?C (vw_log s) (vw_mem s)" and w: "writing N s x sq" and wr: "written s []" and
    vl: "ver_odd ?C (vw_mem s) (?B - 1)" and v: "v = version_of ?C s"
    using assms(1,2) by (simp_all add: vw_core_def)
  have B: "0 < ?B" using writing_pos [OF m w] .
  have "length (vw_mem s (Ver ?i)) = Suc (2 * (vgen ?C ?B - 1) + 1)"
    using vl gens_cell [OF assms(3) B] B by (simp add: ver_odd_def)
  then have "2 * vgen ?C ?B - 1 \<le> newest (vw_mem s) (Ver ?i)" by (simp add: newest_def)
  moreover have "data_writes cap x sq = map (\<lambda>l. (l, content x sq l)) (data_locs (length x) ?i)"
    using data_writes_eq writing_cell [OF assms(1) w] by simp
  ultimately show ?thesis
    using assms(1,2) m w wr vl v bounded_newest [of "vw_mem s"] by (auto simp: vw_core_def ok_mem_def)
qed

lemma core_data:
  assumes "vw_core N cap s" "vw_writer s = W_data x sq v ((l, u) # todo)" "0 < unat cap"
  shows "vw_core N cap (s\<lparr>vw_mem := store l u (vw_rel s) (length (vw_log s)) (vw_mem s),
    vw_writer := W_data x sq v todo\<rparr>)"
proof -
  let ?C = "unat cap" and ?B = "length (vw_log s)"
  let ?i = "vcell ?C ?B"
  let ?mem = "store l u (vw_rel s) ?B (vw_mem s)"
  have m: "ok_mem ?C (vw_log s) (vw_mem s)" and w: "writing N s x sq" and
    vl: "ver_odd ?C (vw_mem s) (?B - 1)" and v: "v = version_of ?C s" and
    rel: "2 * vgen ?C ?B - 1 \<le> vw_rel s (Ver ?i)" and
    td: "\<exists>dn ls. (l, u) # todo = map (\<lambda>l. (l, content x sq l)) ls \<and> written s dn \<and>
      data_locs (length x) ?i = dn @ ls"
    using assms(1,2) by (simp_all add: vw_core_def)
  obtain dn ls where ls: "(l, u) # todo = map (\<lambda>l. (l, content x sq l)) (l # ls)" "written s dn"
    "data_locs (length x) ?i = dn @ l # ls"
    using td by auto
  have B: "0 < ?B" using writing_pos [OF m w] .
  have new: "l \<notin> set dn" using ls(3) distinct_data_locs [of "length x" ?i] by auto
  have l: "data_of l = Some ?i" using ls(3) data_locs_data by (metis in_set_conv_decomp)
  then have "l \<noteq> Pub" "l \<noteq> Ver j" for j by auto
  then have same: "?mem Pub = vw_mem s Pub" "?mem (Ver j) = vw_mem s (Ver j)" for j
    by (metis store_other)+
  have "m_by (last (vw_mem s l)) < ?B" using ls(2) l new by (simp add: written_def)
  moreover have "u = content (vw_log s ! (?B - 1)) (of_nat ?B) l"
    using ls(1) unfolding writing_last(1) [OF w] writing_last(2) [OF w] by simp
  ultimately have "ok_data ?C (vw_log s) ?mem"
    using m l B rel by (intro ok_data_store) (simp_all add: ok_mem_def)
  moreover have "ok_ver ?C (vw_log s) ?mem"
    using ok_ver_grows [OF _ grows_store same(2)] m by (simp add: ok_mem_def)
  moreover have "?mem l' \<noteq> []" for l' using m by (simp add: ok_mem_def store_def)
  moreover have bd: "ok_views ?mem" "bounded ?mem (vw_rel s)"
    using assms(1) m ok_views_store bounded_store by (simp_all add: vw_core_def ok_mem_def)
  ultimately have "ok_mem ?C (vw_log s) ?mem" using m same by (simp add: ok_mem_def ok_pub_def)
  moreover have "written (s\<lparr>vw_mem := ?mem\<rparr>) (dn @ [l])"
    using ls(2) unfolding written_def by (auto simp: store_def)
  then have "\<exists>dn ls. todo = map (\<lambda>l. (l, content x sq l)) ls \<and> written (s\<lparr>vw_mem := ?mem\<rparr>) dn \<and>
      data_locs (length x) ?i = dn @ ls"
    using ls(1,3) by (intro exI [of _ "dn @ [l]"] exI [of _ ls]) simp
  moreover have "ver_odd ?C ?mem (?B - 1)" using vl same by (simp add: ver_odd_def)
  ultimately show ?thesis
    using assms(1,2) w v rel same(1) bd(2) by (simp add: vw_core_def)
qed

lemma core_even:
  assumes "vw_core N cap s" "vw_writer s = W_even x sq v" "0 < unat cap"
  shows "vw_core N cap (s\<lparr>vw_mem := store (Ver (cell_of cap sq)) (v + 2) (newest (vw_mem s)) (length (vw_log s)) (vw_mem s),
    vw_writer := W_pub x sq\<rparr>)"
proof -
  let ?C = "unat cap" and ?B = "length (vw_log s)"
  let ?i = "vcell ?C ?B"
  let ?mem = "store (Ver ?i) (v + 2) (newest (vw_mem s)) ?B (vw_mem s)"
  have m: "ok_mem ?C (vw_log s) (vw_mem s)" and w: "writing N s x sq" and
    vl: "ver_odd ?C (vw_mem s) (?B - 1)" and v: "v = version_of ?C s" and
    wr: "written s (data_locs (length x) ?i)"
    using assms(1,2) by (simp_all add: vw_core_def)
  have B: "0 < ?B" using writing_pos [OF m w] .
  have g: "0 < vgen ?C ?B" by (simp add: vgen_def)
  have len: "length (vw_mem s (Ver ?i)) = 2 * vgen ?C ?B"
    using vl gens_cell [OF assms(3) B] B g by (simp add: ver_odd_def)
  have "v + 2 = of_nat (2 * vgen ?C ?B)"
  proof -
    have "2 * vgen ?C ?B = 2 * (vgen ?C ?B - 1) + 2" using g by simp
    then have "of_nat (2 * vgen ?C ?B) = (of_nat (2 * (vgen ?C ?B - 1)) + 2 :: u64)" by (metis of_nat_add of_nat_numeral)
    then show ?thesis by (simp add: v version_of_def)
  qed
  moreover have "covers ?C (vw_log s) (vw_mem s) (newest (vw_mem s)) ?B"
    unfolding covers_def
  proof
    fix l assume l: "l \<in> set (data_locs (length (vw_log s ! (?B - 1))) ?i)"
    then have "l \<in> set (data_locs (length x) ?i)" unfolding writing_last(1) [OF w] .
    then have "m_by (last (vw_mem s l)) = ?B" using written_in [OF wr] data_locs_data by simp
    moreover have "vw_mem s l \<noteq> []" using m by (simp add: ok_mem_def)
    ultimately show "newest (vw_mem s) l < length (vw_mem s l) \<and> ?B \<le> m_by (vw_mem s l ! newest (vw_mem s) l)"
      by (simp add: newest_def last_conv_nth)
  qed
  ultimately have "ok_ver ?C (vw_log s) ?mem"
    using m len B by (intro ok_ver_store_ver) (auto simp: ok_mem_def intro!: exI [of _ ?B])
  moreover have "ok_data ?C (vw_log s) ?mem"
    by (rule ok_data_cong [of _ _ "vw_mem s"]) (use m in \<open>auto simp: ok_mem_def store_def\<close>)
  moreover have vls: "ver_lengths ?C ?mem ?B"
    unfolding ver_lengths_def
  proof
    fix j
    show "length (?mem (Ver j)) = Suc (2 * gens ?C j ?B)"
      using vl B gens_step [OF assms(3) B, of j] by (cases "j = ?i") (simp_all add: ver_odd_def)
  qed
  moreover have bd: "ok_views ?mem" "bounded ?mem (vw_rel s)"
    using assms(1) m ok_views_store bounded_store bounded_newest by (simp_all add: vw_core_def ok_mem_def)
  ultimately have "ok_mem ?C (vw_log s) ?mem"
    using m by (auto simp: ok_mem_def ok_pub_def store_def ver_lengths_def)
  then show ?thesis
    using assms(1,2) bd(2) vls writing_cell [OF assms(1) w] by (simp add: vw_core_def)
qed

lemma core_pub:
  assumes "vw_core N cap s" "vw_writer s = W_pub x sq" "0 < unat cap"
  shows "vw_core N cap (s\<lparr>vw_mem := store Pub sq (newest (vw_mem s)) (length (vw_log s)) (vw_mem s),
    vw_produced := sq, vw_writer := W_done r\<rparr>)"
proof -
  let ?C = "unat cap" and ?B = "length (vw_log s)"
  let ?mem = "store Pub sq (newest (vw_mem s)) ?B (vw_mem s)"
  have m: "ok_mem ?C (vw_log s) (vw_mem s)" and w: "writing N s x sq" and
    vl: "ver_lengths ?C (vw_mem s) ?B"
    using assms(1,2) by (simp_all add: vw_core_def)
  have pub: "length (vw_mem s Pub) = ?B" "sq = of_nat ?B" using w by (simp_all add: writing_def)
  have same: "?mem (Ver j) = vw_mem s (Ver j)" for j by simp
  have "2 * vgen ?C n \<le> newest (vw_mem s) (Ver (vcell ?C n))" if "0 < n" "n \<le> length (vw_mem s Pub)" for n
    using vgen_le_gens [OF assms(3) that(1), of ?B] that(2) pub(1) vl by (simp add: newest_def ver_lengths_def)
  then have "ok_pub ?C ?mem" using m pub by (intro ok_pub_store) (simp_all add: ok_mem_def)
  moreover have "ok_ver ?C (vw_log s) ?mem"
    using ok_ver_grows [OF _ grows_store same] m by (simp add: ok_mem_def)
  moreover have "ok_data ?C (vw_log s) ?mem"
    by (rule ok_data_cong [of _ _ "vw_mem s"]) (use m in \<open>auto simp: ok_mem_def store_def\<close>)
  moreover have bd: "ok_views ?mem" "bounded ?mem (vw_rel s)"
    using assms(1) m ok_views_store bounded_store bounded_newest by (simp_all add: vw_core_def ok_mem_def)
  ultimately have "ok_mem ?C (vw_log s) ?mem"
    using m pub(1) by (auto simp: ok_mem_def store_def)
  moreover have "ver_lengths ?C ?mem ?B" using vl by (simp add: ver_lengths_def)
  ultimately show ?thesis using assms(1,2) pub bd(2) by (simp add: vw_core_def)
qed

lemma core_write:
  assumes "vw_write N cap s t" "vw_core N cap s" "0 < unat cap" "length (vw_log t) < 2 ^ 63"
  shows "vw_core N cap t"
  using assms(1)
proof cases
  case (w_begin x)
  then show ?thesis using core_begin [OF assms(2)] assms(4) by simp
next
  case (w_load x sq v)
  then show ?thesis using core_load [OF assms(2) _ assms(3)] by simp
next
  case (w_mark x sq v)
  then show ?thesis using core_mark [OF assms(2) _ assms(3)] by simp
next
  case (w_fence x sq v)
  then show ?thesis using core_fence [OF assms(2) _ assms(3)] by simp
next
  case (w_data x sq v l u todo)
  then show ?thesis using core_data [OF assms(2) _ assms(3)] by simp
next
  case (w_even x sq v)
  then show ?thesis using core_even [OF assms(2) _ assms(3)] by simp
next
  case (w_pub x sq)
  then show ?thesis using core_pub [OF assms(2) _ assms(3)] by simp
next
  case (w_data_end x sq v)
  then show ?thesis using assms(2) by (auto simp: vw_core_def)
next
  case (w_fence2 x sq v)
  then show ?thesis using assms(2) bounded_newest [of "vw_mem s"] by (simp add: vw_core_def ok_mem_def)
qed (use assms(2) in \<open>simp_all add: vw_core_def\<close>)

section \<open>Steps of a consumer\<close>

lemma loaded_pub:
  assumes "ok_mem C log mem" "length log < 2 ^ 63" "ts < length (mem Pub)"
  shows "unat (loaded mem Pub ts) = ts"
proof -
  have "m_val (mem Pub ! ts) = of_nat ts" using assms(1,3) by (simp add: ok_mem_def ok_pub_def)
  moreover have "ts < 2 ^ 64" using assms by (simp add: ok_mem_def)
  ultimately show ?thesis by (simp add: loaded_def unat_of_nat_64)
qed

lemma ver_length_bound:
  assumes "ok_mem C log mem" "length log < 2 ^ 63"
  shows "length (mem (Ver i)) \<le> Suc (2 * gens C i (length log))" "length (mem (Ver i)) < 2 ^ 64"
proof -
  show "length (mem (Ver i)) \<le> Suc (2 * gens C i (length log))" using assms(1) by (simp add: ok_mem_def)
  then show "length (mem (Ver i)) < 2 ^ 64" using gens_le [of C i "length log"] assms(2) by simp
qed

lemma loaded_ver:
  assumes "ok_mem C log mem" "length log < 2 ^ 63" "ts < length (mem (Ver i))"
  shows "unat (loaded mem (Ver i) ts) = ts"
proof -
  have "m_val (mem (Ver i) ! ts) = of_nat ts" using assms(1,3) by (simp add: ok_mem_def ok_ver_def)
  moreover have "ts < 2 ^ 64" using ver_length_bound(2) [OF assms(1,2)] assms(3) less_trans by blast
  ultimately show ?thesis by (simp add: loaded_def unat_of_nat_64)
qed

text \<open>A version beyond that of the wanted generation means that the cell has been reused.\<close>

lemma version_overtakes:
  assumes "ok_mem C log mem" "length log < 2 ^ 63" "0 < C" "0 < s"
    and "ts < length (mem (Ver (vcell C s)))" "2 * vgen C s < ts"
  shows "s + C \<le> length log"
proof (rule overtaken [OF assms(3,4)])
  show "vgen C s < gens C (vcell C s) (length log)"
    using ver_length_bound(1) [OF assms(1,2), of "vcell C s"] assms(5,6) by simp
qed

lemma bounded_upd: "bounded mem V \<Longrightarrow> ts < length (mem l) \<Longrightarrow> bounded mem (V(l := ts))"
  by (simp add: bounded_def)

lemma bounded_join: "bounded mem V \<Longrightarrow> bounded mem W \<Longrightarrow> bounded mem (join V W)"
  by (simp add: bounded_def join_def)

lemma bounded_msg: "ok_mem C log mem \<Longrightarrow> ts < length (mem l) \<Longrightarrow> bounded mem (m_view (mem l ! ts))"
  unfolding ok_mem_def ok_views_def using nth_mem by blast

lemma bounded_acquire:
  "ok_mem C log mem \<Longrightarrow> bounded mem V \<Longrightarrow> ts < length (mem l) \<Longrightarrow> bounded mem (acquire_view mem V l ts)"
  unfolding acquire_view_def by (intro bounded_join bounded_upd bounded_msg)

lemma acquire_view_ge:
  assumes "V l \<le> ts"
  shows "V l' \<le> acquire_view mem V l ts l'" "m_view (mem l ! ts) l' \<le> acquire_view mem V l ts l'"
    "ts \<le> acquire_view mem V l ts l"
  using assms by (auto simp: acquire_view_def join_def)

lemma covers_mono:
  assumes "covers C log mem V s" "ok_mem C log mem" "bounded mem W" "\<And>l. V l \<le> W l"
  shows "covers C log mem W s"
  unfolding covers_def
proof
  fix l assume l: "l \<in> set (data_locs (length (log ! (s - 1))) (vcell C s))"
  have "sorted_wrt (<) (map m_by (mem l))"
    using assms(2) data_locs_data [OF l] unfolding ok_mem_def ok_data_def by blast
  then have "m_by (mem l ! V l) \<le> m_by (mem l ! W l)"
    using assms(3,4) by (intro by_mono) (simp_all add: bounded_def)
  then show "W l < length (mem l) \<and> s \<le> m_by (mem l ! W l)"
    using assms(1,3) l unfolding covers_def bounded_def by fastforce
qed

text \<open>What a load of a field tells.\<close>

lemma observed_load:
  assumes mem: "ok_mem C log mem" and cov: "covers C log mem V s" and s: "0 < s"
    and ts: "V l \<le> ts" "ts < length (mem l)"
  shows "observed C log (join A (m_view (mem l ! ts))) s l (loaded mem l ts)"
  unfolding observed_def
proof
  assume l: "l \<in> set (data_locs (length (log ! (s - 1))) (vcell C s))"
  let ?m = "mem l ! ts"
  have data: "data_of l = Some (vcell C s)" using data_locs_data [OF l] .
  have "m_by (mem l ! V l) \<le> m_by ?m"
    using mem data ts unfolding ok_mem_def ok_data_def by (intro by_mono) auto
  then have bys: "s \<le> m_by ?m" using cov l unfolding covers_def by fastforce
  have "?m \<in> set (mem l)" using ts(2) by simp
  then have "m_by ?m \<le> length log \<and> vcell C (m_by ?m) = vcell C s \<and>
      2 * vgen C (m_by ?m) - 1 \<le> m_view ?m (Ver (vcell C s)) \<and>
      m_val ?m = content (log ! (m_by ?m - 1)) (of_nat (m_by ?m)) l"
    using mem data bys s unfolding ok_mem_def ok_data_def by (meson less_le_trans)
  then show "\<exists>s'\<ge>s. s' \<le> length log \<and> vcell C s' = vcell C s \<and>
      2 * vgen C s' - 1 \<le> join A (m_view ?m) (Ver (vcell C s)) \<and>
      loaded mem l ts = content (log ! (s' - 1)) (of_nat s') l"
    using bys by (intro exI [of _ "m_by ?m"]) (auto simp: loaded_def join_def)
qed

lemma observed_mono:
  assumes "observed C log A s l v" "\<And>l. A l \<le> A' l"
  shows "observed C log A' s l v"
proof -
  have "2 * vgen C s' - 1 \<le> A' (Ver (vcell C s))" if "2 * vgen C s' - 1 \<le> A (Ver (vcell C s))" for s'
    using that assms(2) order_trans by blast
  then show ?thesis using assms(1) unfolding observed_def by blast
qed

lemma cell_of_unat: "0 < unat want \<Longrightarrow> cell_of cap want = vcell (unat cap) (unat want)"
  using cell_of_nat [of "unat want" cap] unat_less_2p64 [of want] unfolding word_of_unat by blast

lemma ok_reader_move:
  assumes "ok_reader N C log mem r" "rd_next r' = rd_next r" "rd_out r' = rd_out r"
    and "bounded mem (rd_view r')" "bounded mem (rd_acq r')" "ok_rpc N C log mem r' (rd_pc r')"
  shows "ok_reader N C log mem r'"
  using assms by (simp add: ok_reader_def delivered_def)

lemma ok_reader_result:
  assumes "ok_reader N C log mem r" "rd_pc r' = R_done res d" "rd_out r' = rd_out r @ [(want, res, dest, d)]"
    and "bounded mem (rd_view r')" "bounded mem (rd_acq r')"
    and "ok_result C log mem (want, res, dest, d)" "0 < unat (rd_next r)" "rd_next r \<le> rd_next r'"
    and "unat (rd_next r') \<le> length (mem Pub)"
    and "rr_status res = Success \<Longrightarrow> want = rd_next r \<and> rd_next r < rd_next r'"
  shows "ok_reader N C log mem r'"
proof -
  have old: "sorted_wrt (<) (delivered r)" "\<forall>w \<in> set (delivered r). w < rd_next r"
    "\<forall>x \<in> set (rd_out r). ok_result C log mem x"
    using assms(1) by (simp_all add: ok_reader_def)
  have "delivered r' = delivered r @ (if rr_status res = Success then [want] else [])"
    using assms(3) by (simp add: delivered_def)
  then have "sorted_wrt (<) (delivered r') \<and> (\<forall>w \<in> set (delivered r'). w < rd_next r')"
    using old(1,2) assms(8,10) by (auto simp: sorted_wrt_append)
  moreover have "0 < unat (rd_next r')" using assms(7,8) by (simp add: word_le_nat_alt)
  ultimately show ?thesis using assms old(3) by (simp add: ok_reader_def)
qed

lemma wanted_view:
  assumes "wanted C mem r want" "rd_next r' = rd_next r"
    and "rd_view r (Ver (vcell C (unat want))) \<le> rd_view r' (Ver (vcell C (unat want)))"
  shows "wanted C mem r' want"
proof -
  have "want = rd_next r" "unat want < length (mem Pub)"
    "2 * vgen C (unat want) \<le> rd_view r (Ver (vcell C (unat want)))"
    using assms(1) unfolding wanted_def by blast+
  then show ?thesis unfolding wanted_def using assms(2,3) by (intro conjI) (simp, assumption, linarith)
qed

lemma reader_check:
  assumes mem: "ok_mem C log mem" "length log < 2 ^ 63" and r: "0 < unat (rd_next r)"
    and ts: "can_load mem (rd_view r) Pub ts"
  shows "ok_rpc N C log mem (r\<lparr>rd_pc := pc, rd_view := acquire_view mem (rd_view r) Pub ts\<rparr>)
    (R_check dest (loaded mem Pub ts))"
proof -
  have ts': "rd_view r Pub \<le> ts" "ts < length (mem Pub)" using ts by (simp_all add: can_load_def)
  have "2 * vgen C s \<le> acquire_view mem (rd_view r) Pub ts (Ver (vcell C s))" if "0 < s" "s \<le> ts" for s
  proof -
    have "2 * vgen C s \<le> m_view (mem Pub ! ts) (Ver (vcell C s))"
      using mem(1) ts'(2) that unfolding ok_mem_def ok_pub_def by blast
    then show ?thesis using acquire_view_ge(2) [where V = "rd_view r", OF ts'(1)] order_trans by blast
  qed
  then show ?thesis using r ts'(2) loaded_pub [OF mem ts'(2)] by simp
qed

lemma reader_begin:
  assumes mem: "ok_mem (unat cap) log mem" and cap: "0 < unat cap"
    and r: "ok_rpc N (unat cap) log mem r (R_check dest p)"
    and b: "vq_read_begin cap p (rd_next r) = Some (res, n)"
  shows "ok_result (unat cap) log mem (rd_next r, res, dest, dest) \<and> rd_next r \<le> n \<and> rr_status res \<noteq> Success \<and>
    unat n \<le> max (unat (rd_next r)) (length (mem Pub))"
proof (cases "rd_next r > p")
  case True
  then show ?thesis using b by (auto simp: vq_read_begin_def ok_result_def)
next
  case False
  let ?o = "mc_oldest cap p"
  have res: "rd_next r < ?o" "res = read_res Consumer_lagged 0 ?o" "n = ?o"
    using b False by (auto simp: vq_read_begin_def Let_def oldest_retained_eq split: if_splits)
  have "cap \<noteq> 0" using cap by auto
  then have o: "unat ?o = (if unat cap \<le> unat p then unat p - unat cap + 1 else 1)"
    using mc_oldest_unat [OF refl] by blast
  have "unat (rd_next r) < unat ?o" using res(1) by (simp add: word_less_nat_alt)
  then have "unat cap \<le> unat p" "unat (rd_next r) \<le> unat p - unat cap"
    using o r by (auto split: if_splits)
  then have "unat (rd_next r) + unat cap < length (mem Pub)" "unat ?o \<le> length (mem Pub)"
    using o r cap by auto
  then show ?thesis using res by (auto simp: ok_result_def word_less_nat_alt word_le_nat_alt)
qed

lemma reader_try:
  assumes "ok_rpc N C log mem r (R_check dest p)" "vq_read_begin cap p (rd_next r) = None"
  shows "wanted C mem r (rd_next r)"
  using assms by (auto simp: vq_read_begin_def wanted_def Let_def word_less_nat_alt split: if_splits)

lemma reader_even:
  assumes mem: "ok_mem C log mem" "length log < 2 ^ 63" and bd: "bounded mem (rd_view r)"
    and r: "0 < unat want" "wanted C mem r want"
    and ts: "can_load mem (rd_view r) (Ver (vcell C (unat want))) ts" "even ts"
  shows "reading N C log mem A (r\<lparr>rd_pc := pc, rd_view := acquire_view mem (rd_view r) (Ver (vcell C (unat want))) ts\<rparr>)
    want (loaded mem (Ver (vcell C (unat want))) ts) []"
proof -
  let ?i = "vcell C (unat want)"
  let ?V = "acquire_view mem (rd_view r) (Ver ?i) ts"
  have ts': "rd_view r (Ver ?i) \<le> ts" "ts < length (mem (Ver ?i))" using ts(1) by (simp_all add: can_load_def)
  have val: "unat (loaded mem (Ver ?i) ts) = ts" using loaded_ver [OF mem ts'(2)] .
  have ge: "2 * vgen C (unat want) \<le> ts" using r(2) ts'(1) unfolding wanted_def by linarith
  then have "0 < ts" by (simp add: vgen_def)
  then obtain s where s: "0 < s" "s \<le> length log" "vcell C s = ?i" "vgen C s = ts div 2"
    "covers C log mem (m_view (mem (Ver ?i) ! ts)) s"
    using mem(1) ts'(2) ts(2) unfolding ok_mem_def ok_ver_def by blast
  have "unat want \<le> s" using same_cell_le [of C "unat want" s] s(1,3,4) ge by simp
  moreover have "covers C log mem ?V s"
    using covers_mono [OF s(5) mem(1) bounded_acquire [OF mem(1) bd ts'(2)]] acquire_view_ge(2) [where V = "rd_view r", OF ts'(1)] by blast
  moreover have "unat (loaded mem (Ver ?i) ts) = 2 * vgen C s" using val s(4) ts(2) by simp
  moreover have "wanted C mem (r\<lparr>rd_pc := pc, rd_view := ?V\<rparr>) want"
    using wanted_view [OF r(2)] acquire_view_ge(1) [where V = "rd_view r", OF ts'(1)] by simp
  moreover have "unat (loaded mem (Ver ?i) ts) \<le> ?V (Ver ?i)" using val acquire_view_ge(3) [where V = "rd_view r", OF ts'(1)] by simp
  ultimately show ?thesis using s(2,3) by (intro readingI [of C mem _ want _ "[]" N s log]) simp_all
qed

lemma ucast_ucast_byte: "ucast (ucast (b :: byte) :: u64) = b"
  by (rule bit_word_eqI) (simp add: bit_simps)

lemma data_locs_nth:
  "k < n + 2 \<Longrightarrow> data_of (data_locs n i ! k) = Some i"
  using data_locs_data [of "data_locs n i ! k" n i] nth_mem [of k "data_locs n i"] by (simp add: data_locs_def)

lemma reader_data:
  assumes mem: "ok_mem C log mem" and bd: "bounded mem (rd_view r)" and want: "0 < unat want"
    and r: "reading N C log mem (rd_acq r) r want before vals" and len: "length vals < N + 2"
    and l: "l = data_locs N (vcell C (unat want)) ! length vals" and ts: "can_load mem (rd_view r) l ts"
  shows "reading N C log mem (join (rd_acq r) (m_view (mem l ! ts)))
    (r\<lparr>rd_pc := pc, rd_view := (rd_view r)(l := ts), rd_acq := A\<rparr>) want before (vals @ [loaded mem l ts])"
proof -
  let ?A = "join (rd_acq r) (m_view (mem l ! ts))" and ?V = "(rd_view r)(l := ts)"
  let ?r = "r\<lparr>rd_pc := pc, rd_view := ?V, rd_acq := A\<rparr>"
  have ts': "rd_view r l \<le> ts" "ts < length (mem l)" using ts by (simp_all add: can_load_def)
  obtain s where s: "unat want \<le> s" "s \<le> length log" "vcell C s = vcell C (unat want)"
    "unat before = 2 * vgen C s" "covers C log mem (rd_view r) s"
    "\<forall>j < length vals. observed C log (rd_acq r) s (data_locs N (vcell C s) ! j) (vals ! j)"
    using r unfolding reading_def by blast
  have "0 < s" using s(1) want by simp
  then have new: "observed C log ?A s l (loaded mem l ts)" using observed_load [OF mem s(5) _ ts'] by simp
  have old: "observed C log ?A s (data_locs N (vcell C s) ! j) (vals ! j)" if "j < length vals" for j
    using observed_mono [of C log "rd_acq r"] s(6) that by (simp add: join_def)
  have vals: "observed C log ?A s (data_locs N (vcell C s) ! j) ((vals @ [loaded mem l ts]) ! j)"
    if "j < length (vals @ [loaded mem l ts])" for j
  proof (cases "j < length vals")
    case True
    then show ?thesis using old by (simp add: nth_append)
  next
    case False
    then have "j = length vals" using that by simp
    then show ?thesis using new l s(3) by simp
  qed
  have cov: "covers C log mem ?V s"
    using covers_mono [OF s(5) mem bounded_upd [OF bd ts'(2)]] ts'(1) by simp
  have "l \<noteq> Ver i" for i using data_locs_nth [OF len] l by (metis data_of.simps(5) option.distinct(1))
  then have ver: "?V (Ver i) = rd_view r (Ver i)" for i by (metis fun_upd_other)
  have w: "wanted C mem ?r want" "unat before \<le> ?V (Ver (vcell C (unat want)))"
    using r ver wanted_view [of C mem r want ?r] by (simp_all add: reading_def)
  show ?thesis
    by (rule readingI [of C mem ?r want before _ N s log]) (use w len s(1-4) cov vals in auto)
qed

lemma reader_fence:
  assumes mem: "ok_mem C log mem" and bd: "bounded mem (rd_view r)" "bounded mem (rd_acq r)"
    and r: "reading N C log mem (rd_acq r) r want before vals"
  shows "reading N C log mem (join (rd_view r) (rd_acq r))
    (r\<lparr>rd_pc := pc, rd_view := join (rd_view r) (rd_acq r)\<rparr>) want before vals"
proof -
  let ?V = "join (rd_view r) (rd_acq r)"
  have le: "rd_view r l \<le> ?V l" "rd_acq r l \<le> ?V l" for l by (simp_all add: join_def)
  obtain s where s: "unat want \<le> s" "s \<le> length log" "vcell C s = vcell C (unat want)"
    "unat before = 2 * vgen C s" "covers C log mem (rd_view r) s"
    "\<forall>j < length vals. observed C log (rd_acq r) s (data_locs N (vcell C s) ! j) (vals ! j)"
    using r unfolding reading_def by blast
  have "covers C log mem ?V s" using covers_mono [OF s(5) mem bounded_join [OF bd]] le(1) by blast
  moreover have "observed C log ?V s (data_locs N (vcell C s) ! j) (vals ! j)" if "j < length vals" for j
    using observed_mono [of C log "rd_acq r" s _ _ ?V] s(6) that le(2) by blast
  moreover have "wanted C mem (r\<lparr>rd_pc := pc, rd_view := ?V\<rparr>) want"
    using r le(1) wanted_view [of C mem r want] by (simp add: reading_def)
  moreover have "unat before \<le> ?V (Ver (vcell C (unat want)))" using r le(1) order_trans unfolding reading_def by blast
  moreover have "length vals \<le> N + 2" using r by (simp add: reading_def)
  ultimately show ?thesis using s(1-4) by (intro readingI [of C mem _ want before vals N s log]) simp_all
qed

text \<open>A stable attempt has read one generation only.\<close>

lemma stable_values:
  assumes mem: "ok_mem C log mem" "length log < 2 ^ 63" and want: "0 < unat want"
    and r: "reading N C log mem (rd_view r) r want before vals"
    and ts: "can_load mem (rd_view r) (Ver (vcell C (unat want))) ts"
      "loaded mem (Ver (vcell C (unat want))) ts = before"
  obtains s where "unat want \<le> s" "s \<le> length log" "vcell C s = vcell C (unat want)"
    and "\<And>j. j < length vals \<Longrightarrow> data_locs N (vcell C s) ! j \<in> set (data_locs (length (log ! (s - 1))) (vcell C s)) \<Longrightarrow>
      vals ! j = content (log ! (s - 1)) (of_nat s) (data_locs N (vcell C s) ! j)"
proof -
  let ?i = "vcell C (unat want)"
  obtain s where s: "unat want \<le> s" "s \<le> length log" "vcell C s = ?i" "unat before = 2 * vgen C s"
    "\<forall>j < length vals. observed C log (rd_view r) s (data_locs N (vcell C s) ! j) (vals ! j)"
    using r unfolding reading_def by blast
  have ts': "rd_view r (Ver ?i) \<le> ts" "ts < length (mem (Ver ?i))" using ts(1) by (simp_all add: can_load_def)
  have "ts = 2 * vgen C s" using loaded_ver [OF mem ts'(2)] ts(2) s(4) by simp
  then have view: "rd_view r (Ver ?i) \<le> 2 * vgen C s" using ts'(1) by simp
  have "vals ! j = content (log ! (s - 1)) (of_nat s) (data_locs N (vcell C s) ! j)"
    if j: "j < length vals" "data_locs N (vcell C s) ! j \<in> set (data_locs (length (log ! (s - 1))) (vcell C s))" for j
  proof -
    obtain s' where s': "s \<le> s'" "vcell C s' = vcell C s" "2 * vgen C s' - 1 \<le> rd_view r (Ver (vcell C s))"
      "vals ! j = content (log ! (s' - 1)) (of_nat s') (data_locs N (vcell C s) ! j)"
      using s(5) j unfolding observed_def by blast
    have "vgen C s' \<le> vgen C s" using s'(3) view s(3) by simp
    then have "vgen C s' = vgen C s" using vgen_mono [OF s'(1), of C] by simp
    then have "s' = s" using same_cell_gen [OF s'(2)] s(1) s'(1) want by simp
    then show ?thesis using s'(4) by simp
  qed
  then show ?thesis using that s(1-3) by blast
qed

lemma reader_stable:
  assumes mem: "ok_mem C log mem" "length log < 2 ^ 63" and N: "N < 2 ^ 64" "\<forall>x \<in> set log. length x \<le> N"
    and want: "0 < unat want"
    and r: "reading N C log mem (rd_view r) r want before vals" and len: "length vals = N + 2"
    and ts: "can_load mem (rd_view r) (Ver (vcell C (unat want))) ts"
      "loaded mem (Ver (vcell C (unat want))) ts = before"
  shows "if sn_sequence (to_snapshot vals) = want
    then sn_size (to_snapshot vals) = length (log ! (unat want - 1)) \<and>
      take (sn_size (to_snapshot vals)) (sn_scratch (to_snapshot vals)) = log ! (unat want - 1)
    else unat want + C \<le> length log"
proof -
  obtain s where s: "unat want \<le> s" "s \<le> length log" "vcell C s = vcell C (unat want)"
    and v: "\<And>j. j < length vals \<Longrightarrow> data_locs N (vcell C s) ! j \<in> set (data_locs (length (log ! (s - 1))) (vcell C s)) \<Longrightarrow>
      vals ! j = content (log ! (s - 1)) (of_nat s) (data_locs N (vcell C s) ! j)"
    using stable_values [OF mem want r ts] by metis
  define x where "x = log ! (s - 1)"
  have "x \<in> set log" using s want by (simp add: x_def)
  then have xN: "length x \<le> N" using N(2) by blast
  have sq: "vals ! 0 = of_nat s" using v [of 0] len by (simp add: data_locs_def)
  have sz: "vals ! 1 = of_nat (length x)" using v [of 1] len by (simp add: data_locs_def x_def)
  have bs: "vals ! (2 + k) = ucast (x ! k)" if "k < length x" for k
    using v [of "2 + k"] len that xN by (simp add: data_locs_def x_def nth_append)
  show ?thesis
  proof (cases "of_nat s = want")
    case True
    then have "s = unat want" using unat_of_nat_64 [of s] s(2) mem(2) by auto
    then have x: "log ! (unat want - 1) = x" by (simp add: x_def)
    have size: "unat (of_nat (length x) :: u64) = length x" using xN N(1) by (intro unat_of_nat_64) simp
    have "take (length x) (map ucast (drop 2 vals)) = x"
    proof (rule nth_equalityI)
      fix k assume "k < length (take (length x) (map ucast (drop 2 vals)))"
      then have "k < length x" by simp
      then show "take (length x) (map ucast (drop 2 vals)) ! k = x ! k"
        using bs [of k] len xN by (simp add: ucast_ucast_byte)
    qed (use len xN in simp)
    then show ?thesis using True sq sz size x by (simp add: to_snapshot_def)
  next
    case False
    then have "s \<noteq> unat want" by auto
    then have "unat want < s" using s(1) by simp
    then have "unat want - 1 + C \<le> s - 1"
      using same_residue_gap [of "unat want - 1" C "s - 1"] s(3) want by (simp add: vcell_def)
    then show ?thesis using False sq s(1,2) want by (simp add: to_snapshot_def)
  qed
qed

lemma oldest_bound:
  assumes "0 < unat cap" "unat p < n"
  shows "unat (vq_oldest_retained cap p) \<le> n"
proof -
  have "cap \<noteq> 0" using assms(1) by auto
  then have "unat (mc_oldest cap p) = (if unat cap \<le> unat p then unat p - unat cap + 1 else 1)"
    using mc_oldest_unat [OF refl] by blast
  then show ?thesis using assms by (auto simp: oldest_retained_eq)
qed

lemma read_end_overwritten:
  assumes "\<forall>x. sn = Some x \<longrightarrow> sn_sequence x \<noteq> want" "vq_read_end cap want sn p dest = (res, d, n)"
  shows "n = vq_resume_after_overwrite cap p want \<and> res = read_res Overwritten 0 n \<and> d = dest"
  using assms by (auto simp: vq_read_end_def Let_def split: option.splits if_splits)

lemma read_end_copy:
  assumes "sn_sequence sn = want" "vq_read_end cap want (Some sn) p dest = (res, d, n)"
  shows "if length dest < sn_size sn then res = read_res Message_too_large 0 want \<and> d = dest \<and> n = want
    else res = read_res Success (sn_size sn) want \<and> d = copy_n (sn_size sn) (sn_scratch sn) dest \<and> n = want + 1"
  using assms by (auto simp: vq_read_end_def Let_def split: if_splits)

lemma sound_memoryD:
  assumes "sound_memory N cap log mem"
  shows "ok_mem (unat cap) log mem" "length log < 2 ^ 63" "0 < unat cap" "N < 2 ^ 64"
    "\<forall>x \<in> set log. length x \<le> N" "length (mem Pub) < 2 ^ 64"
  using assms by (simp_all add: sound_memory_def ok_mem_def)

lemma step_register:
  assumes "ok_reader N (unat cap) log mem r" "rd_pc r = R_unregistered" "can_load mem (rd_view r) Pub ts"
    and sm: "sound_memory N cap log mem"
  shows "ok_reader N (unat cap) log mem
    (r\<lparr>rd_pc := R_idle, rd_next := loaded mem Pub ts + 1, rd_view := acquire_view mem (rd_view r) Pub ts\<rparr>)"
proof -
  note mem = sound_memoryD(1) [OF sm] and life = sound_memoryD(2) [OF sm] and cap = sound_memoryD(3) [OF sm]
  have ts: "ts < length (mem Pub)" using assms(3) by (simp add: can_load_def)
  have "unat (loaded mem Pub ts + 1) = ts + 1"
    using loaded_pub [OF mem life ts] unat_Suc_word [of "loaded mem Pub ts"] ts sound_memoryD(6) [OF sm] by simp
  moreover have "rd_out r = []" "bounded mem (rd_view r)" "bounded mem (rd_acq r)"
    using assms(1,2) by (simp_all add: ok_reader_def)
  ultimately show ?thesis
    using ts bounded_acquire [OF mem _ ts] by (simp add: ok_reader_def delivered_def)
qed

lemma step_version:
  assumes r: "ok_reader N (unat cap) log mem r" "rd_pc r = R_before dest want a" "a < read_attempts"
    and ts: "can_load mem (rd_view r) (Ver (cell_of cap want)) ts"
    and sm: "sound_memory N cap log mem"
  shows "ok_reader N (unat cap) log mem
    (r\<lparr>rd_pc := (if loaded mem (Ver (cell_of cap want)) ts AND 1 \<noteq> 0 then R_before dest want (Suc a)
        else R_data dest want a (loaded mem (Ver (cell_of cap want)) ts) []),
       rd_view := acquire_view mem (rd_view r) (Ver (cell_of cap want)) ts\<rparr>)" (is "ok_reader _ _ _ _ ?r")
proof -
  note mem = sound_memoryD(1) [OF sm] and life = sound_memoryD(2) [OF sm] and cap = sound_memoryD(3) [OF sm]
  have w: "0 < unat want" "wanted (unat cap) mem r want" "bounded mem (rd_view r)" "bounded mem (rd_acq r)"
    using r by (auto simp: ok_reader_def wanted_def)
  have cell: "cell_of cap want = vcell (unat cap) (unat want)" using cell_of_unat [OF w(1)] .
  let ?l = "Ver (vcell (unat cap) (unat want))"
  have ts': "rd_view r ?l \<le> ts" "ts < length (mem ?l)" using ts cell by (simp_all add: can_load_def)
  have par: "loaded mem ?l ts AND 1 \<noteq> 0 \<longleftrightarrow> odd ts" using odd_word loaded_ver [OF mem life ts'(2)] by simp
  have nxt: "want = rd_next r" using w(2) by (simp add: wanted_def)
  have "ok_rpc N (unat cap) log mem ?r (rd_pc ?r)"
  proof (cases "odd ts")
    case True
    have "2 * vgen (unat cap) (unat want) \<le> ts" using w(2) ts'(1) unfolding wanted_def by linarith
    then have "2 * vgen (unat cap) (unat want) < ts" using True by (metis dvd_triv_left le_neq_implies_less)
    then have "unat want + unat cap \<le> length log" using version_overtakes [OF mem life cap w(1) ts'(2)] by blast
    moreover have "wanted (unat cap) mem ?r want"
      by (rule wanted_view [OF w(2)]) (use acquire_view_ge(1) [where V = "rd_view r", OF ts'(1)] cell in simp_all)
    ultimately show ?thesis using True par w(1) nxt r(3) cell by simp
  next
    case False
    then have "reading N (unat cap) log mem (rd_acq r) ?r want (loaded mem ?l ts) []"
      using reader_even [OF mem life w(3,1,2), of ts N "rd_acq r"] ts cell par by simp
    then show ?thesis using False par w(1) nxt r(3) cell by simp
  qed
  moreover have "bounded mem (rd_view ?r)" using bounded_acquire [OF mem w(3)] ts by (simp add: can_load_def)
  ultimately show ?thesis using w(4) by (intro ok_reader_move [OF r(1)]) simp_all
qed

lemma step_data:
  assumes r: "ok_reader N (unat cap) log mem r" "rd_pc r = R_data dest want a before vals" "length vals < N + 2"
    and l: "l = data_locs N (cell_of cap want) ! length vals" "can_load mem (rd_view r) l ts"
    and sm: "sound_memory N cap log mem"
  shows "ok_reader N (unat cap) log mem
    (r\<lparr>rd_pc := R_data dest want a before (vals @ [loaded mem l ts]),
       rd_view := (rd_view r)(l := ts), rd_acq := join (rd_acq r) (m_view (mem l ! ts))\<rparr>)"
proof -
  note mem = sound_memoryD(1) [OF sm] and life = sound_memoryD(2) [OF sm] and cap = sound_memoryD(3) [OF sm]
  have rd: "0 < unat (rd_next r)" "a < read_attempts" "reading N (unat cap) log mem (rd_acq r) r want before vals"
    and bd: "bounded mem (rd_view r)" "bounded mem (rd_acq r)"
    using r by (simp_all add: ok_reader_def)
  have w: "0 < unat want" using rd(1) reading_want [OF rd(3)] by simp
  have ts: "ts < length (mem l)" using l(2) by (simp add: can_load_def)
  show ?thesis
    using reader_data [OF mem bd(1) w rd(3) r(3) _ l(2)] l(1) cell_of_unat [OF w] rd
      bounded_upd [OF bd(1) ts] bounded_join [OF bd(2) bounded_msg [OF mem ts]]
    by (intro ok_reader_move [OF r(1)]) simp_all
qed

lemma step_fence:
  assumes r: "ok_reader N (unat cap) log mem r" "rd_pc r = R_data dest want a before vals" "length vals = N + 2"
    and sm: "sound_memory N cap log mem"
  shows "ok_reader N (unat cap) log mem
    (r\<lparr>rd_pc := R_after dest want a before vals, rd_view := join (rd_view r) (rd_acq r)\<rparr>)"
proof -
  note mem = sound_memoryD(1) [OF sm] and life = sound_memoryD(2) [OF sm] and cap = sound_memoryD(3) [OF sm]
  have rd: "0 < unat (rd_next r)" "a < read_attempts" "reading N (unat cap) log mem (rd_acq r) r want before vals"
    and bd: "bounded mem (rd_view r)" "bounded mem (rd_acq r)"
    using r by (simp_all add: ok_reader_def)
  show ?thesis
    using reader_fence [OF mem bd rd(3)] rd r(3) bd bounded_join [OF bd]
    by (intro ok_reader_move [OF r(1)]) simp_all
qed

lemma step_after:
  assumes r: "ok_reader N (unat cap) log mem r" "rd_pc r = R_after dest want a before vals"
    and ts: "can_load mem (rd_view r) (Ver (cell_of cap want)) ts"
    and sm: "sound_memory N cap log mem"
  shows "ok_reader N (unat cap) log mem
    (r\<lparr>rd_pc := (if before = loaded mem (Ver (cell_of cap want)) ts then R_end dest want (Some (to_snapshot vals))
        else R_before dest want (Suc a)),
       rd_view := (rd_view r)(Ver (cell_of cap want) := ts),
       rd_acq := join (rd_acq r) (m_view (mem (Ver (cell_of cap want)) ! ts))\<rparr>)" (is "ok_reader _ _ _ _ ?r")
proof -
  note mem = sound_memoryD(1) [OF sm] and life = sound_memoryD(2) [OF sm] and cap = sound_memoryD(3) [OF sm]
  have rd: "0 < unat (rd_next r)" "a < read_attempts" "length vals = N + 2"
    "reading N (unat cap) log mem (rd_view r) r want before vals"
    and bd: "bounded mem (rd_view r)" "bounded mem (rd_acq r)"
    using r by (simp_all add: ok_reader_def)
  have want: "want = rd_next r" using reading_want [OF rd(4)] .
  have w: "0 < unat want" using rd(1) want by simp
  have wd: "wanted (unat cap) mem r want" using rd(4) by (simp add: reading_def)
  have cell: "cell_of cap want = vcell (unat cap) (unat want)" using cell_of_unat [OF w] .
  let ?l = "Ver (vcell (unat cap) (unat want))"
  have ts': "rd_view r ?l \<le> ts" "ts < length (mem ?l)" using ts cell by (simp_all add: can_load_def)
  have "ok_rpc N (unat cap) log mem ?r (rd_pc ?r)"
  proof (cases "before = loaded mem ?l ts")
    case True
    have "unat want < length (mem Pub)" using wd unfolding wanted_def by blast
    moreover have "can_load mem (rd_view r) ?l ts" using ts cell by simp
    note reader_stable [OF mem life sound_memoryD(4,5) [OF sm] w rd(4,3) this True [symmetric]]
    ultimately show ?thesis using True cell w by (auto simp: want [symmetric] split: if_splits)
  next
    case False
    have "ts \<noteq> unat before" using False loaded_ver [OF mem life ts'(2)] by (metis word_unat_eq_iff)
    moreover have "2 * vgen (unat cap) (unat want) \<le> unat before" "unat before \<le> ts"
    proof -
      obtain s where s: "unat want \<le> s" "unat before = 2 * vgen (unat cap) s" using rd(4) unfolding reading_def by blast
      then show "2 * vgen (unat cap) (unat want) \<le> unat before" using vgen_mono [OF s(1), of "unat cap"] by simp
      show "unat before \<le> ts" using rd(4) ts'(1) unfolding reading_def by linarith
    qed
    ultimately have "2 * vgen (unat cap) (unat want) < ts" by linarith
    then have "unat want + unat cap \<le> length log" using version_overtakes [OF mem life cap w ts'(2)] by blast
    moreover have "wanted (unat cap) mem ?r want" by (rule wanted_view [OF wd]) (use ts'(1) cell in simp_all)
    ultimately show ?thesis using False w want rd(2) cell by simp
  qed
  then show ?thesis
    using bounded_upd [OF bd(1)] bounded_join [OF bd(2) bounded_msg [OF mem ts'(2)]] ts cell
    by (intro ok_reader_move [OF r(1)]) (simp_all add: can_load_def)
qed

lemma step_copy:
  assumes r: "ok_reader N (unat cap) log mem r" "rd_pc r = R_end dest want (Some sn)" "sn_sequence sn = want"
    and e: "vq_read_end cap want (Some sn) p dest = (res, d, n)"
    and sm: "sound_memory N cap log mem"
  shows "ok_reader N (unat cap) log mem
    (r\<lparr>rd_pc := R_done res d, rd_next := n, rd_out := rd_out r @ [(want, res, dest, d)]\<rparr>)"
proof -
  note mem = sound_memoryD(1) [OF sm] and life = sound_memoryD(2) [OF sm] and cap = sound_memoryD(3) [OF sm]
  let ?x = "log ! (unat want - 1)"
  have rd: "0 < unat want" "want = rd_next r" "unat want < length (mem Pub)" "sn_size sn = length ?x"
    "take (length ?x) (sn_scratch sn) = ?x" "bounded mem (rd_view r)" "bounded mem (rd_acq r)"
    using r by (auto simp: ok_reader_def)
  have up: "unat (want + 1) = unat want + 1" using rd(3) sound_memoryD(6) [OF sm] by (intro unat_Suc_word) simp
  show ?thesis
  proof (cases "length dest < length ?x")
    case True
    then have "res = read_res Message_too_large 0 want \<and> d = dest \<and> n = want"
      using read_end_copy [OF r(3) e] rd(4) by simp
    then show ?thesis
      using rd True by (intro ok_reader_result [OF r(1), of _ res d want dest]) (simp_all add: ok_result_def)
  next
    case False
    have "copy_n (length ?x) (sn_scratch sn) dest = copy_n (length ?x) ?x dest"
      using rd(5) by (simp add: copy_n_def)
    then have "res = read_res Success (length ?x) want \<and> d = copy_n (length ?x) ?x dest \<and> n = want + 1"
      using read_end_copy [OF r(3) e] rd(4) False by simp
    then show ?thesis
      using rd False up
      by (intro ok_reader_result [OF r(1), of _ res d want dest])
        (simp_all add: ok_result_def word_le_nat_alt word_less_nat_alt)
  qed
qed

lemma step_overwritten:
  assumes r: "ok_reader N (unat cap) log mem r" "rd_pc r = R_end dest want sn"
    "\<forall>x. sn = Some x \<longrightarrow> sn_sequence x \<noteq> want" and ts: "can_load mem (rd_view r) Pub ts"
    and e: "vq_read_end cap want sn (loaded mem Pub ts) dest = (res, d, n)"
    and sm: "sound_memory N cap log mem"
  shows "ok_reader N (unat cap) log mem
    (r\<lparr>rd_pc := R_done res d, rd_next := n, rd_view := acquire_view mem (rd_view r) Pub ts,
       rd_out := rd_out r @ [(want, res, dest, d)]\<rparr>)"
proof -
  note mem = sound_memoryD(1) [OF sm] and life = sound_memoryD(2) [OF sm] and cap = sound_memoryD(3) [OF sm]
  have rd: "0 < unat want" "want = rd_next r" "unat want < length (mem Pub)" "unat want + unat cap \<le> length log"
    "bounded mem (rd_view r)" "bounded mem (rd_acq r)"
    using r by (auto simp: ok_reader_def split: option.splits)
  have res: "n = vq_resume_after_overwrite cap (loaded mem Pub ts) want" "res = read_res Overwritten 0 n" "d = dest"
    using read_end_overwritten [OF r(3) e] by blast+
  have ts': "ts < length (mem Pub)" using ts by (simp add: can_load_def)
  have "unat (vq_oldest_retained cap (loaded mem Pub ts)) \<le> length (mem Pub)"
    using oldest_bound [OF cap] loaded_pub [OF mem life ts'] ts' by simp
  then have "unat n \<le> length (mem Pub)"
    using rd(3) by (simp add: res(1) vq_resume_after_overwrite_def Let_def)
  moreover have "want \<le> n" using res(1) vq_resume_ge by simp
  ultimately show ?thesis
    using rd res(2,3) bounded_acquire [OF mem rd(5) ts']
    by (intro ok_reader_result [OF r(1), of _ res d want dest]) (simp_all add: ok_result_def)
qed

lemma consumer_step:
  assumes "reader_step N cap mem r r'" "ok_reader N (unat cap) log mem r"
    and sm: "sound_memory N cap log mem"
  shows "ok_reader N (unat cap) log mem r'"
proof -
  note mem = sound_memoryD(1) [OF sm] and life = sound_memoryD(2) [OF sm] and cap = sound_memoryD(3) [OF sm]
  from assms(1) show ?thesis
  proof cases
    case (r_load ts dest)
    have "0 < unat (rd_next r)" "bounded mem (rd_view r)" "bounded mem (rd_acq r)"
      using assms(2) r_load by (simp_all add: ok_reader_def)
    then show ?thesis
      using r_load reader_check [OF mem life] bounded_acquire [OF mem]
      by (intro ok_reader_move [OF assms(2)]) (simp_all add: can_load_def del: ok_rpc.simps)
  next
    case (r_early dest p res n)
    have r: "ok_rpc N (unat cap) log mem r (R_check dest p)" "bounded mem (rd_view r)" "bounded mem (rd_acq r)"
      "0 < unat (rd_next r)" "unat (rd_next r) \<le> length (mem Pub)"
      using assms(2) r_early by (simp_all add: ok_reader_def)
    note b = reader_begin [OF mem cap r(1) r_early(3)]
    show ?thesis
      using r b r_early(1) by (intro ok_reader_result [OF assms(2), of _ res dest "rd_next r" dest]) auto
  next
    case (r_try dest p)
    have r: "ok_rpc N (unat cap) log mem r (R_check dest p)" "bounded mem (rd_view r)" "bounded mem (rd_acq r)"
      using assms(2) r_try by (simp_all add: ok_reader_def)
    have "wanted (unat cap) mem r (rd_next r)" using reader_try [OF r(1) r_try(3)] .
    then have "wanted (unat cap) mem r' (rd_next r)" using r_try(1) by (simp add: wanted_def)
    then show ?thesis using r r_try(1) by (intro ok_reader_move [OF assms(2)]) simp_all
  next
    case r_register
    then show ?thesis using step_register [OF assms(2) _ _ sm] by blast
  next
    case r_odd
    then show ?thesis using step_version [OF assms(2) r_odd(2,3,4) sm] by simp
  next
    case r_even
    then show ?thesis using step_version [OF assms(2) r_even(2,3,4) sm] by simp
  next
    case r_data
    then show ?thesis using step_data [OF assms(2) _ _ _ _ sm] by blast
  next
    case r_fence
    then show ?thesis using step_fence [OF assms(2) _ _ sm] by blast
  next
    case r_stable
    then show ?thesis using step_after [OF assms(2) r_stable(2,3) sm] by simp
  next
    case r_torn
    then show ?thesis using step_after [OF assms(2) r_torn(2,3) sm] by simp
  next
    case r_copy
    then show ?thesis using step_copy [OF assms(2) _ _ _ sm] by blast
  next
    case r_overwritten
    then show ?thesis using step_overwritten [OF assms(2) _ _ _ _ sm] by blast
  next
    case (r_give_up dest want a)
    then show ?thesis using assms(2)
      by (intro ok_reader_move [OF assms(2)]) (auto simp: ok_reader_def wanted_def read_attempts_def)
  next
    case r_return
    then show ?thesis using assms(2) by (intro ok_reader_move [OF assms(2)]) (auto simp: ok_reader_def)
  qed
qed

section \<open>The system\<close>

lemma vw_inv_init:
  assumes "vw_init N cap s"
  shows "vw_inv N cap s"
proof -
  have "gens C i 0 = 0" for C i by simp
  then show ?thesis using assms
    by (auto simp: vw_init_def vw_inv_def vw_core_def ok_mem_def ok_views_def bounded_def ok_pub_def ok_ver_def
        ok_data_def ver_lengths_def ok_reader_def vw_init_reader_def delivered_def)
qed

lemma vw_invD:
  assumes "vw_inv N cap s"
  shows "0 < unat cap" "N < 2 ^ 64" "vw_core N cap s"
    "ok_mem (unat cap) (vw_log s) (vw_mem s)"
    "sound_memory N cap (vw_log s) (vw_mem s)"
    "ok_reader N (unat cap) (vw_log s) (vw_mem s) (vw_reader s c)"
  using assms by (simp_all add: vw_inv_def vw_core_def sound_memory_def)

lemma vw_inv_write:
  assumes inv: "vw_inv N cap s" and step: "vw_write N cap s t" and life: "length (vw_log t) < 2 ^ 63"
  shows "vw_inv N cap t"
proof -
  have "length (vw_mem s Pub) \<le> Suc (length (vw_log s))" using vw_invD(4) [OF inv] by (simp add: ok_mem_def)
  then show ?thesis
    using vw_invD [OF inv] core_write [OF step vw_invD(3,1) [OF inv] life] write_grows [OF step]
      ok_reader_grows
    by (fastforce simp: vw_inv_def)
qed

lemma vw_inv_reader:
  assumes inv: "vw_inv N cap s" and r: "ok_reader N (unat cap) (vw_log s) (vw_mem s) r"
  shows "vw_inv N cap (s\<lparr>vw_reader := (vw_reader s)(c := r)\<rparr>)"
proof -
  let ?t = "s\<lparr>vw_reader := (vw_reader s)(c := r)\<rparr>"
  have "ok_writer N (unat cap) ?t pc = ok_writer N (unat cap) s pc" for pc
    by (cases pc) (simp_all add: writing_def written_def version_of_def)
  then show ?thesis
    using vw_invD [OF inv] r by (simp add: vw_inv_def vw_core_def)
qed

lemma vw_inv_read:
  assumes inv: "vw_inv N cap s" and step: "reader_step N cap (vw_mem s) (vw_reader s c) r"
  shows "vw_inv N cap (s\<lparr>vw_reader := (vw_reader s)(c := r)\<rparr>)"
  by (rule vw_inv_reader [OF inv consumer_step [OF step vw_invD(6,5) [OF inv]]])

interpretation vw_seqlock: invariant_system "vw_init N cap" "vw_step N cap" "vw_inv N cap"
  for N cap
  by unfold_locales (auto simp: vw_step_def intro: vw_inv_init vw_inv_write vw_inv_read)

section \<open>Progress\<close>

lemma write_rank_step:
  "vw_write N cap s t \<Longrightarrow> vw_writer s \<noteq> W_idle \<Longrightarrow> write_rank (vw_writer s) = Suc (write_rank (vw_writer t))"
  by (induction rule: vw_write.induct) (auto simp: data_writes_def Let_def)

lemma write_enabled:
  "\<exists>t. vw_write N cap s t \<and> vw_reader t = vw_reader s \<and> (vw_writer s \<noteq> W_idle \<longrightarrow> vw_log t = vw_log s)"
proof (cases "vw_writer s")
  case W_idle
  then show ?thesis using vw_write.w_begin [of s "[]" N cap] by auto
next
  case (W_data x sq v todo)
  then show ?thesis
  proof (cases todo)
    case Nil
    then show ?thesis using vw_write.w_data_end W_data by fastforce
  next
    case (Cons lv todo')
    then show ?thesis using vw_write.w_data [of s x sq v "fst lv" "snd lv" todo' N cap] W_data by fastforce
  qed
qed (fastforce intro: vw_write.intros)+

lemma read_rank_step:
  assumes "reader_step N cap mem r r'" "rd_pc r \<notin> {R_unregistered, R_idle}"
    and "ok_rpc N C log mem r (rd_pc r)"
  shows "read_rank N (rd_pc r') < read_rank N (rd_pc r)"
  using assms
proof (induction rule: reader_step.induct)
  case (r_odd r dest want attempt ts before)
  then have "read_attempts - attempt = Suc (read_attempts - Suc attempt)" by simp
  then show ?case using r_odd by simp
next
  case (r_even r dest want attempt ts before)
  then have "read_attempts - attempt = Suc (read_attempts - Suc attempt)" by simp
  then show ?case using r_even by simp
qed auto

lemma read_enabled:
  assumes "ok_reader N C log mem r"
  shows "\<exists>r'. reader_step N cap mem r r'"
proof -
  have load: "can_load mem (rd_view r) l (rd_view r l)" for l
    using assms by (simp add: can_load_def ok_reader_def bounded_def)
  show ?thesis
  proof (cases "rd_pc r")
    case R_unregistered
    then show ?thesis using reader_step.r_register load by blast
  next
    case R_idle
    then show ?thesis using reader_step.r_load load by blast
  next
    case (R_check dest p)
    then show ?thesis
      using reader_step.r_early [of r dest p cap] reader_step.r_try [of r dest p cap]
      by (cases "vq_read_begin cap p (rd_next r)") (auto, metis)
  next
    case (R_before dest want a)
    then have "a \<le> read_attempts" using assms by (simp add: ok_reader_def)
    then show ?thesis
      using R_before load [of "Ver (cell_of cap want)"] reader_step.r_odd reader_step.r_even reader_step.r_give_up
      by (metis le_neq_implies_less)
  next
    case (R_data dest want a before vals)
    then have "length vals \<le> N + 2" using assms by (simp add: ok_reader_def reading_def)
    then show ?thesis
      using R_data load reader_step.r_data reader_step.r_fence by (metis le_neq_implies_less)
  next
    case (R_after dest want a before vals)
    then show ?thesis
      using load [of "Ver (cell_of cap want)"] reader_step.r_stable reader_step.r_torn by metis
  next
    case (R_end dest want sn)
    show ?thesis
    proof (cases "\<exists>x. sn = Some x \<and> sn_sequence x = want")
      case True
      then show ?thesis using R_end reader_step.r_copy by (metis prod_cases3)
    next
      case False
      then show ?thesis using R_end load [of Pub] reader_step.r_overwritten by (metis prod_cases3)
    qed
  next
    case (R_done res d)
    then show ?thesis using reader_step.r_return by blast
  qed
qed

lemma read_rank_bound: "read_rank N pc \<le> read_attempts * (N + 5) + 4"
proof -
  have 1: "(read_attempts - a) * (N + 5) \<le> read_attempts * (N + 5)" for a by (intro mult_le_mono1) simp
  have 2: "(read_attempts - Suc a) * (N + 5) + (N + 5) \<le> read_attempts * (N + 5)" for a
  proof -
    have "(read_attempts - Suc a) * (N + 5) \<le> (read_attempts - 1) * (N + 5)" by (intro mult_le_mono1) simp
    then show ?thesis by (simp add: read_attempts_def)
  qed
  show ?thesis
  proof (cases pc)
    case (R_before dest want a)
    then show ?thesis using le_SucI [OF 1 [of a]] by simp
  next
    case (R_data dest want a before vals)
    then show ?thesis using 2 [of a] by simp
  next
    case (R_after dest want a before vals)
    then show ?thesis using 2 [of a] by simp
  qed simp_all
qed

lemma write_rank_bound:
  assumes "ok_writer N C s pc"
  shows "write_rank pc \<le> N + 10"
proof (cases pc)
  case (W_data x sq v todo)
  obtain dn ls where "todo = map (\<lambda>l. (l, content x sq l)) ls" "length x \<le> N"
      "data_locs (length x) (vcell C (length (vw_log s))) = dn @ ls"
    using assms by (auto simp: W_data writing_def)
  moreover have "length (dn @ ls) = length x + 2"
    using arg_cong [OF calculation(3), of length] by (simp add: data_locs_def)
  ultimately show ?thesis by (simp add: W_data)
qed (use assms in \<open>auto simp: writing_def\<close>)

lemma write_finishes:
  assumes "length (vw_log s) < 2 ^ 63"
  shows "\<exists>t. (vw_step N cap)\<^sup>*\<^sup>* s t \<and> vw_writer t = W_idle \<and> vw_log t = vw_log s \<and> vw_reader t = vw_reader s"
  using assms
proof (induction "write_rank (vw_writer s)" arbitrary: s rule: less_induct)
  case less
  show ?case
  proof (cases "vw_writer s = W_idle")
    case False
    then obtain t where t: "vw_write N cap s t" "vw_reader t = vw_reader s" "vw_log t = vw_log s"
      using write_enabled by blast
    then have "vw_step N cap s t" using less.prems by (simp add: vw_step_def)
    moreover have "write_rank (vw_writer t) < write_rank (vw_writer s)"
      using write_rank_step [OF t(1) False] by simp
    ultimately show ?thesis
      using less.hyps [of t] t less.prems by (metis converse_rtranclp_into_rtranclp)
  qed blast
qed

lemma publish_run:
  assumes "vw_writer s = W_idle" "length x \<le> N" "Suc (length (vw_log s)) < 2 ^ 63"
  shows "\<exists>t. (vw_step N cap)\<^sup>*\<^sup>* s t \<and> vw_writer t = W_idle \<and> vw_log t = vw_log s @ [x] \<and>
    vw_reader t = vw_reader s"
proof -
  let ?s1 = "s\<lparr>vw_log := vw_log s @ [x], vw_writer := W_load x (vw_produced s + 1)\<rparr>"
  have "vw_step N cap s ?s1"
    using vw_write.w_begin [OF assms(1,2), of cap] assms(3) by (simp add: vw_step_def)
  moreover obtain t where "(vw_step N cap)\<^sup>*\<^sup>* ?s1 t" "vw_writer t = W_idle" "vw_log t = vw_log s @ [x]"
      "vw_reader t = vw_reader s"
    using write_finishes [of ?s1 N cap] assms(3) by auto
  ultimately show ?thesis by (meson converse_rtranclp_into_rtranclp)
qed

lemma read_run:
  assumes "(reader_step N cap (vw_mem s))\<^sup>*\<^sup>* (vw_reader s c) r" "length (vw_log s) < 2 ^ 63"
  shows "(vw_step N cap)\<^sup>*\<^sup>* s (s\<lparr>vw_reader := (vw_reader s)(c := r)\<rparr>)"
  using assms(1)
proof (induction rule: rtranclp_induct)
  case (step r r')
  have "vw_step N cap (s\<lparr>vw_reader := (vw_reader s)(c := r)\<rparr>) (s\<lparr>vw_reader := (vw_reader s)(c := r')\<rparr>)"
    unfolding vw_step_def using step.hyps(2) assms(2)
    by (auto intro!: exI [of _ c] exI [of _ r'])
  with step.IH show ?case by (rule rtranclp.rtrancl_into_rtrancl)
qed simp

subsection \<open>A read that finds the producer idle\<close>

lemma load_newest: "bounded mem V \<Longrightarrow> can_load mem V l (newest mem l)"
proof -
  assume "bounded mem V"
  then have "V l < length (mem l)" by (simp add: bounded_def)
  then show ?thesis unfolding can_load_def newest_def by linarith
qed

lemma data_run:
  assumes "ok_reader N (unat cap) log mem r" "sound_memory N cap log mem"
    and "rd_pc r = R_data dest want a before vals"
  shows "\<exists>r' vals'. (reader_step N cap mem)\<^sup>*\<^sup>* r r' \<and> rd_pc r' = R_data dest want a before vals' \<and>
    length vals' = N + 2 \<and> rd_next r' = rd_next r \<and> rd_out r' = rd_out r"
  using assms(1,3)
proof (induction "N + 2 - length vals" arbitrary: r vals)
  case 0
  then have "length vals \<le> N + 2" by (simp add: ok_reader_def reading_def)
  then show ?case using 0 by (intro exI [of _ r] exI [of _ vals]) simp
next
  case (Suc n)
  let ?l = "data_locs N (cell_of cap want) ! length vals"
  let ?r = "r\<lparr>rd_pc := R_data dest want a before (vals @ [loaded mem ?l (newest mem ?l)]),
    rd_view := (rd_view r)(?l := newest mem ?l), rd_acq := join (rd_acq r) (m_view (mem ?l ! newest mem ?l))\<rparr>"
  have "can_load mem (rd_view r) ?l (newest mem ?l)"
    using Suc.prems(1) by (intro load_newest) (simp add: ok_reader_def)
  then have step: "reader_step N cap mem r ?r"
    using Suc.hyps(2) Suc.prems(2) by (intro reader_step.r_data) simp_all
  have "\<exists>r' vals'. (reader_step N cap mem)\<^sup>*\<^sup>* ?r r' \<and> rd_pc r' = R_data dest want a before vals' \<and>
      length vals' = N + 2 \<and> rd_next r' = rd_next ?r \<and> rd_out r' = rd_out ?r"
    using Suc.hyps(2) by (intro Suc.hyps(1) consumer_step [OF step Suc.prems(1) assms(2)]) simp_all
  then obtain r' vals' where "(reader_step N cap mem)\<^sup>*\<^sup>* ?r r'" "rd_pc r' = R_data dest want a before vals'"
      "length vals' = N + 2" "rd_next r' = rd_next r" "rd_out r' = rd_out r"
    by auto
  then show ?case using step by (meson converse_rtranclp_into_rtranclp)
qed

lemma snapshot_run:
  assumes "ok_reader N (unat cap) log mem r" "sound_memory N cap log mem"
    and "rd_pc r = R_before dest want a" "a < read_attempts"
    and even: "loaded mem (Ver (cell_of cap want)) (newest mem (Ver (cell_of cap want))) AND 1 = 0"
  shows "\<exists>r' sn. (reader_step N cap mem)\<^sup>*\<^sup>* r r' \<and> rd_pc r' = R_end dest want (Some sn) \<and>
    rd_next r' = rd_next r \<and> rd_out r' = rd_out r"
proof -
  let ?v = "Ver (cell_of cap want)" and ?ts = "newest mem (Ver (cell_of cap want))"
  let ?R = "reader_step N cap mem"
  note ok_step = consumer_step [OF _ _ assms(2)]
  have load: "can_load mem (rd_view r) ?v ?ts" if "ok_reader N (unat cap) log mem r" for r
    using that by (intro load_newest) (simp add: ok_reader_def)
  obtain r1 where r1: "?R r r1" "rd_pc r1 = R_data dest want a (loaded mem ?v ?ts) []"
      "rd_next r1 = rd_next r" "rd_out r1 = rd_out r"
    using reader_step.r_even [OF assms(3,4) load [OF assms(1)] refl even] by force
  obtain r2 vals where r2: "?R\<^sup>*\<^sup>* r1 r2" "rd_pc r2 = R_data dest want a (loaded mem ?v ?ts) vals"
      "length vals = N + 2" "rd_next r2 = rd_next r" "rd_out r2 = rd_out r"
    using data_run [OF ok_step [OF r1(1) assms(1)] assms(2) r1(2)] r1 by metis
  have "ok_reader N (unat cap) log mem r2"
    using r2(1) ok_step [OF r1(1) assms(1)] by (induction rule: rtranclp_induct) (auto intro: ok_step)
  moreover obtain r3 where r3: "?R r2 r3" "rd_pc r3 = R_after dest want a (loaded mem ?v ?ts) vals"
      "rd_next r3 = rd_next r" "rd_out r3 = rd_out r"
    using reader_step.r_fence [OF r2(2,3)] r2 by force
  ultimately have ok3: "ok_reader N (unat cap) log mem r3" using ok_step by blast
  obtain r4 where "?R r3 r4" "rd_pc r4 = R_end dest want (Some (to_snapshot vals))"
      "rd_next r4 = rd_next r" "rd_out r4 = rd_out r"
    using reader_step.r_stable [OF r3(2) load [OF ok3] refl refl] r3 by force
  then show ?thesis using r1(1) r2(1) r3(1)
    by (meson converse_rtranclp_into_rtranclp rtranclp.rtrancl_into_rtrancl)
qed

lemma read_begin_retained:
  assumes "n \<le> P" "P < n + unat cap" "P < 2 ^ 64" "0 < n"
  shows "vq_read_begin cap (of_nat P) (of_nat n) = None"
proof -
  have u: "unat (of_nat P :: u64) = P" "unat (of_nat n :: u64) = n" using assms by (simp_all add: unat_of_nat_64)
  have "cap \<noteq> 0" using assms by auto
  then have "unat (vq_oldest_retained cap (of_nat P)) \<le> n"
    using mc_oldest_unat [OF u(1), of cap] assms by (auto simp: oldest_retained_eq)
  then show ?thesis using u assms(1) by (simp add: vq_read_begin_def word_less_nat_alt Let_def)
qed

lemma idle_version_even:
  assumes mem: "ok_mem C log mem" and ver: "ver_lengths C mem (length log)" and life: "length log < 2 ^ 63"
  shows "loaded mem (Ver i) (newest mem (Ver i)) AND 1 = 0"
proof -
  have len: "length (mem (Ver i)) = Suc (2 * gens C i (length log))" using ver by (simp add: ver_lengths_def)
  then have "loaded mem (Ver i) (newest mem (Ver i)) = of_nat (2 * gens C i (length log))"
    using mem by (simp add: ok_mem_def ok_ver_def loaded_def newest_def)
  moreover have "unat (of_nat (2 * gens C i (length log)) :: u64) = 2 * gens C i (length log)"
    using gens_le [of C i "length log"] life by (intro unat_of_nat_64) simp
  ultimately show ?thesis using odd_word by (metis dvd_triv_left)
qed

lemma idle_read_steps:
  assumes inv: "vw_inv N cap s" and idle: "vw_writer s = W_idle" "rd_pc (vw_reader s c) = R_idle"
    and want: "rd_next (vw_reader s c) = of_nat n" "0 < n" "n \<le> length (vw_log s)" "length (vw_log s) < n + unat cap"
    and fits: "length (vw_log s ! (n - 1)) \<le> length dest"
  shows "\<exists>r1 r2 r. reader_step N cap (vw_mem s) (vw_reader s c) r1 \<and> (\<exists>p. rd_pc r1 = R_check dest p) \<and>
    rd_out r1 = rd_out (vw_reader s c) \<and> (reader_step N cap (vw_mem s))\<^sup>*\<^sup>* r1 r2 \<and> rd_out r2 = rd_out (vw_reader s c) \<and>
    (\<exists>sn. rd_pc r2 = R_end dest (of_nat n) sn) \<and>
    reader_step N cap (vw_mem s) r2 r \<and> rd_next r = of_nat n + 1 \<and> (\<exists>res d. rd_pc r = R_done res d \<and>
    rd_out r = rd_out (vw_reader s c) @ [(of_nat n, res, dest, d)] \<and> rr_status res = Success)"
proof -
  let ?R = "reader_step N cap (vw_mem s)" and ?r = "vw_reader s c" and ?P = "newest (vw_mem s) Pub"
  let ?w = "of_nat n :: u64"
  note sm = vw_invD(5) [OF inv]
  have core: "vw_core N cap s" by (rule vw_invD(3) [OF inv])
  have pub: "length (vw_mem s Pub) = Suc (length (vw_log s))" and ver: "ver_lengths (unat cap) (vw_mem s) (length (vw_log s))"
    and life: "length (vw_log s) < 2 ^ 63" and mem: "ok_mem (unat cap) (vw_log s) (vw_mem s)"
    using core idle by (simp_all add: vw_core_def)
  have n: "unat ?w = n" using want life by (intro unat_of_nat_64) simp
  have p: "loaded (vw_mem s) Pub ?P = of_nat (length (vw_log s))"
    using mem pub by (simp add: ok_mem_def ok_pub_def loaded_def newest_def)
  have ok0: "ok_reader N (unat cap) (vw_log s) (vw_mem s) ?r" by (rule vw_invD(6) [OF inv])
  obtain r1 where r1: "?R ?r r1" "rd_pc r1 = R_check dest (of_nat (length (vw_log s)))" "rd_next r1 = ?w"
      "rd_out r1 = rd_out ?r"
    using reader_step.r_load [OF idle(2) load_newest, of "vw_mem s" N cap dest] ok0 p want(1)
    by (force simp: ok_reader_def)
  have begin_none: "vq_read_begin cap (of_nat (length (vw_log s))) ?w = None"
    using want n life by (intro read_begin_retained) simp_all
  obtain r2 where r2: "?R r1 r2" "rd_pc r2 = R_before dest ?w 0" "rd_next r2 = ?w" "rd_out r2 = rd_out ?r"
    using reader_step.r_try [OF r1(2)] begin_none r1 by force
  have ok2: "ok_reader N (unat cap) (vw_log s) (vw_mem s) r2"
    using consumer_step [OF r2(1) consumer_step [OF r1(1) ok0 sm] sm] .
  note even = idle_version_even [OF mem ver life]
  obtain r3 sn where r3: "?R\<^sup>*\<^sup>* r2 r3" "rd_pc r3 = R_end dest ?w (Some sn)" "rd_next r3 = ?w"
      "rd_out r3 = rd_out ?r"
    using snapshot_run [OF ok2 sm r2(2) _ even] r2 by (auto simp: read_attempts_def)
  have "ok_reader N (unat cap) (vw_log s) (vw_mem s) r3"
    using r3(1) ok2 by (induction rule: rtranclp_induct) (auto intro: consumer_step [OF _ _ sm])
  then have sn: "sn_sequence sn = ?w" "sn_size sn = length (vw_log s ! (n - 1))"
    using r3(2) n want(4) by (auto simp: ok_reader_def split: if_splits)
  obtain r4 where "?R r3 r4" "rd_pc r4 = R_done (read_res Success (sn_size sn) ?w) (copy_n (sn_size sn) (sn_scratch sn) dest)"
      "rd_out r4 = rd_out ?r @ [(?w, read_res Success (sn_size sn) ?w, dest, copy_n (sn_size sn) (sn_scratch sn) dest)]"
      "rd_next r4 = ?w + 1"
    using reader_step.r_copy [OF r3(2) sn(1)] fits r3(4) sn by (force simp: vq_read_end_def)
  moreover have "rr_status (read_res Success (sn_size sn) ?w) = Success" by (simp add: read_res_def)
  moreover have "?R\<^sup>*\<^sup>* r1 r3" using r2(1) r3(1) by (rule converse_rtranclp_into_rtranclp)
  ultimately show ?thesis using r1 r3(2,4) by blast
qed

lemma idle_read:
  assumes "vw_inv N cap s" "vw_writer s = W_idle" "rd_pc (vw_reader s c) = R_idle"
    and "rd_next (vw_reader s c) = of_nat n" "0 < n" "n \<le> length (vw_log s)" "length (vw_log s) < n + unat cap"
    and "length (vw_log s ! (n - 1)) \<le> length dest"
  shows "\<exists>r. (reader_step N cap (vw_mem s))\<^sup>*\<^sup>* (vw_reader s c) r \<and> (\<exists>res d. rd_pc r = R_done res d \<and>
    rd_out r = rd_out (vw_reader s c) @ [(of_nat n, res, dest, d)] \<and> rr_status res = Success)"
  using idle_read_steps [OF assms] by (meson converse_rtranclp_into_rtranclp rtranclp.rtrancl_into_rtrancl)

section \<open>Example runs\<close>

lemma reachable_run: "reachable init step s \<Longrightarrow> step\<^sup>*\<^sup>* s t \<Longrightarrow> reachable init step t"
  by (rotate_tac 1, induction rule: rtranclp_induct) (auto intro: reach_step)

lemma vw_example_retained:
  "\<exists>s. reachable (vw_init 1 1) (vw_step 1 1) s \<and> vw_writer s = W_idle \<and> vw_log s = [[7]] \<and>
     rd_pc (vw_reader s 0) = R_idle \<and> rd_next (vw_reader s 0) = of_nat 1 \<and> rd_out (vw_reader s 0) = []"
proof -
  define s0 where "s0 = \<lparr>vw_mem = (\<lambda>_. [\<lparr>m_val = 0, m_view = (\<lambda>_. 0), m_by = 0\<rparr>]), vw_produced = 0,
     vw_writer = W_idle, vw_rel = (\<lambda>_. 0), vw_log = [], vw_reader = (\<lambda>_. vw_init_reader)\<rparr>"
  have 0: "reachable (vw_init 1 1) (vw_step 1 1) s0"
    by (rule reach_init) (simp add: vw_init_def s0_def)
  obtain r where r: "reader_step 1 1 (vw_mem s0) (vw_reader s0 0) r" "rd_pc r = R_idle" "rd_next r = 1" "rd_out r = []"
    using reader_step.r_register [of "vw_reader s0 0" "vw_mem s0" 0 1 1]
    by (force simp: s0_def vw_init_reader_def can_load_def loaded_def)
  let ?s1 = "s0\<lparr>vw_reader := (vw_reader s0)(0 := r)\<rparr>"
  have 1: "reachable (vw_init 1 1) (vw_step 1 1) ?s1"
    by (rule reachable_run [OF 0 read_run]) (use r(1) in \<open>auto simp: s0_def\<close>)
  obtain t where "(vw_step 1 1)\<^sup>*\<^sup>* ?s1 t" "vw_writer t = W_idle" "vw_log t = [[7]]" "vw_reader t = vw_reader ?s1"
    using publish_run [of ?s1 "[7]" 1 1] by (auto simp: s0_def)
  then show ?thesis using reachable_run [OF 1] r by (intro exI [of _ t]) simp
qed

lemma vw_example_delivered:
  "\<exists>s res d. reachable (vw_init 1 1) (vw_step 1 1) s \<and> vw_log s = [[7]] \<and> rr_status res = Success \<and>
     rd_out (vw_reader s 0) = [(1, res, [0], d)]"
proof -
  obtain s where s: "reachable (vw_init 1 1) (vw_step 1 1) s" "vw_writer s = W_idle" "vw_log s = [[7]]"
      "rd_pc (vw_reader s 0) = R_idle" "rd_next (vw_reader s 0) = of_nat 1" "rd_out (vw_reader s 0) = []"
    using vw_example_retained by blast
  have inv: "vw_inv 1 1 s" using s(1) by (rule vw_seqlock.reachable_inv)
  obtain r res d where r: "(reader_step 1 1 (vw_mem s))\<^sup>*\<^sup>* (vw_reader s 0) r"
      "rd_out r = [(1, res, [0], d)]" "rr_status res = Success"
    using idle_read [OF inv s(2,4,5), of "[0]"] s(3,6) by auto
  have "reachable (vw_init 1 1) (vw_step 1 1) (s\<lparr>vw_reader := (vw_reader s)(0 := r)\<rparr>)"
    by (rule reachable_run [OF s(1) read_run [OF r(1)]]) (simp add: s(3))
  then show ?thesis using r s(3) by (intro exI [of _ "s\<lparr>vw_reader := (vw_reader s)(0 := r)\<rparr>"]) simp
qed

section \<open>Properties\<close>

text \<open>
  C2: No torn reads, under the C++ memory model and in every interleaving of the producer and any
  number of consumers. A read that succeeds returns exactly the payload published under the
  sequence the consumer wanted, with its size and sequence, and changes nothing else of the
  destination. Every other outcome leaves the destination alone and is justified:
  \<open>overwritten\<close> only when the publication that reuses the wanted cell has begun,
  \<open>consumer_lagged\<close> only when more than \<open>capacity\<close> publications are ahead, and
  \<open>message_too_large\<close> only when the destination is smaller than the wanted payload.
\<close>

theorem versioned_no_torn_reads:
  assumes "reachable (vw_init N cap) (vw_step N cap) s"
    and "(want, res, dest, d) \<in> set (rd_out (vw_reader s c))"
  shows "case rr_status res of
      Success \<Rightarrow> 0 < unat want \<and> unat want \<le> length (vw_log s) \<and>
        (let x = vw_log s ! (unat want - 1) in
           res = read_res Success (length x) want \<and> d = x @ drop (length x) dest \<and> length x \<le> length dest)
    | Overwritten \<Rightarrow> unat want + unat cap \<le> length (vw_log s) \<and> d = dest
    | Consumer_lagged \<Rightarrow> unat want + unat cap \<le> length (vw_log s) \<and> d = dest
    | Message_too_large \<Rightarrow> length dest < length (vw_log s ! (unat want - 1)) \<and> d = dest
    | Empty \<Rightarrow> d = dest
    | _ \<Rightarrow> False"
proof -
  have inv: "vw_inv N cap s" using assms(1) by (rule vw_seqlock.reachable_inv)
  have "ok_result (unat cap) (vw_log s) (vw_mem s) (want, res, dest, d)"
    using vw_invD(6) [OF inv, of c] assms(2) by (simp add: ok_reader_def)
  moreover have "length (vw_mem s Pub) \<le> Suc (length (vw_log s))"
    using vw_invD(4) [OF inv] by (simp add: ok_mem_def)
  ultimately show ?thesis
    by (auto simp: ok_result_def copy_n_def Let_def split: queue_status.splits)
qed

theorem versioned_no_torn_reads_witness:
  "\<exists>s. reachable (vw_init 1 1) (vw_step 1 1) s \<and> vw_log s = [[7]] \<and>
     rd_out (vw_reader s 0) = [(1, read_res Success 1 1, [0], [7])]"
proof -
  obtain s res d where s: "reachable (vw_init 1 1) (vw_step 1 1) s" "vw_log s = [[7]]" "rr_status res = Success"
      "rd_out (vw_reader s 0) = [(1, res, [0], d)]"
    using vw_example_delivered by blast
  then show ?thesis using versioned_no_torn_reads [OF s(1), of 1 res "[0]" d 0] by auto
qed

text \<open>
  C9: Each consumer receives every payload at most once and in publication order: the sequences
  of its successful reads strictly increase, and its cursor never passes the next publication.
\<close>

theorem versioned_delivery_order:
  assumes "reachable (vw_init N cap) (vw_step N cap) s"
  shows "sorted_wrt (<) (delivered (vw_reader s c)) \<and>
    (\<forall>w \<in> set (delivered (vw_reader s c)). w < rd_next (vw_reader s c)) \<and>
    unat (rd_next (vw_reader s c)) \<le> Suc (length (vw_log s))"
proof -
  have inv: "vw_inv N cap s" using assms(1) by (rule vw_seqlock.reachable_inv)
  have "length (vw_mem s Pub) \<le> Suc (length (vw_log s))"
    using vw_invD(4) [OF inv] by (simp add: ok_mem_def)
  then show ?thesis using vw_invD(6) [OF inv, of c] by (simp add: ok_reader_def)
qed

theorem versioned_delivery_order_witness:
  "\<exists>s. reachable (vw_init 1 1) (vw_step 1 1) s \<and> delivered (vw_reader s 0) = [1] \<and>
     1 < rd_next (vw_reader s 0) \<and> unat (rd_next (vw_reader s 0)) \<le> 2"
proof -
  obtain s res d where s: "reachable (vw_init 1 1) (vw_step 1 1) s" "vw_log s = [[7]]" "rr_status res = Success"
      "rd_out (vw_reader s 0) = [(1, res, [0], d)]"
    using vw_example_delivered by blast
  then have "delivered (vw_reader s 0) = [1]" by (simp add: delivered_def)
  then show ?thesis using versioned_delivery_order [OF s(1), of 0] s(1,2) by (intro exI [of _ s]) simp
qed

text \<open>
  C11: \<open>try_publish\<close> and \<open>try_read\<close> are wait-free. Some step of each thread is possible in every
  reachable state, whatever the others do, and every own step of a call brings its end nearer:
  a publication takes at most \<open>N + 11\<close> steps and a read at most
  \<open>64 * (N + 5) + 5\<close>, the first one included.
\<close>

theorem versioned_wait_free:
  assumes "reachable (vw_init N cap) (vw_step N cap) s"
  shows "(\<exists>t. vw_write N cap s t) \<and>
    (\<forall>t. vw_write N cap s t \<and> vw_writer s \<noteq> W_idle \<longrightarrow> write_rank (vw_writer t) < write_rank (vw_writer s)) \<and>
    (\<exists>r. reader_step N cap (vw_mem s) (vw_reader s c) r) \<and>
    (\<forall>r. reader_step N cap (vw_mem s) (vw_reader s c) r \<and> rd_pc (vw_reader s c) \<notin> {R_unregistered, R_idle} \<longrightarrow>
       read_rank N (rd_pc r) < read_rank N (rd_pc (vw_reader s c))) \<and>
    read_rank N (rd_pc (vw_reader s c)) \<le> 64 * (N + 5) + 4 \<and>
    write_rank (vw_writer s) \<le> N + 10"
proof -
  have inv: "vw_inv N cap s" using assms by (rule vw_seqlock.reachable_inv)
  have ok: "ok_reader N (unat cap) (vw_log s) (vw_mem s) (vw_reader s c)" by (rule vw_invD(6) [OF inv])
  then have pc: "ok_rpc N (unat cap) (vw_log s) (vw_mem s) (vw_reader s c) (rd_pc (vw_reader s c))"
    by (simp add: ok_reader_def)
  have w: "ok_writer N (unat cap) s (vw_writer s)" using vw_invD(3) [OF inv] by (simp add: vw_core_def)
  show ?thesis
  proof (intro conjI)
    show "write_rank (vw_writer s) \<le> N + 10" using w by (rule write_rank_bound)
    show "read_rank N (rd_pc (vw_reader s c)) \<le> 64 * (N + 5) + 4"
      using read_rank_bound [of N] by (simp add: read_attempts_def)
  qed (use write_enabled write_rank_step read_enabled [OF ok] read_rank_step [OF _ _ pc] in \<open>metis lessI\<close>)+
qed

theorem versioned_wait_free_witness:
  "\<exists>s. reachable (vw_init 1 1) (vw_step 1 1) s \<and> (\<exists>t. vw_write 1 1 s t) \<and>
     (\<exists>r. reader_step 1 1 (vw_mem s) (vw_reader s 0) r) \<and> read_rank 1 (rd_pc (vw_reader s 0)) \<le> 388"
proof -
  obtain s where s: "reachable (vw_init 1 1) (vw_step 1 1) s" using vw_example_delivered by blast
  then show ?thesis using versioned_wait_free [OF s, of 0] by (intro exI [of _ s]) simp
qed

text \<open>
  C10: A retained publication can always be delivered: when the producer is between two calls and
  the wanted sequence is published and at most \<open>capacity - 1\<close> publications old, a call of the
  consumer, undisturbed, can complete with \<open>success\<close> and the exact payload.
\<close>

theorem versioned_read_delivers:
  assumes "reachable (vw_init N cap) (vw_step N cap) s"
    and "vw_writer s = W_idle" "rd_pc (vw_reader s c) = R_idle"
    and "rd_next (vw_reader s c) = of_nat n" "0 < n" "n \<le> length (vw_log s)" "length (vw_log s) < n + unat cap"
    and "length (vw_log s ! (n - 1)) \<le> length dest"
  shows "\<exists>t. (vw_step N cap)\<^sup>*\<^sup>* s t \<and> vw_log t = vw_log s \<and> rd_out (vw_reader t c) = rd_out (vw_reader s c) @
    [(of_nat n, read_res Success (length (vw_log s ! (n - 1))) (of_nat n), dest,
      vw_log s ! (n - 1) @ drop (length (vw_log s ! (n - 1))) dest)]"
proof -
  have inv: "vw_inv N cap s" using assms(1) by (rule vw_seqlock.reachable_inv)
  have life: "length (vw_log s) < 2 ^ 63" using vw_invD(3) [OF inv] by (simp add: vw_core_def)
  obtain r res d where r: "(reader_step N cap (vw_mem s))\<^sup>*\<^sup>* (vw_reader s c) r"
      "rd_out r = rd_out (vw_reader s c) @ [(of_nat n, res, dest, d)]" "rr_status res = Success"
    using idle_read [OF inv assms(2-8)] by blast
  let ?t = "s\<lparr>vw_reader := (vw_reader s)(c := r)\<rparr>"
  have run: "(vw_step N cap)\<^sup>*\<^sup>* s ?t" using r(1) life by (rule read_run)
  have "ok_reader N (unat cap) (vw_log s) (vw_mem s) r"
    using vw_invD(6) [OF vw_seqlock.run_inv [OF run inv], of c] by simp
  then have "ok_result (unat cap) (vw_log s) (vw_mem s) (of_nat n, res, dest, d)"
    using r(2) by (simp add: ok_reader_def)
  moreover have "unat (of_nat n :: u64) = n" using assms(6) life by (intro unat_of_nat_64) simp
  ultimately show ?thesis
    using r run by (intro exI [of _ ?t]) (simp add: ok_result_def copy_n_def Let_def)
qed

theorem versioned_read_delivers_witness:
  "\<exists>s t. reachable (vw_init 1 1) (vw_step 1 1) s \<and> vw_log s = [[7]] \<and> (vw_step 1 1)\<^sup>*\<^sup>* s t \<and>
     rd_out (vw_reader t 0) = [(1, read_res Success 1 1, [0, 9], [7, 9])]"
proof -
  obtain s where s: "reachable (vw_init 1 1) (vw_step 1 1) s" "vw_writer s = W_idle" "vw_log s = [[7]]"
      "rd_pc (vw_reader s 0) = R_idle" "rd_next (vw_reader s 0) = of_nat 1" "rd_out (vw_reader s 0) = []"
    using vw_example_retained by blast
  then show ?thesis
    using versioned_read_delivers [OF s(1,2,4,5), of "[0, 9]"] by - (rule exI [of _ s], auto)
qed

end
