(* ===== verification/Genmc_Cores.thy ===== *)
theory Genmc_Cores
  imports Spsc_Concurrent
begin

text \<open>
  The closed C programs that the repository gives to the GenMC model checker for the SPSC and the mutex
  protocol (\<open>verification/genmc/spsc_core.c\<close> and \<open>spmc_mutex_core.c\<close>): every thread, statement by
  statement, from the start of \<open>main\<close> to its last assertion. An atomic object is the list of the values stored to it,
  with the position each reader has acquired; a plain object is one value, and part of what is proved is
  that it is never accessed by two threads at once. Thread creation and joining succeed.
\<close>

type_synonym c_int = "32 word"

section \<open>Definitions\<close>

subsection \<open>The SPSC core\<close>

datatype gp_pc = Gp_none | Gp_load | Gp_check u64 | Gp_write u64 | Gp_publish u64 | Gp_return bool | Gp_end | Gp_abort

datatype gc_pc = Gc_none | Gc_load | Gc_check u64 | Gc_read u64 | Gc_release u64 | Gc_return bool | Gc_end

datatype gm_pc = Gm_create_producer | Gm_create_consumer | Gm_join_producer | Gm_join_consumer | Gm_assert | Gm_done bool

record spsc_core =
  gs_slots :: "c_int list"
  gs_head :: "u64 list"
  gs_tail :: "u64 list"
  gs_head_view :: nat
  gs_tail_view :: nat
  gs_consumed :: c_int
  gs_producer :: gp_pc
  gs_consumer :: gc_pc
  gs_main :: gm_pc

definition core_capacity :: nat where
  "core_capacity = 2"

definition spsc_core_init :: "spsc_core \<Rightarrow> bool" where
  "spsc_core_init s \<longleftrightarrow> s = \<lparr>gs_slots = replicate core_capacity 0, gs_head = [0], gs_tail = [0], gs_head_view = 0,
     gs_tail_view = 0, gs_consumed = 0, gs_producer = Gp_none, gs_consumer = Gc_none, gs_main = Gm_create_producer\<rparr>"

text \<open>\<open>produce\<close>: \<open>try_push (42)\<close>, whose result is asserted.\<close>

inductive core_produce :: "spsc_core \<Rightarrow> spsc_core \<Rightarrow> bool" where
  gp_load: "gs_producer s = Gp_load \<Longrightarrow> core_produce s (s\<lparr>gs_producer := Gp_check (last (gs_head s))\<rparr>)"
| gp_check: "gs_producer s = Gp_check position \<Longrightarrow> at_load (gs_tail s) (gs_tail_view s) ts tail \<Longrightarrow>
    core_produce s (s\<lparr>gs_tail_view := ts,
      gs_producer := (if position - tail = of_nat core_capacity then Gp_return False else Gp_write position)\<rparr>)"
| gp_write: "gs_producer s = Gp_write position \<Longrightarrow>
    core_produce s (s\<lparr>gs_slots := (gs_slots s)[unat position mod core_capacity := 42], gs_producer := Gp_publish position\<rparr>)"
| gp_publish: "gs_producer s = Gp_publish position \<Longrightarrow>
    core_produce s (s\<lparr>gs_head := gs_head s @ [position + 1], gs_producer := Gp_return True\<rparr>)"
| gp_return: "gs_producer s = Gp_return r \<Longrightarrow> core_produce s (s\<lparr>gs_producer := (if r then Gp_end else Gp_abort)\<rparr>)"

text \<open>\<open>consume\<close>: \<open>try_pop (&consumed)\<close> until it succeeds.\<close>

inductive core_consume :: "spsc_core \<Rightarrow> spsc_core \<Rightarrow> bool" where
  gc_load: "gs_consumer s = Gc_load \<Longrightarrow> core_consume s (s\<lparr>gs_consumer := Gc_check (last (gs_tail s))\<rparr>)"
| gc_check: "gs_consumer s = Gc_check position \<Longrightarrow> at_load (gs_head s) (gs_head_view s) ts head \<Longrightarrow>
    core_consume s (s\<lparr>gs_head_view := ts, gs_consumer := (if position = head then Gc_return False else Gc_read position)\<rparr>)"
| gc_read: "gs_consumer s = Gc_read position \<Longrightarrow>
    core_consume s (s\<lparr>gs_consumed := gs_slots s ! (unat position mod core_capacity), gs_consumer := Gc_release position\<rparr>)"
| gc_release: "gs_consumer s = Gc_release position \<Longrightarrow>
    core_consume s (s\<lparr>gs_tail := gs_tail s @ [position + 1], gs_consumer := Gc_return True\<rparr>)"
| gc_return: "gs_consumer s = Gc_return r \<Longrightarrow> core_consume s (s\<lparr>gs_consumer := (if r then Gc_end else Gc_load)\<rparr>)"

inductive core_main :: "spsc_core \<Rightarrow> spsc_core \<Rightarrow> bool" where
  gm_create_producer: "gs_main s = Gm_create_producer \<Longrightarrow>
    core_main s (s\<lparr>gs_producer := Gp_load, gs_main := Gm_create_consumer\<rparr>)"
| gm_create_consumer: "gs_main s = Gm_create_consumer \<Longrightarrow>
    core_main s (s\<lparr>gs_consumer := Gc_load, gs_main := Gm_join_producer\<rparr>)"
| gm_join_producer: "gs_main s = Gm_join_producer \<Longrightarrow> gs_producer s = Gp_end \<Longrightarrow>
    core_main s (s\<lparr>gs_main := Gm_join_consumer\<rparr>)"
| gm_join_consumer: "gs_main s = Gm_join_consumer \<Longrightarrow> gs_consumer s = Gc_end \<Longrightarrow>
    core_main s (s\<lparr>gs_main := Gm_assert\<rparr>)"
| gm_assert: "gs_main s = Gm_assert \<Longrightarrow> core_main s (s\<lparr>gs_main := Gm_done (gs_consumed s = 42)\<rparr>)"

definition spsc_core_step :: "spsc_core \<Rightarrow> spsc_core \<Rightarrow> bool" where
  "spsc_core_step s t \<longleftrightarrow> core_produce s t \<or> core_consume s t \<or> core_main s t"

subsection \<open>The mutex core\<close>

datatype xp_pc = Xp_none | Xp_lock | Xp_payload | Xp_published | Xp_unlock | Xp_end

datatype xc_pc = Xc_none | Xc_lock | Xc_test | Xc_copy | Xc_unlock bool | Xc_end

datatype xm_pc = Xm_create nat | Xm_join nat | Xm_assert | Xm_done bool

text \<open>Thread 0 is the producer, thread \<open>Suc i\<close> is consumer \<open>i\<close>; the mutex knows its owner.\<close>

record mutex_core =
  xs_owner :: "nat option"
  xs_published :: c_int
  xs_payload :: c_int
  xs_observed :: "nat \<Rightarrow> c_int"
  xs_producer :: xp_pc
  xs_consumer :: "nat \<Rightarrow> xc_pc"
  xs_main :: xm_pc

definition consumer_count :: nat where
  "consumer_count = 2"

definition mutex_core_init :: "mutex_core \<Rightarrow> bool" where
  "mutex_core_init s \<longleftrightarrow> s = \<lparr>xs_owner = None, xs_published = 0, xs_payload = 0, xs_observed = (\<lambda>_. 0),
     xs_producer = Xp_none, xs_consumer = (\<lambda>_. Xc_none), xs_main = Xm_create 0\<rparr>"

inductive mutex_publish :: "mutex_core \<Rightarrow> mutex_core \<Rightarrow> bool" where
  xp_lock: "xs_producer s = Xp_lock \<Longrightarrow> xs_owner s = None \<Longrightarrow>
    mutex_publish s (s\<lparr>xs_owner := Some 0, xs_producer := Xp_payload\<rparr>)"
| xp_payload: "xs_producer s = Xp_payload \<Longrightarrow> mutex_publish s (s\<lparr>xs_payload := 73, xs_producer := Xp_published\<rparr>)"
| xp_published: "xs_producer s = Xp_published \<Longrightarrow> mutex_publish s (s\<lparr>xs_published := 1, xs_producer := Xp_unlock\<rparr>)"
| xp_unlock: "xs_producer s = Xp_unlock \<Longrightarrow> mutex_publish s (s\<lparr>xs_owner := None, xs_producer := Xp_end\<rparr>)"

inductive mutex_consume :: "nat \<Rightarrow> mutex_core \<Rightarrow> mutex_core \<Rightarrow> bool" for i where
  xc_lock: "xs_consumer s i = Xc_lock \<Longrightarrow> xs_owner s = None \<Longrightarrow>
    mutex_consume i s (s\<lparr>xs_owner := Some (Suc i), xs_consumer := (xs_consumer s)(i := Xc_test)\<rparr>)"
| xc_test: "xs_consumer s i = Xc_test \<Longrightarrow>
    mutex_consume i s (s\<lparr>xs_consumer := (xs_consumer s)(i := if xs_published s \<noteq> 0 then Xc_copy else Xc_unlock False)\<rparr>)"
| xc_copy: "xs_consumer s i = Xc_copy \<Longrightarrow>
    mutex_consume i s (s\<lparr>xs_observed := (xs_observed s)(i := xs_payload s), xs_consumer := (xs_consumer s)(i := Xc_unlock True)\<rparr>)"
| xc_unlock: "xs_consumer s i = Xc_unlock found \<Longrightarrow>
    mutex_consume i s (s\<lparr>xs_owner := None, xs_consumer := (xs_consumer s)(i := if found then Xc_end else Xc_lock)\<rparr>)"

inductive mutex_main :: "mutex_core \<Rightarrow> mutex_core \<Rightarrow> bool" where
  xm_create_producer: "xs_main s = Xm_create 0 \<Longrightarrow>
    mutex_main s (s\<lparr>xs_producer := Xp_lock, xs_main := Xm_create 1\<rparr>)"
| xm_create_consumer: "xs_main s = Xm_create (Suc i) \<Longrightarrow> i < consumer_count \<Longrightarrow>
    mutex_main s (s\<lparr>xs_consumer := (xs_consumer s)(i := Xc_lock),
      xs_main := (if Suc i < consumer_count then Xm_create (Suc (Suc i)) else Xm_join 0)\<rparr>)"
| xm_join_producer: "xs_main s = Xm_join 0 \<Longrightarrow> xs_producer s = Xp_end \<Longrightarrow>
    mutex_main s (s\<lparr>xs_main := Xm_join 1\<rparr>)"
| xm_join_consumer: "xs_main s = Xm_join (Suc i) \<Longrightarrow> xs_consumer s i = Xc_end \<Longrightarrow>
    mutex_main s (s\<lparr>xs_main := (if Suc i < consumer_count then Xm_join (Suc (Suc i)) else Xm_assert)\<rparr>)"
| xm_assert: "xs_main s = Xm_assert \<Longrightarrow>
    mutex_main s (s\<lparr>xs_main := Xm_done (\<forall>i < consumer_count. xs_observed s i = 73)\<rparr>)"

definition mutex_core_step :: "mutex_core \<Rightarrow> mutex_core \<Rightarrow> bool" where
  "mutex_core_step s t \<longleftrightarrow> mutex_publish s t \<or> (\<exists>i < consumer_count. mutex_consume i s t) \<or> mutex_main s t"

subsection \<open>Invariants and ranks\<close>

fun gp_ok :: "spsc_core \<Rightarrow> gp_pc \<Rightarrow> bool" where
  "gp_ok s (Gp_check position) \<longleftrightarrow> gs_head s = [0] \<and> position = 0"
| "gp_ok s (Gp_write position) \<longleftrightarrow> gs_head s = [0] \<and> position = 0"
| "gp_ok s (Gp_publish position) \<longleftrightarrow> gs_head s = [0] \<and> position = 0 \<and> gs_slots s ! 0 = 42"
| "gp_ok s (Gp_return r) \<longleftrightarrow> gs_head s = [0, 1] \<and> gs_slots s ! 0 = 42 \<and> r"
| "gp_ok s Gp_end \<longleftrightarrow> gs_head s = [0, 1] \<and> gs_slots s ! 0 = 42"
| "gp_ok s Gp_abort \<longleftrightarrow> False"
| "gp_ok s _ \<longleftrightarrow> gs_head s = [0]"

fun gc_ok :: "spsc_core \<Rightarrow> gc_pc \<Rightarrow> bool" where
  "gc_ok s (Gc_check position) \<longleftrightarrow> gs_tail s = [0] \<and> position = 0"
| "gc_ok s (Gc_read position) \<longleftrightarrow> gs_tail s = [0] \<and> position = 0 \<and> gs_head_view s = 1"
| "gc_ok s (Gc_release position) \<longleftrightarrow> gs_tail s = [0] \<and> position = 0 \<and> gs_consumed s = 42"
| "gc_ok s (Gc_return r) \<longleftrightarrow> (if r then gs_tail s = [0, 1] \<and> gs_consumed s = 42 else gs_tail s = [0])"
| "gc_ok s Gc_end \<longleftrightarrow> gs_tail s = [0, 1] \<and> gs_consumed s = 42"
| "gc_ok s _ \<longleftrightarrow> gs_tail s = [0]"

fun gm_ok :: "spsc_core \<Rightarrow> gm_pc \<Rightarrow> bool" where
  "gm_ok s Gm_create_producer \<longleftrightarrow> gs_producer s = Gp_none \<and> gs_consumer s = Gc_none"
| "gm_ok s Gm_create_consumer \<longleftrightarrow> gs_producer s \<noteq> Gp_none \<and> gs_consumer s = Gc_none"
| "gm_ok s Gm_join_producer \<longleftrightarrow> gs_producer s \<noteq> Gp_none \<and> gs_consumer s \<noteq> Gc_none"
| "gm_ok s Gm_join_consumer \<longleftrightarrow> gs_producer s = Gp_end \<and> gs_consumer s \<noteq> Gc_none"
| "gm_ok s Gm_assert \<longleftrightarrow> gs_producer s = Gp_end \<and> gs_consumer s = Gc_end"
| "gm_ok s (Gm_done r) \<longleftrightarrow> gs_producer s = Gp_end \<and> gs_consumer s = Gc_end \<and> r"

definition spsc_core_inv :: "spsc_core \<Rightarrow> bool" where
  "spsc_core_inv s \<longleftrightarrow> length (gs_slots s) = core_capacity \<and> gs_head_view s < length (gs_head s) \<and>
     gs_tail_view s < length (gs_tail s) \<and>
     gp_ok s (gs_producer s) \<and> gc_ok s (gs_consumer s) \<and> gm_ok s (gs_main s)"

fun gp_rank :: "gp_pc \<Rightarrow> nat" where
  "gp_rank Gp_none = 6"
| "gp_rank Gp_load = 5"
| "gp_rank (Gp_check position) = 4"
| "gp_rank (Gp_write position) = 3"
| "gp_rank (Gp_publish position) = 2"
| "gp_rank (Gp_return r) = 1"
| "gp_rank _ = 0"

fun gc_rank :: "gc_pc \<Rightarrow> nat" where
  "gc_rank Gc_none = 7"
| "gc_rank Gc_load = 5"
| "gc_rank (Gc_check position) = 4"
| "gc_rank (Gc_read position) = 3"
| "gc_rank (Gc_release position) = 2"
| "gc_rank (Gc_return r) = (if r then 1 else 6)"
| "gc_rank Gc_end = 0"

fun gm_rank :: "gm_pc \<Rightarrow> nat" where
  "gm_rank Gm_create_producer = 5"
| "gm_rank Gm_create_consumer = 4"
| "gm_rank Gm_join_producer = 3"
| "gm_rank Gm_join_consumer = 2"
| "gm_rank Gm_assert = 1"
| "gm_rank (Gm_done r) = 0"

definition spsc_core_rank :: "spsc_core \<Rightarrow> nat" where
  "spsc_core_rank s = gp_rank (gs_producer s) + gc_rank (gs_consumer s) + gm_rank (gs_main s)"

definition spsc_core_final :: "spsc_core \<Rightarrow> bool" where
  "spsc_core_final s \<longleftrightarrow> gs_main s = Gm_done True"

text \<open>In the mutex core: who is inside the critical section, and what is true there.\<close>

fun xp_inside :: "xp_pc \<Rightarrow> bool" where
  "xp_inside Xp_payload = True"
| "xp_inside Xp_published = True"
| "xp_inside Xp_unlock = True"
| "xp_inside _ = False"

fun xc_inside :: "xc_pc \<Rightarrow> bool" where
  "xc_inside Xc_test = True"
| "xc_inside Xc_copy = True"
| "xc_inside (Xc_unlock found) = True"
| "xc_inside _ = False"

fun xp_ok :: "c_int \<Rightarrow> c_int \<Rightarrow> xp_pc \<Rightarrow> bool" where
  "xp_ok pub payload Xp_published \<longleftrightarrow> pub = 0 \<and> payload = 73"
| "xp_ok pub payload Xp_unlock \<longleftrightarrow> pub = 1 \<and> payload = 73"
| "xp_ok pub payload Xp_end \<longleftrightarrow> pub = 1 \<and> payload = 73"
| "xp_ok pub payload _ \<longleftrightarrow> pub = 0"

fun xc_ok :: "c_int \<Rightarrow> c_int \<Rightarrow> xc_pc \<Rightarrow> bool" where
  "xc_ok pub seen Xc_copy \<longleftrightarrow> pub = 1"
| "xc_ok pub seen (Xc_unlock found) \<longleftrightarrow> found \<longrightarrow> seen = 73"
| "xc_ok pub seen Xc_end \<longleftrightarrow> seen = 73"
| "xc_ok pub seen _ \<longleftrightarrow> True"

text \<open>The threads that exist, and those that have ended, by the progress of \<open>main\<close>.\<close>

fun xm_ok :: "xp_pc \<Rightarrow> (nat \<Rightarrow> xc_pc) \<Rightarrow> xm_pc \<Rightarrow> bool" where
  "xm_ok p c (Xm_create n) \<longleftrightarrow> n \<le> consumer_count \<and> (p = Xp_none \<longleftrightarrow> n = 0) \<and> (\<forall>i < consumer_count. c i = Xc_none \<longleftrightarrow> n \<le> Suc i)"
| "xm_ok p c (Xm_join n) \<longleftrightarrow> n \<le> consumer_count \<and> p \<noteq> Xp_none \<and> (0 < n \<longrightarrow> p = Xp_end) \<and>
     (\<forall>i < consumer_count. c i \<noteq> Xc_none \<and> (Suc i < n \<longrightarrow> c i = Xc_end))"
| "xm_ok p c Xm_assert \<longleftrightarrow> p = Xp_end \<and> (\<forall>i < consumer_count. c i = Xc_end)"
| "xm_ok p c (Xm_done r) \<longleftrightarrow> p = Xp_end \<and> (\<forall>i < consumer_count. c i = Xc_end) \<and> r"

definition mutex_core_inv :: "mutex_core \<Rightarrow> bool" where
  "mutex_core_inv s \<longleftrightarrow>
     (xp_inside (xs_producer s) \<longleftrightarrow> xs_owner s = Some 0) \<and>
     (\<forall>i < consumer_count. xc_inside (xs_consumer s i) \<longleftrightarrow> xs_owner s = Some (Suc i)) \<and>
     (\<forall>t. xs_owner s = Some t \<longrightarrow> t \<le> consumer_count) \<and>
     xp_ok (xs_published s) (xs_payload s) (xs_producer s) \<and>
     (\<forall>i < consumer_count. xc_ok (xs_published s) (xs_observed s i) (xs_consumer s i)) \<and>
     xm_ok (xs_producer s) (xs_consumer s) (xs_main s)"

fun xp_rank :: "xp_pc \<Rightarrow> nat" where
  "xp_rank Xp_none = 5"
| "xp_rank Xp_lock = 4"
| "xp_rank Xp_payload = 3"
| "xp_rank Xp_published = 2"
| "xp_rank Xp_unlock = 1"
| "xp_rank Xp_end = 0"

fun xc_rank :: "bool \<Rightarrow> xc_pc \<Rightarrow> nat" where
  "xc_rank pub Xc_none = 0"
| "xc_rank pub (Xc_unlock found) = (if found \<or> \<not> pub then 1 else 6)"
| "xc_rank pub Xc_lock = (if pub then 5 else 0)"
| "xc_rank pub Xc_test = (if pub then 4 else 2)"
| "xc_rank pub Xc_copy = 3"
| "xc_rank pub Xc_end = 0"

fun xm_rank :: "xm_pc \<Rightarrow> nat" where
  "xm_rank (Xm_create n) = 8 - n"
| "xm_rank (Xm_join n) = 4 - n"
| "xm_rank Xm_assert = 1"
| "xm_rank (Xm_done r) = 0"

text \<open>While nothing is published a consumer only has to give the mutex back.\<close>

definition mutex_core_rank :: "mutex_core \<Rightarrow> nat" where
  "mutex_core_rank s = 20 * xp_rank (xs_producer s) + 20 * xm_rank (xs_main s) +
     (\<Sum>i < consumer_count. xc_rank (xs_published s \<noteq> 0) (xs_consumer s i))"

definition mutex_core_final :: "mutex_core \<Rightarrow> bool" where
  "mutex_core_final s \<longleftrightarrow> xs_main s = Xm_done True"

section \<open>The SPSC core\<close>

lemma gc_ok_frame [simp]:
  "gc_ok (s\<lparr>gs_producer := a\<rparr>) pc = gc_ok s pc" "gc_ok (s\<lparr>gs_slots := b\<rparr>) pc = gc_ok s pc"
  "gc_ok (s\<lparr>gs_head := c\<rparr>) pc = gc_ok s pc" "gc_ok (s\<lparr>gs_tail_view := d\<rparr>) pc = gc_ok s pc"
  "gc_ok (s\<lparr>gs_main := e\<rparr>) pc = gc_ok s pc" "gc_ok (s\<lparr>gs_consumer := f\<rparr>) pc = gc_ok s pc"
  by (cases pc; simp)+

lemma gp_ok_frame [simp]:
  "gp_ok (s\<lparr>gs_consumer := f\<rparr>) pc = gp_ok s pc" "gp_ok (s\<lparr>gs_tail := c\<rparr>) pc = gp_ok s pc"
  "gp_ok (s\<lparr>gs_head_view := d\<rparr>) pc = gp_ok s pc" "gp_ok (s\<lparr>gs_tail_view := d\<rparr>) pc = gp_ok s pc"
  "gp_ok (s\<lparr>gs_consumed := x\<rparr>) pc = gp_ok s pc" "gp_ok (s\<lparr>gs_main := e\<rparr>) pc = gp_ok s pc"
  "gp_ok (s\<lparr>gs_producer := a\<rparr>) pc = gp_ok s pc"
  by (cases pc; simp)+

lemma gm_ok_frame [simp]:
  "gm_ok (s\<lparr>gs_slots := b\<rparr>) m = gm_ok s m" "gm_ok (s\<lparr>gs_head := c\<rparr>) m = gm_ok s m"
  "gm_ok (s\<lparr>gs_tail := c\<rparr>) m = gm_ok s m" "gm_ok (s\<lparr>gs_head_view := d\<rparr>) m = gm_ok s m"
  "gm_ok (s\<lparr>gs_tail_view := d\<rparr>) m = gm_ok s m" "gm_ok (s\<lparr>gs_consumed := x\<rparr>) m = gm_ok s m"
  "gm_ok (s\<lparr>gs_main := e\<rparr>) m = gm_ok s m"
  by (cases m; simp)+

text \<open>A thread that is neither created nor ended by its step is in the same phase for \<open>main\<close>.\<close>

lemma gm_ok_producer:
  "gm_ok s m \<Longrightarrow> gs_producer s \<notin> {Gp_none, Gp_end} \<Longrightarrow> pc \<noteq> Gp_none \<Longrightarrow> gm_ok (s\<lparr>gs_producer := pc\<rparr>) m"
  by (cases m) auto

lemma gm_ok_consumer:
  "gm_ok s m \<Longrightarrow> gs_consumer s \<notin> {Gc_none, Gc_end} \<Longrightarrow> pc \<noteq> Gc_none \<Longrightarrow> gm_ok (s\<lparr>gs_consumer := pc\<rparr>) m"
  by (cases m) auto

lemma core_tail: "gc_ok s pc \<Longrightarrow> gs_tail s = [0] \<or> gs_tail s = [0, 1]"
  by (cases pc) (auto split: if_splits)

lemma core_head: "gp_ok s pc \<Longrightarrow> gs_head s = [0] \<or> gs_head s = [0, 1] \<and> gs_slots s ! 0 = 42"
  by (cases pc) auto

lemma core_produce_inv: "core_produce s t \<Longrightarrow> spsc_core_inv s \<Longrightarrow> spsc_core_inv t"
proof (induction rule: core_produce.induct)
  case (gp_check s position ts tail)
  then have "tail = 0 \<or> tail = 1"
    using core_tail [of s "gs_consumer s"] by (auto simp: spsc_core_inv_def at_load_def less_Suc_eq)
  then show ?case
    using gp_check by (auto simp: spsc_core_inv_def core_capacity_def at_load_def intro: gm_ok_producer)
qed (auto simp: spsc_core_inv_def core_capacity_def intro: gm_ok_producer)

lemma core_consume_inv: "core_consume s t \<Longrightarrow> spsc_core_inv s \<Longrightarrow> spsc_core_inv t"
proof (induction rule: core_consume.induct)
  case (gc_check s position ts head)
  then show ?case
    using core_head [of s "gs_producer s"]
    by (auto simp: spsc_core_inv_def at_load_def less_Suc_eq intro: gm_ok_consumer)
next
  case (gc_read s position)
  then show ?case
    using core_head [of s "gs_producer s"] by (auto simp: spsc_core_inv_def intro: gm_ok_consumer)
qed (auto simp: spsc_core_inv_def split: if_splits intro: gm_ok_consumer)

lemma core_main_inv: "core_main s t \<Longrightarrow> spsc_core_inv s \<Longrightarrow> spsc_core_inv t"
  by (induction rule: core_main.induct) (auto simp: spsc_core_inv_def)

lemma core_produce_enabled:
  assumes inv: "spsc_core_inv s" and pc: "gs_producer s \<noteq> Gp_none" "gs_producer s \<noteq> Gp_end"
  shows "\<exists>t. core_produce s t \<and> spsc_core_rank t < spsc_core_rank s"
proof -
  have go: ?thesis if "core_produce s t" "gp_rank (gs_producer t) < gp_rank (gs_producer s)" "gs_consumer t = gs_consumer s"
      "gs_main t = gs_main s" for t
    using that by (intro exI [of _ t]) (simp add: spsc_core_rank_def)
  show ?thesis
  proof (cases "gs_producer s")
    case Gp_load
    show ?thesis by (rule go [OF gp_load [OF Gp_load]]) (simp_all add: Gp_load)
  next
    case (Gp_check position)
    have "at_load (gs_tail s) (gs_tail_view s) (gs_tail_view s) (gs_tail s ! gs_tail_view s)"
      using inv by (simp add: spsc_core_inv_def at_load_def)
    then show ?thesis by (rule go [OF gp_check [OF Gp_check]]) (simp_all add: Gp_check)
  next
    case (Gp_write position)
    show ?thesis by (rule go [OF gp_write [OF Gp_write]]) (simp_all add: Gp_write)
  next
    case (Gp_publish position)
    show ?thesis by (rule go [OF gp_publish [OF Gp_publish]]) (simp_all add: Gp_publish)
  next
    case (Gp_return r)
    show ?thesis by (rule go [OF gp_return [OF Gp_return]]) (simp_all add: Gp_return)
  qed (use inv pc in \<open>auto simp: spsc_core_inv_def\<close>)
qed

text \<open>Once the value is published a consumer that loads the newest \<open>head\<close> finds it.\<close>

lemma core_consume_enabled:
  assumes inv: "spsc_core_inv s" and pc: "gs_consumer s \<noteq> Gc_none" "gs_consumer s \<noteq> Gc_end" and pub: "gs_producer s = Gp_end"
  shows "\<exists>t. core_consume s t \<and> spsc_core_rank t < spsc_core_rank s"
proof -
  have go: ?thesis if "core_consume s t" "gc_rank (gs_consumer t) < gc_rank (gs_consumer s)" "gs_producer t = gs_producer s"
      "gs_main t = gs_main s" for t
    using that by (intro exI [of _ t]) (simp add: spsc_core_rank_def)
  show ?thesis
  proof (cases "gs_consumer s")
    case Gc_load
    show ?thesis by (rule go [OF gc_load [OF Gc_load]]) (simp_all add: Gc_load)
  next
    case (Gc_check position)
    have ld: "at_load (gs_head s) (gs_head_view s) 1 1" and "position \<noteq> 1"
      using inv pub Gc_check by (auto simp: spsc_core_inv_def at_load_def)
    then show ?thesis by (intro go [OF gc_check [OF Gc_check ld]]) (simp_all add: Gc_check)
  next
    case (Gc_read position)
    show ?thesis by (rule go [OF gc_read [OF Gc_read]]) (simp_all add: Gc_read)
  next
    case (Gc_release position)
    show ?thesis by (rule go [OF gc_release [OF Gc_release]]) (simp_all add: Gc_release)
  next
    case (Gc_return r)
    show ?thesis by (rule go [OF gc_return [OF Gc_return]]) (simp_all add: Gc_return)
  qed (use pc in auto)
qed

lemma spsc_core_progress:
  assumes inv: "spsc_core_inv s" and run: "\<not> spsc_core_final s"
  shows "\<exists>t. spsc_core_step s t \<and> spsc_core_rank t < spsc_core_rank s"
proof -
  have go: ?thesis if "core_main s t" "spsc_core_rank t < spsc_core_rank s" for t
    using that by (auto simp: spsc_core_step_def)
  have I: "gm_ok s (gs_main s)" using inv by (simp add: spsc_core_inv_def)
  show ?thesis
  proof (cases "gs_main s")
    case Gm_create_producer
    show ?thesis
      by (rule go [OF gm_create_producer [OF Gm_create_producer]]) (use I Gm_create_producer in \<open>simp add: spsc_core_rank_def\<close>)
  next
    case Gm_create_consumer
    show ?thesis
      by (rule go [OF gm_create_consumer [OF Gm_create_consumer]]) (use I Gm_create_consumer in \<open>simp add: spsc_core_rank_def\<close>)
  next
    case Gm_join_producer
    show ?thesis
    proof (cases "gs_producer s = Gp_end")
      case True
      show ?thesis
        by (rule go [OF gm_join_producer [OF Gm_join_producer True]]) (simp add: spsc_core_rank_def Gm_join_producer)
    qed (use core_produce_enabled [OF inv] I Gm_join_producer in \<open>auto simp: spsc_core_step_def\<close>)
  next
    case Gm_join_consumer
    show ?thesis
    proof (cases "gs_consumer s = Gc_end")
      case True
      show ?thesis
        by (rule go [OF gm_join_consumer [OF Gm_join_consumer True]]) (simp add: spsc_core_rank_def Gm_join_consumer)
    qed (use core_consume_enabled [OF inv] I Gm_join_consumer in \<open>auto simp: spsc_core_step_def\<close>)
  next
    case Gm_assert
    show ?thesis by (rule go [OF gm_assert [OF Gm_assert]]) (simp add: spsc_core_rank_def Gm_assert)
  next
    case (Gm_done r)
    then show ?thesis using I run by (simp add: spsc_core_final_def)
  qed
qed

interpretation spsc_core_sys: finishing_system spsc_core_init spsc_core_step spsc_core_inv spsc_core_rank spsc_core_final
proof
  show "spsc_core_inv s" if "spsc_core_init s" for s
    using that by (simp add: spsc_core_init_def spsc_core_inv_def core_capacity_def)
  show "spsc_core_inv t" if "spsc_core_inv s" "spsc_core_step s t" for s t
    using that core_produce_inv core_consume_inv core_main_inv by (auto simp: spsc_core_step_def)
qed (rule spsc_core_progress)

section \<open>The mutex core\<close>

lemma xm_ok_producer: "xm_ok p c m \<Longrightarrow> p \<notin> {Xp_none, Xp_end} \<Longrightarrow> p' \<noteq> Xp_none \<Longrightarrow> xm_ok p' c m"
  by (cases m) auto

lemma xm_ok_consumer: "xm_ok p c m \<Longrightarrow> c i \<notin> {Xc_none, Xc_end} \<Longrightarrow> pc \<noteq> Xc_none \<Longrightarrow> xm_ok p (c(i := pc)) m"
  by (cases m) auto

lemma xc_ok_published: "xc_ok pub seen pc \<Longrightarrow> xc_ok 1 seen pc"
  by (cases pc) auto

lemma mutex_core_invD:
  assumes "mutex_core_inv s"
  shows "xp_inside (xs_producer s) \<longleftrightarrow> xs_owner s = Some 0"
    "i < consumer_count \<Longrightarrow> xc_inside (xs_consumer s i) \<longleftrightarrow> xs_owner s = Some (Suc i)"
    "xs_owner s = Some t \<Longrightarrow> t \<le> consumer_count"
    "xp_ok (xs_published s) (xs_payload s) (xs_producer s)"
    "i < consumer_count \<Longrightarrow> xc_ok (xs_published s) (xs_observed s i) (xs_consumer s i)"
    "xm_ok (xs_producer s) (xs_consumer s) (xs_main s)"
  using assms by (simp_all add: mutex_core_inv_def)

lemma mutex_publish_inv:
  assumes "mutex_publish s t" "mutex_core_inv s"
  shows "mutex_core_inv t"
  using assms(1)
proof cases
  case xp_lock
  then show ?thesis using mutex_core_invD [OF assms(2)] xm_ok_producer [of Xp_lock] by (auto simp: mutex_core_inv_def)
next
  case xp_payload
  then show ?thesis using mutex_core_invD [OF assms(2)] xm_ok_producer [of Xp_payload] by (auto simp: mutex_core_inv_def)
next
  case xp_published
  have "xc_ok 1 (xs_observed s i) (xs_consumer s i)" if "i < consumer_count" for i
    by (rule xc_ok_published [OF mutex_core_invD(5) [OF assms(2) that]])
  then show ?thesis
    using mutex_core_invD [OF assms(2)] xm_ok_producer [of Xp_published] xp_published by (auto simp: mutex_core_inv_def)
next
  case xp_unlock
  then show ?thesis using mutex_core_invD [OF assms(2)] xm_ok_producer [of Xp_unlock] by (auto simp: mutex_core_inv_def)
qed

lemma mutex_consume_inv:
  assumes "mutex_consume i s t" "mutex_core_inv s" "i < consumer_count"
  shows "mutex_core_inv t"
proof -
  note I = mutex_core_invD [OF assms(2)]
  have moves: "xm_ok (xs_producer s) ((xs_consumer s)(i := pc)) (xs_main s)"
    if "xs_consumer s i \<notin> {Xc_none, Xc_end}" "pc \<noteq> Xc_none" for pc
    by (rule xm_ok_consumer [OF I(6) that])
  have alone: "xc_inside (xs_consumer s j) \<longleftrightarrow> j = i" "\<not> xp_inside (xs_producer s)"
    if "xc_inside (xs_consumer s i)" "j < consumer_count" for j
    using I(1) I(2) [OF that(2)] I(2) [OF assms(3)] that(1) by auto
  have payload: "xs_payload s = 73" if "xs_published s \<noteq> 0" using I(4) that by (cases "xs_producer s") auto
  from assms(1) show ?thesis
  proof cases
    case xc_lock
    then show ?thesis using I assms(3) moves by (auto simp: mutex_core_inv_def)
  next
    case xc_test
    have "xs_published s = 0 \<or> xs_published s = 1" using I(4) by (cases "xs_producer s") auto
    then show ?thesis using I assms(3) I(2) [OF assms(3)] moves xc_test by (auto simp: mutex_core_inv_def)
  next
    case xc_copy
    then show ?thesis using I assms(3) I(2,5) [OF assms(3)] moves payload by (auto simp: mutex_core_inv_def)
  next
    case (xc_unlock found)
    then show ?thesis using I assms(3) I(2,5) [OF assms(3)] moves alone by (auto simp: mutex_core_inv_def)
  qed
qed

lemma mutex_main_inv:
  assumes "mutex_main s t" "mutex_core_inv s"
  shows "mutex_core_inv t"
proof -
  note I = mutex_core_invD [OF assms(2)]
  from assms(1) show ?thesis
  proof cases
    case xm_create_producer
    then show ?thesis using I by (auto simp: mutex_core_inv_def consumer_count_def)
  next
    case (xm_create_consumer i)
    then have none: "xs_consumer s i = Xc_none" using I(6) by simp
    then have "xs_owner s \<noteq> Some (Suc i)" using I(2) [OF xm_create_consumer(3)] by simp
    then show ?thesis using I xm_create_consumer none by (auto simp: mutex_core_inv_def le_Suc_eq less_Suc_eq_le)
  next
    case xm_join_producer
    then show ?thesis using I by (auto simp: mutex_core_inv_def consumer_count_def)
  next
    case (xm_join_consumer i)
    have "xs_consumer s j = Xc_end" if "j < consumer_count" "j \<le> i" for j
      using I(6) xm_join_consumer(2,3) that by (cases "j = i") auto
    then show ?thesis using I xm_join_consumer by (auto simp: mutex_core_inv_def)
  next
    case xm_assert
    have "xs_observed s i = 73" if "i < consumer_count" for i using I(5) [OF that] I(6) xm_assert(2) that by simp
    then show ?thesis using I xm_assert by (auto simp: mutex_core_inv_def)
  qed
qed

lemma mutex_rank_consumer:
  assumes "i < consumer_count" "xs_producer t = xs_producer s" "xs_main t = xs_main s" "xs_published t = xs_published s"
    and "\<And>j. j \<noteq> i \<Longrightarrow> xs_consumer t j = xs_consumer s j"
    and "xc_rank (xs_published s \<noteq> 0) (xs_consumer t i) < xc_rank (xs_published s \<noteq> 0) (xs_consumer s i)"
  shows "mutex_core_rank t < mutex_core_rank s"
proof -
  have "(\<Sum>j < consumer_count. xc_rank (xs_published s \<noteq> 0) (xs_consumer t j)) < (\<Sum>j < consumer_count. xc_rank (xs_published s \<noteq> 0) (xs_consumer s j))"
    using assms(1,5,6) by (intro sum_strict_mono_ex1) (auto, metis eq_refl less_imp_le)
  then show ?thesis by (simp add: mutex_core_rank_def assms(2-4))
qed

lemma xc_rank_bound: "(\<Sum>i < consumer_count. xc_rank pub (f i)) < 20"
proof -
  have "xc_rank pub pc \<le> 6" for pc by (cases pc) auto
  then have "(\<Sum>i < consumer_count. xc_rank pub (f i)) \<le> (\<Sum>i < consumer_count. 6)" by (intro sum_mono)
  then show ?thesis by (simp add: consumer_count_def)
qed

text \<open>A consumer that owns the mutex can go on; so can one that waits for a free mutex when the payload is there.\<close>

lemma mutex_consume_enabled:
  assumes inv: "mutex_core_inv s" and i: "i < consumer_count"
    and pc: "xc_inside (xs_consumer s i) \<or> xs_consumer s i = Xc_lock \<and> xs_owner s = None \<and> xs_published s \<noteq> 0"
  shows "\<exists>t. mutex_core_step s t \<and> mutex_core_rank t < mutex_core_rank s"
proof -
  have go: ?thesis if "mutex_consume i s t" "mutex_core_rank t < mutex_core_rank s" for t
    using that i by (auto simp: mutex_core_step_def)
  note less = mutex_rank_consumer [OF i, of _ s]
  show ?thesis
  proof (cases "xs_consumer s i")
    case Xc_lock
    then have pub: "xs_owner s = None" "xs_published s \<noteq> 0" using pc by auto
    show ?thesis by (rule go [OF xc_lock [OF Xc_lock pub(1)]], rule less) (use Xc_lock pub in simp_all)
  next
    case Xc_test
    show ?thesis by (rule go [OF xc_test [OF Xc_test]], rule less) (use Xc_test in simp_all)
  next
    case Xc_copy
    show ?thesis by (rule go [OF xc_copy [OF Xc_copy]], rule less) (use Xc_copy in simp_all)
  next
    case (Xc_unlock found)
    show ?thesis by (rule go [OF xc_unlock [OF Xc_unlock]], rule less) (use Xc_unlock in simp_all)
  qed (use pc in auto)
qed

lemma mutex_rank_producer:
  assumes "xp_rank (xs_producer t) < xp_rank (xs_producer s)" "xs_main t = xs_main s"
  shows "mutex_core_rank t < mutex_core_rank s"
  using assms xc_rank_bound [of "xs_published t \<noteq> 0" "xs_consumer t"] by (simp add: mutex_core_rank_def)

lemma mutex_rank_main:
  assumes "xm_rank (xs_main t) < xm_rank (xs_main s)" "xp_rank (xs_producer t) \<le> xp_rank (xs_producer s)"
  shows "mutex_core_rank t < mutex_core_rank s"
  using assms xc_rank_bound [of "xs_published t \<noteq> 0" "xs_consumer t"] by (simp add: mutex_core_rank_def)

lemma mutex_publish_enabled:
  assumes inv: "mutex_core_inv s" and pc: "xs_producer s \<noteq> Xp_none" "xs_producer s \<noteq> Xp_end"
  shows "\<exists>t. mutex_core_step s t \<and> mutex_core_rank t < mutex_core_rank s"
proof -
  note I = mutex_core_invD [OF inv]
  have go: ?thesis if "mutex_publish s t" "mutex_core_rank t < mutex_core_rank s" for t
    using that by (auto simp: mutex_core_step_def)
  show ?thesis
  proof (cases "xs_producer s")
    case Xp_lock
    consider "xs_owner s = None" | i where "xs_owner s = Some (Suc i)" "i < consumer_count"
      using I(1,3) Xp_lock by (cases "xs_owner s"; cases "the (xs_owner s)") (auto simp: Suc_le_eq)
    then show ?thesis
    proof cases
      case 1
      show ?thesis by (rule go [OF xp_lock [OF Xp_lock 1]], rule mutex_rank_producer) (simp_all add: Xp_lock)
    next
      case (2 i)
      then show ?thesis using I(2) [OF 2(2)] by (intro mutex_consume_enabled [OF inv 2(2)]) simp
    qed
  next
    case Xp_payload
    show ?thesis by (rule go [OF xp_payload [OF Xp_payload]], rule mutex_rank_producer) (simp_all add: Xp_payload)
  next
    case Xp_published
    show ?thesis by (rule go [OF xp_published [OF Xp_published]], rule mutex_rank_producer) (simp_all add: Xp_published)
  next
    case Xp_unlock
    show ?thesis by (rule go [OF xp_unlock [OF Xp_unlock]], rule mutex_rank_producer) (simp_all add: Xp_unlock)
  qed (use pc in auto)
qed

lemma mutex_core_progress:
  assumes inv: "mutex_core_inv s" and run: "\<not> mutex_core_final s"
  shows "\<exists>t. mutex_core_step s t \<and> mutex_core_rank t < mutex_core_rank s"
proof -
  note I = mutex_core_invD [OF inv]
  have go: ?thesis if "mutex_main s t" "xm_rank (xs_main t) < xm_rank (xs_main s)" "xp_rank (xs_producer t) \<le> xp_rank (xs_producer s)" for t
    using that mutex_rank_main by (auto simp: mutex_core_step_def)
  show ?thesis
  proof (cases "xs_main s")
    case (Xm_create n)
    show ?thesis
    proof (cases n)
      case 0
      have pc: "xs_main s = Xm_create 0" "xs_producer s = Xp_none" using Xm_create 0 I(6) by simp_all
      show ?thesis by (rule go [OF xm_create_producer [OF pc(1)]]) (simp_all add: pc)
    next
      case (Suc i)
      have pc: "xs_main s = Xm_create (Suc i)" "i < consumer_count" using Xm_create Suc I(6) by (simp_all add: Suc_le_eq)
      then show ?thesis by (intro go [OF xm_create_consumer [OF pc]]) (auto simp: consumer_count_def)
    qed
  next
    case (Xm_join n)
    show ?thesis
    proof (cases n)
      case 0
      have pc: "xs_main s = Xm_join 0" "xs_producer s \<noteq> Xp_none" using Xm_join 0 I(6) by simp_all
      show ?thesis
      proof (cases "xs_producer s = Xp_end")
        case True
        show ?thesis by (rule go [OF xm_join_producer [OF pc(1) True]]) (simp_all add: pc)
      qed (use mutex_publish_enabled [OF inv pc(2)] in blast)
    next
      case (Suc i)
      have pc: "xs_main s = Xm_join (Suc i)" "i < consumer_count" "xs_producer s = Xp_end" "xs_consumer s i \<noteq> Xc_none"
        using Xm_join Suc I(6) by (simp_all add: Suc_le_eq)
      have pub: "xs_published s \<noteq> 0" "\<not> xp_inside (xs_producer s)" using I(4) pc(3) by simp_all
      show ?thesis
      proof (cases "xs_consumer s i = Xc_end")
        case True
        show ?thesis using pc(2) by (intro go [OF xm_join_consumer [OF pc(1) True]]) (auto simp: pc consumer_count_def)
      next
        case False
        consider "xs_owner s = None" | j where "xs_owner s = Some (Suc j)" "j < consumer_count"
          using I(1,3) pub(2) by (cases "xs_owner s"; cases "the (xs_owner s)") (auto simp: Suc_le_eq)
        then show ?thesis
        proof cases
          case 1
          then have "xs_consumer s i = Xc_lock" using I(2) [OF pc(2)] pc(4) False by (cases "xs_consumer s i") auto
          then show ?thesis using 1 pub by (intro mutex_consume_enabled [OF inv pc(2)]) simp
        next
          case (2 j)
          then show ?thesis using I(2) [OF 2(2)] by (intro mutex_consume_enabled [OF inv 2(2)]) simp
        qed
      qed
    qed
  next
    case Xm_assert
    show ?thesis by (rule go [OF xm_assert [OF Xm_assert]]) (simp_all add: Xm_assert)
  next
    case (Xm_done r)
    then show ?thesis using I(6) run by (simp add: mutex_core_final_def)
  qed
qed

interpretation mutex_core_sys: finishing_system mutex_core_init mutex_core_step mutex_core_inv mutex_core_rank mutex_core_final
proof
  show "mutex_core_inv s" if "mutex_core_init s" for s
    using that by (simp add: mutex_core_init_def mutex_core_inv_def consumer_count_def)
  show "mutex_core_inv t" if "mutex_core_inv s" "mutex_core_step s t" for s t
    using that mutex_publish_inv mutex_consume_inv mutex_main_inv by (auto simp: mutex_core_step_def)
qed (rule mutex_core_progress)

section \<open>Properties\<close>

text \<open>
  C36: The SPSC harness \<open>spsc_core.c\<close>: in every interleaving, with every value its acquire loads may
  return, the assertion in \<open>produce\<close> never fails, the slot is never written and read at the same time, the final assertion
  \<open>consumed == 42\<close> holds, and from every reachable state the program can be continued to its end.
\<close>

theorem genmc_spsc_core:
  assumes "reachable spsc_core_init spsc_core_step s"
  shows "gs_producer s \<noteq> Gp_abort \<and> gs_main s \<noteq> Gm_done False \<and>
    (\<forall>p q. gs_producer s = Gp_write p \<longrightarrow> gs_consumer s \<noteq> Gc_read q) \<and>
    (\<exists>t. spsc_core_step\<^sup>*\<^sup>* s t \<and> gs_main t = Gm_done True)"
proof -
  note I = spsc_core_sys.reachable_inv [OF assms]
  have "gs_producer s \<noteq> Gp_abort" "gs_main s \<noteq> Gm_done False" using I by (auto simp: spsc_core_inv_def)
  moreover have "gs_consumer s \<noteq> Gc_read q" if "gs_producer s = Gp_write p" for p q
    using I that by (auto simp: spsc_core_inv_def)
  ultimately show ?thesis using spsc_core_sys.can_finish [OF I] by (auto simp: spsc_core_final_def)
qed

theorem genmc_spsc_core_witness:
  "\<exists>s t. reachable spsc_core_init spsc_core_step s \<and> spsc_core_step\<^sup>*\<^sup>* s t \<and> gs_main t = Gm_done True \<and> gs_consumer s = Gc_load"
proof -
  obtain s0 where s0: "spsc_core_init s0" by (simp add: spsc_core_init_def)
  have pc: "gs_main s0 = Gm_create_producer" using s0 by (simp add: spsc_core_init_def)
  let ?s1 = "s0\<lparr>gs_producer := Gp_load, gs_main := Gm_create_consumer\<rparr>"
  let ?s2 = "?s1\<lparr>gs_consumer := Gc_load, gs_main := Gm_join_producer\<rparr>"
  have "spsc_core_step s0 ?s1" using gm_create_producer [OF pc] by (simp add: spsc_core_step_def)
  moreover have "spsc_core_step ?s1 ?s2" using gm_create_consumer [of ?s1] by (simp add: spsc_core_step_def)
  ultimately have reach: "reachable spsc_core_init spsc_core_step ?s2"
    using s0 by (meson reach_init reach_step)
  then show ?thesis using genmc_spsc_core [OF reach] by fastforce
qed

text \<open>
  C37: The mutex harness \<open>spmc_mutex_core.c\<close>: in every interleaving at most one thread is between lock and
  unlock, where alone the plain variables are accessed; both final assertions hold; and from every reachable state the
  program can be continued to its end.
\<close>

theorem genmc_mutex_core:
  assumes "reachable mutex_core_init mutex_core_step s"
  shows "(\<forall>i < consumer_count. xc_inside (xs_consumer s i) \<longrightarrow> \<not> xp_inside (xs_producer s) \<and>
      (\<forall>j < consumer_count. xc_inside (xs_consumer s j) \<longrightarrow> j = i)) \<and>
    xs_main s \<noteq> Xm_done False \<and> (\<exists>t. mutex_core_step\<^sup>*\<^sup>* s t \<and> xs_main t = Xm_done True)"
proof -
  note I = mutex_core_sys.reachable_inv [OF assms]
  note D = mutex_core_invD [OF I]
  show ?thesis
    using D(1,2) D(6) mutex_core_sys.can_finish [OF I] by (auto simp: mutex_core_final_def)
qed

theorem genmc_mutex_core_witness:
  "\<exists>s t. reachable mutex_core_init mutex_core_step s \<and> xs_producer s = Xp_lock \<and> mutex_core_step\<^sup>*\<^sup>* s t \<and> xs_main t = Xm_done True"
proof -
  obtain s0 where s0: "mutex_core_init s0" by (simp add: mutex_core_init_def)
  have pc: "xs_main s0 = Xm_create 0" using s0 by (simp add: mutex_core_init_def)
  let ?s1 = "s0\<lparr>xs_producer := Xp_lock, xs_main := Xm_create 1\<rparr>"
  have "mutex_core_step s0 ?s1" using xm_create_producer [OF pc] by (simp add: mutex_core_step_def)
  then have reach: "reachable mutex_core_init mutex_core_step ?s1" using s0 by (meson reach_init reach_step)
  then show ?thesis using genmc_mutex_core [OF reach] by fastforce
qed

end
