(* ===== verification/Bench_Support.thy ===== *)
theory Bench_Support
  imports Line64_Prelude "HOL-Library.Product_Lexorder"
begin

text \<open>
  The pure helpers of the benchmark program (\<open>benchmarks/benchmark_support.h\<close>): \<open>SequenceTracker\<close>, which
  remembers the sequences one consumer has seen as a list of ranges, \<open>count_unique_sequences\<close>, which merges
  the ranges of all consumers, and \<open>json_escape\<close>. The reference for the first two is a set of sequences;
  the reference for the third is a reader of JSON strings.
\<close>

section \<open>Definitions\<close>

subsection \<open>Sequence ranges\<close>

record sequence_range =
  sr_first :: u64
  sr_last :: u64

type_synonym sequence_tracker = "sequence_range list"

text \<open>\<open>SequenceTracker::record\<close>; the largest 64-bit number is \<open>- 1\<close>.\<close>

definition tracker_record :: "sequence_tracker \<Rightarrow> u64 \<Rightarrow> bool \<times> sequence_tracker" where
  "tracker_record ranges sequence =
     (if sequence = 0 then (False, ranges)
      else if ranges = [] \<or> sr_last (last ranges) \<noteq> - 1 \<and> sequence > sr_last (last ranges) + 1
      then (True, ranges @ [\<lparr>sr_first = sequence, sr_last = sequence\<rparr>])
      else if sr_last (last ranges) \<noteq> - 1 \<and> sequence = sr_last (last ranges) + 1
      then (True, butlast ranges @ [(last ranges)\<lparr>sr_last := sequence\<rparr>])
      else (False, ranges))"

text \<open>The loop of \<open>count_unique_sequences\<close> over the sorted ranges, with its final sum.\<close>

fun merge_count :: "u64 \<Rightarrow> sequence_range \<Rightarrow> sequence_range list \<Rightarrow> u64" where
  "merge_count count current [] = count + sr_last current - sr_first current + 1"
| "merge_count count current (r # ranges) =
     (if sr_last current \<noteq> - 1 \<and> sr_first r > sr_last current + 1
      then merge_count (count + (sr_last current - sr_first current + 1)) r ranges
      else if sr_last r > sr_last current
      then merge_count count (current\<lparr>sr_last := sr_last r\<rparr>) ranges
      else merge_count count current ranges)"

text \<open>\<open>std::sort\<close> by first and then last number: the order is total on the fields of a range.\<close>

definition count_unique_sequences :: "sequence_tracker list \<Rightarrow> u64" where
  "count_unique_sequences trackers =
     (case sort_key (\<lambda>r. (sr_first r, sr_last r)) (concat trackers) of
        [] \<Rightarrow> 0
      | current # ranges \<Rightarrow> merge_count 0 current ranges)"

subsection \<open>JSON strings\<close>

definition hex_digit :: "nat \<Rightarrow> char" where
  "hex_digit n = char_of (if n < 10 then 48 + n else 87 + n)"

fun hex :: "nat \<Rightarrow> string" where
  "hex n = (if n < 16 then [hex_digit n] else hex (n div 16) @ [hex_digit (n mod 16)])"

text \<open>\<open>std::setw\<close> with \<open>std::setfill\<close>: the text is filled from the left.\<close>

definition set_width :: "nat \<Rightarrow> char \<Rightarrow> string \<Rightarrow> string" where
  "set_width w fill_char text = replicate (w - length text) fill_char @ text"

definition escape_char :: "char \<Rightarrow> string" where
  "escape_char c =
     (if c = CHR 0x22 then [CHR 0x5C, CHR 0x22]
      else if c = CHR 0x5C then [CHR 0x5C, CHR 0x5C]
      else if c = CHR 0x08 then [CHR 0x5C, CHR ''b'']
      else if c = CHR 0x0C then [CHR 0x5C, CHR ''f'']
      else if c = CHR 0x0A then [CHR 0x5C, CHR ''n'']
      else if c = CHR 0x0D then [CHR 0x5C, CHR ''r'']
      else if c = CHR 0x09 then [CHR 0x5C, CHR ''t'']
      else if (of_char c :: nat) < 0x20 then [CHR 0x5C, CHR ''u''] @ set_width 4 (CHR ''0'') (hex (of_char c))
      else [c])"

definition json_escape :: "string \<Rightarrow> string" where
  "json_escape value = concat (map escape_char value)"

subsection \<open>References\<close>

definition range_set :: "sequence_range \<Rightarrow> u64 set" where
  "range_set r = {sr_first r .. sr_last r}"

definition tracked :: "sequence_tracker \<Rightarrow> u64 set" where
  "tracked ranges = (\<Union>r \<in> set ranges. range_set r)"

text \<open>A run of \<open>record\<close> calls on a new tracker, and the calls that bring a new largest sequence.\<close>

definition tracker_run :: "u64 list \<Rightarrow> sequence_tracker" where
  "tracker_run calls = fold (\<lambda>sequence ranges. snd (tracker_record ranges sequence)) calls []"

fun records :: "u64 \<Rightarrow> u64 list \<Rightarrow> u64 list" where
  "records newest [] = []"
| "records newest (s # ss) = (if newest < s then s # records s ss else records newest ss)"

definition newest_tracked :: "sequence_tracker \<Rightarrow> u64" where
  "newest_tracked ranges = (if ranges = [] then 0 else sr_last (last ranges))"

definition tracker_ok :: "sequence_tracker \<Rightarrow> bool" where
  "tracker_ok ranges \<longleftrightarrow> (\<forall>r \<in> set ranges. 0 < sr_first r \<and> sr_first r \<le> sr_last r \<and> sr_last r \<le> newest_tracked ranges) \<and>
     sorted_wrt (\<lambda>r q. sr_last r < sr_first q) ranges"

text \<open>
  A reader for the rest of a JSON string after its opening quote (RFC 8259, for characters up to
  \<open>0xff\<close>): the value and the text after the closing quote.
\<close>

definition hex_value :: "char \<Rightarrow> nat option" where
  "hex_value c = (let n = of_char c in
     if 48 \<le> n \<and> n \<le> 57 then Some (n - 48) else if 97 \<le> n \<and> n \<le> 102 then Some (n - 87)
     else if 65 \<le> n \<and> n \<le> 70 then Some (n - 55) else None)"

definition simple_escapes :: "(char \<times> char) list" where
  "simple_escapes = [(CHR 0x22, CHR 0x22), (CHR 0x5C, CHR 0x5C), (CHR ''/'', CHR ''/''), (CHR ''b'', CHR 0x08),
     (CHR ''f'', CHR 0x0C), (CHR ''n'', CHR 0x0A), (CHR ''r'', CHR 0x0D), (CHR ''t'', CHR 0x09)]"

fun read_escape :: "string \<Rightarrow> (char \<times> string) option" where
  "read_escape [] = None"
| "read_escape (c # text) =
     (if c = CHR ''u'' then
        (case text of
           a # b # x # y # rest \<Rightarrow>
             (case (hex_value a, hex_value b, hex_value x, hex_value y) of
                (Some 0, Some 0, Some h, Some l) \<Rightarrow> Some (char_of (16 * h + l), rest)
              | _ \<Rightarrow> None)
         | _ \<Rightarrow> None)
      else map_option (\<lambda>v. (v, text)) (map_of simple_escapes c))"

lemma read_escape_shorter: "read_escape text = Some (c, rest) \<Longrightarrow> length rest < length text"
  by (cases "text") (auto split: if_splits list.splits option.splits nat.splits)

function json_string :: "string \<Rightarrow> (string \<times> string) option" where
  "json_string [] = None"
| "json_string (c # text) =
     (if c = CHR 0x22 then Some ([], text)
      else if (of_char c :: nat) < 0x20 then None
      else if c = CHR 0x5C then
        (case read_escape text of
           None \<Rightarrow> None
         | Some (v, rest) \<Rightarrow> map_option (\<lambda>(s, r). (v # s, r)) (json_string rest))
      else map_option (\<lambda>(s, r). (c # s, r)) (json_string text))"
  by pat_completeness auto

termination json_string
  by (relation "measure length") (auto dest: read_escape_shorter)

section \<open>Ranges\<close>

lemma card_range_set:
  assumes "sr_first r \<le> sr_last r"
  shows "card (range_set r) = unat (sr_last r) - unat (sr_first r) + 1"
proof -
  have "unat ` range_set r = {unat (sr_first r) .. unat (sr_last r)}"
  proof (intro equalityI subsetI)
    fix n
    assume n: "n \<in> {unat (sr_first r) .. unat (sr_last r)}"
    then have "unat (of_nat n :: u64) = n"
      using unat_less_2p64 [of "sr_last r"] by (intro unat_of_nat_64) (auto simp del: unat_less_2p64)
    then show "n \<in> unat ` range_set r"
      using n by (intro image_eqI [of _ _ "of_nat n"]) (auto simp: range_set_def word_le_nat_alt)
  qed (auto simp: range_set_def word_le_nat_alt)
  then have "card (range_set r) = card {unat (sr_first r) .. unat (sr_last r)}"
    by (metis card_image inj_on_def word_unat_eq_iff)
  then show ?thesis using assms by (simp add: word_le_nat_alt Suc_diff_le)
qed

lemma finite_range_set [simp]: "finite (range_set r)"
  by (rule finite)

lemma word_next:
  assumes "(a :: u64) \<noteq> - 1"
  shows "unat (a + 1) = unat a + 1" "b > a + 1 \<longleftrightarrow> unat b > unat a + 1" "b = a + 1 \<longleftrightarrow> unat b = unat a + 1"
proof -
  show *: "unat (a + 1) = unat a + 1"
    using assms by (metis Suc_eq_plus1 add.commute unatSuc add_eq_0_iff)
  show "b > a + 1 \<longleftrightarrow> unat b > unat a + 1" using * by (simp add: word_less_nat_alt)
  show "b = a + 1 \<longleftrightarrow> unat b = unat a + 1" using * by (metis word_unat_eq_iff)
qed

lemma word_max: "(b :: u64) \<le> - 1"
  by simp

subsection \<open>One tracker\<close>

lemma newest_above: "tracker_ok ranges \<Longrightarrow> s \<in> tracked ranges \<Longrightarrow> s \<le> newest_tracked ranges"
  by (fastforce simp: tracker_ok_def tracked_def range_set_def)

lemma newest_snoc [simp]: "newest_tracked (rs @ [r]) = sr_last r"
  by (simp add: newest_tracked_def)

lemma tracker_append:
  assumes "tracker_ok ranges" "newest_tracked ranges < s"
  shows "tracker_ok (ranges @ [\<lparr>sr_first = s, sr_last = s\<rparr>])"
proof -
  have "sr_last r < s" if "r \<in> set ranges" for r
    using assms that by (auto simp: tracker_ok_def intro: le_less_trans)
  moreover have "0 < s" using le_less_trans [OF _ assms(2), of 0] by simp
  ultimately show ?thesis using assms(1) by (auto simp: tracker_ok_def sorted_wrt_append less_imp_le)
qed

lemma tracker_extend:
  assumes "tracker_ok (rs @ [r])" "sr_last r < s"
  shows "tracker_ok (rs @ [r\<lparr>sr_last := s\<rparr>])"
  using assms by (auto simp: tracker_ok_def sorted_wrt_append)

lemma range_set_extend:
  assumes "sr_first r \<le> sr_last r" "sr_last r \<noteq> - 1"
  shows "range_set (r\<lparr>sr_last := sr_last r + 1\<rparr>) = insert (sr_last r + 1) (range_set r)"
  using assms word_next [OF assms(2)] by (auto simp: range_set_def word_le_nat_alt word_less_nat_alt word_unat_eq_iff)

lemma tracker_record_cases:
  fixes sequence :: u64
  defines "single \<equiv> [\<lparr>sr_first = sequence, sr_last = sequence\<rparr>]"
  obtains (old) "\<not> newest_tracked ranges < sequence" "tracker_record ranges sequence = (False, ranges)"
    | (gap) "newest_tracked ranges < sequence" "tracker_record ranges sequence = (True, ranges @ single)"
    | (adjacent) rs r where "newest_tracked ranges < sequence" "ranges = rs @ [r]" "sr_last r \<noteq> - 1" "sequence = sr_last r + 1"
        "tracker_record ranges sequence = (True, rs @ [r\<lparr>sr_last := sequence\<rparr>])"
proof (cases ranges rule: rev_cases)
  case Nil
  then show thesis
    using old gap by (cases "sequence = 0") (auto simp: newest_tracked_def tracker_record_def word_gt_0 single_def)
next
  case (snoc rs r)
  have new: "newest_tracked ranges = sr_last r" by (simp add: snoc)
  show thesis
  proof (cases "sr_last r = - 1")
    case True
    then have "\<not> newest_tracked ranges < sequence" using new word_max [of sequence] by (simp add: not_less)
    then show thesis using old True by (simp add: tracker_record_def snoc)
  next
    case False
    note n = word_next(2,3) [OF False, of sequence]
    consider "unat sequence > unat (sr_last r) + 1" | "unat sequence = unat (sr_last r) + 1" | "unat sequence \<le> unat (sr_last r)"
      by linarith
    then show thesis
    proof cases
      case 1
      then have "sequence > sr_last r + 1" "sr_last r < sequence" "sequence \<noteq> 0"
        using n by (auto simp: word_less_nat_alt)
      then show thesis using gap new False by (simp add: tracker_record_def snoc single_def)
    next
      case 2
      then have "sequence = sr_last r + 1" "sr_last r < sequence" "sequence \<noteq> 0"
        using n by (auto simp: word_less_nat_alt)
      then show thesis using adjacent [OF _ snoc False] new False by (simp add: tracker_record_def snoc)
    next
      case 3
      then have "\<not> sequence > sr_last r + 1" "sequence \<noteq> sr_last r + 1" "\<not> sr_last r < sequence"
        unfolding n by (auto simp: word_less_nat_alt)
      then show thesis using old new by (simp add: tracker_record_def snoc)
    qed
  qed
qed

lemma tracker_record_spec:
  assumes ok: "tracker_ok ranges"
  shows "case tracker_record ranges sequence of (new, ranges') \<Rightarrow>
    (new \<longleftrightarrow> newest_tracked ranges < sequence) \<and> tracker_ok ranges' \<and>
    tracked ranges' = (if new then insert sequence (tracked ranges) else tracked ranges) \<and>
    newest_tracked ranges' = (if new then sequence else newest_tracked ranges)"
proof (cases rule: tracker_record_cases [of ranges sequence])
  case gap
  then show ?thesis using tracker_append [OF ok] by (simp add: tracked_def range_set_def)
next
  case (adjacent rs r)
  have "sr_first r \<le> sr_last r" using ok adjacent(2) by (simp add: tracker_ok_def)
  then show ?thesis
    using adjacent tracker_extend [of rs r sequence] ok range_set_extend [of r] by (simp add: tracked_def)
qed (use ok in simp)

lemma tracker_fold:
  assumes "tracker_ok ranges"
  shows "tracker_ok (fold (\<lambda>sequence ranges. snd (tracker_record ranges sequence)) calls ranges) \<and>
    tracked (fold (\<lambda>sequence ranges. snd (tracker_record ranges sequence)) calls ranges) =
      tracked ranges \<union> set (records (newest_tracked ranges) calls)"
  using assms
proof (induction calls arbitrary: ranges)
  case (Cons s calls)
  then show ?case using tracker_record_spec [OF Cons.prems, of s] by (cases "tracker_record ranges s") auto
qed simp

lemma tracker_run_spec: "tracker_ok (tracker_run calls)" "tracked (tracker_run calls) = set (records 0 calls)"
  using tracker_fold [of "[]" calls] by (simp_all add: tracker_run_def tracker_ok_def tracked_def newest_tracked_def)

subsection \<open>All trackers\<close>

lemma unat_range_add:
  fixes count a b :: u64
  assumes "unat count < unat a" "a \<le> b"
  shows "unat (count + (b - a + 1)) = unat count + (unat b - unat a + 1)"
proof -
  have ab: "unat a \<le> unat b" using assms(2) by (simp add: word_le_nat_alt)
  have "unat (b - a) = unat b - unat a" using assms(2) by (rule unat_sub)
  then have "unat (b - a + 1) = unat b - unat a + 1"
    using assms(1) ab unat_less_2p64 [of b] by (simp add: unat_word_ariths del: unat_less_2p64)
  then show ?thesis
    using assms(1) ab unat_less_2p64 [of b] by (simp add: unat_word_ariths del: unat_less_2p64)
qed

lemma tracked_Cons [simp]: "tracked (r # ranges) = range_set r \<union> tracked ranges"
  by (simp add: tracked_def)

lemma tracked_after:
  assumes "sorted (map sr_first (r # ranges))" "s \<in> tracked (r # ranges)"
  shows "sr_first r \<le> s"
  using assms by (force simp: tracked_def range_set_def)

lemma no_gap:
  assumes "\<not> (sr_last current \<noteq> - 1 \<and> sr_first r > sr_last current + 1)"
  shows "unat (sr_first r) \<le> unat (sr_last current) + 1"
proof (cases "sr_last current = - 1")
  case True
  then show ?thesis using word_max [of "sr_first r"] by (simp add: word_le_nat_alt)
next
  case False
  then show ?thesis using assms word_next(2) [OF False, of "sr_first r"] by simp
qed

lemma merge_count_spec:
  assumes "sorted (map sr_first (current # ranges))" "\<forall>r \<in> set (current # ranges). sr_first r \<le> sr_last r"
    "unat count < unat (sr_first current)"
  shows "unat (merge_count count current ranges) = unat count + card (tracked (current # ranges))"
  using assms
proof (induction count current ranges rule: merge_count.induct)
  case (1 count current)
  have "unat (count + (sr_last current - sr_first current + 1)) = unat count + card (range_set current)"
    using unat_range_add [of count] card_range_set 1 by simp
  then show ?case by (simp add: tracked_def algebra_simps)
next
  case (2 count current r ranges)
  note IH = 2(1-3) and prem = 2(4-6)
  let ?gap = "sr_last current \<noteq> - 1 \<and> sr_first r > sr_last current + 1"
  have wf: "sr_first current \<le> sr_last current" "sr_first r \<le> sr_last r" "sr_first current \<le> sr_first r"
    using prem(1,2) by simp_all
  consider "?gap" | "\<not> ?gap" "sr_last r > sr_last current" | "\<not> ?gap" "\<not> sr_last r > sr_last current" by blast
  then show ?case
  proof cases
    case 1
    let ?count = "count + (sr_last current - sr_first current + 1)"
    have count: "unat ?count = unat count + card (range_set current)"
      using unat_range_add [OF prem(3) wf(1)] card_range_set [OF wf(1)] by simp
    have less: "sr_last current < sr_first r"
      using 1 word_next(2) [of "sr_last current" "sr_first r"] by (simp add: word_less_nat_alt)
    then have "unat ?count < unat (sr_first r)"
      using count card_range_set [OF wf(1)] prem(3) wf(1) by (simp add: word_less_nat_alt word_le_nat_alt)
    then have "unat (merge_count ?count r ranges) = unat ?count + card (tracked (r # ranges))"
      using IH(1) [OF 1] prem(1,2) by simp
    moreover have "range_set current \<inter> tracked (r # ranges) = {}"
      using tracked_after [of r ranges] prem(1) less by (fastforce simp: range_set_def)
    then have "card (tracked (current # r # ranges)) = card (range_set current) + card (tracked (r # ranges))"
      unfolding tracked_Cons [of current] by (rule card_Un_disjoint [rotated 2]) simp_all
    ultimately show ?thesis using 1 count by simp
  next
    case 2
    have "range_set (current\<lparr>sr_last := sr_last r\<rparr>) = range_set current \<union> range_set r"
      using wf 2(2) no_gap [OF 2(1)] by (auto simp: range_set_def word_le_nat_alt word_less_nat_alt)
    then have "tracked (current\<lparr>sr_last := sr_last r\<rparr> # ranges) = tracked (current # r # ranges)" by auto
    then show ?thesis using IH(2) [OF 2] prem wf 2(2) 2(1) by (simp add: if_not_P)
  next
    case 3
    have "range_set r \<subseteq> range_set current" using wf 3(2) by (auto simp: range_set_def)
    then have "tracked (current # ranges) = tracked (current # r # ranges)" by auto
    then show ?thesis using IH(3) [OF 3] prem wf 3 by (simp add: if_not_P)
  qed
qed

lemma sorted_key_first:
  "sorted (map sr_first (sort_key (\<lambda>r. (sr_first r, sr_last r)) ranges))"
proof -
  have "sorted_wrt (\<lambda>r q. (sr_first r, sr_last r) \<le> (sr_first q, sr_last q)) (sort_key (\<lambda>r. (sr_first r, sr_last r)) ranges)"
    using sorted_sort_key [of "\<lambda>r. (sr_first r, sr_last r)" ranges] by (simp add: sorted_map)
  then have "sorted_wrt (\<lambda>r q. sr_first r \<le> sr_first q) (sort_key (\<lambda>r. (sr_first r, sr_last r)) ranges)"
    by (rule sorted_wrt_mono_rel [rotated]) auto
  then show ?thesis by (simp add: sorted_map)
qed

lemma count_unique_card:
  assumes "\<forall>t \<in> set trackers. tracker_ok t"
  shows "unat (count_unique_sequences trackers) = card (\<Union>t \<in> set trackers. tracked t)"
proof -
  define xs where "xs = sort_key (\<lambda>r. (sr_first r, sr_last r)) (concat trackers)"
  have set: "tracked xs = (\<Union>t \<in> set trackers. tracked t)" by (auto simp: tracked_def xs_def)
  have wf: "\<forall>r \<in> set xs. 0 < sr_first r \<and> sr_first r \<le> sr_last r" using assms by (auto simp: xs_def tracker_ok_def)
  have sorted: "sorted (map sr_first xs)" unfolding xs_def by (rule sorted_key_first)
  show ?thesis
  proof (cases xs)
    case Nil
    then show ?thesis using set by (simp add: count_unique_sequences_def flip: xs_def) (simp add: tracked_def)
  next
    case (Cons current ranges)
    then have "unat (merge_count 0 current ranges) = card (tracked xs)"
      using merge_count_spec [of current ranges 0] sorted wf by (simp add: word_less_nat_alt)
    then show ?thesis using set Cons by (simp add: count_unique_sequences_def flip: xs_def)
  qed
qed

lemma newest_Max:
  assumes "tracker_ok ranges"
  shows "newest_tracked ranges = Max (insert 0 (tracked ranges))"
proof (rule sym, rule Max_eqI)
  show "newest_tracked ranges \<in> insert 0 (tracked ranges)"
    using assms by (cases ranges rule: rev_cases) (auto simp: newest_tracked_def tracker_ok_def tracked_def range_set_def)
  show "y \<le> newest_tracked ranges" if "y \<in> insert 0 (tracked ranges)" for y
    using that newest_above [OF assms] by auto
qed simp

section \<open>Strings\<close>

declare hex.simps [simp del]

lemma hex_value_digit: "d < 16 \<Longrightarrow> hex_value (hex_digit d) = Some d"
  by (simp add: hex_value_def hex_digit_def Let_def of_char_of)

lemma hex_two:
  assumes "n < 256"
  shows "set_width 4 (CHR ''0'') (hex n) = [CHR ''0'', CHR ''0'', hex_digit (n div 16), hex_digit (n mod 16)]"
proof -
  have zero: "hex_digit 0 = CHR ''0''" by code_simp
  have fill: "replicate 3 c = [c, c, c]" "replicate 2 c = [c, c]" for c :: char
    by (simp_all add: numeral_3_eq_3 numeral_2_eq_2)
  show ?thesis
  proof (cases "n < 16")
    case True
    then show ?thesis by (simp add: hex.simps [of n] set_width_def zero fill)
  next
    case False
    then have "n div 16 < 16" using assms by simp
    then have "hex n = [hex_digit (n div 16), hex_digit (n mod 16)]" using False by (simp add: hex.simps [of n] hex.simps [of "n div 16"])
    then show ?thesis by (simp add: set_width_def fill)
  qed
qed

lemma json_string_unicode:
  assumes "n < 256"
  shows "json_string ([CHR 0x5C, CHR ''u''] @ set_width 4 (CHR ''0'') (hex n) @ text) =
    map_option (\<lambda>(s, r). (char_of n # s, r)) (json_string text)"
proof -
  have d: "hex_value (hex_digit (n div 16)) = Some (n div 16)" "hex_value (hex_digit (n mod 16)) = Some (n mod 16)"
    using assms by (simp_all add: hex_value_digit)
  have z: "hex_value (CHR ''0'') = Some 0" by code_simp
  show ?thesis unfolding hex_two [OF assms] by (simp add: d z)
qed

lemma json_string_escape_char:
  "json_string (escape_char c @ text) = map_option (\<lambda>(s, r). (c # s, r)) (json_string text)"
proof (cases "c \<in> set (map snd simple_escapes) - {CHR ''/''}")
  case True
  then show ?thesis by (auto simp: escape_char_def simple_escapes_def)
next
  case False
  then have c: "c \<notin> {CHR 0x22, CHR 0x5C, CHR 0x08, CHR 0x0C, CHR 0x0A, CHR 0x0D, CHR 0x09}"
    by (auto simp: simple_escapes_def)
  show ?thesis
  proof (cases "(of_char c :: nat) < 0x20")
    case True
    then show ?thesis using c json_string_unicode [of "of_char c" "text"] by (simp add: escape_char_def)
  next
    case False
    then show ?thesis using c by (simp add: escape_char_def)
  qed
qed

section \<open>Properties\<close>

text \<open>
  C38: The number of unique sequences that a benchmark reports is exact: whatever sequences the consumers have
  recorded, in whatever order, the merged count is the number of different sequences among the accepted records of
  all of them. A record is accepted exactly when it is larger than all earlier ones of its consumer, so zero,
  repetitions and reordered sequences are rejected, up to the largest 64-bit sequence.
\<close>

theorem bench_unique_count:
  "unat (count_unique_sequences (map tracker_run runs)) = card (\<Union>calls \<in> set runs. set (records 0 calls)) \<and>
   (fst (tracker_record (tracker_run calls) s) \<longleftrightarrow> Max (insert 0 (set (records 0 calls))) < s)"
  using count_unique_card [of "map tracker_run runs"] tracker_run_spec tracker_record_spec [OF tracker_run_spec(1), of calls s]
  by (auto simp: newest_Max split: prod.splits)

text \<open>
  C39: Every text put into the benchmark report survives: a JSON reader that starts behind the opening quote
  reads exactly the original text and stops exactly at the closing quote the report adds.
\<close>

theorem json_escape_roundtrip:
  "json_string (json_escape value @ CHR 0x22 # rest) = Some (value, rest)"
  by (induction "value") (simp_all add: json_escape_def json_string_escape_char)

end
