(* ===== verification/Stress_Config.thy ===== *)
theory Stress_Config
  imports Results
begin

text \<open>
  The command line of the stress program (\<open>stress/queue_stress.cpp\<close>): \<open>Config\<close>,
  \<open>parse_unsigned\<close> with what it uses of \<open>std::from_chars\<close>, \<open>parse_config\<close> with its options and
  its checks in the order of the source, and \<open>should_run\<close>. The arguments are a list of strings
  without the program name. Besides throwing, \<open>parse_config\<close> ends the process on \<open>--help\<close>; this
  is the outcome \<open>Exit_success\<close>.
\<close>

section \<open>Definitions\<close>

record config =
  cfg_seed :: u64
  cfg_duration_ms :: u64
  cfg_iterations :: u64
  cfg_queue :: string
  cfg_producers :: u32
  cfg_consumers :: u32
  cfg_payload_size :: u32
  cfg_capacity :: u32
  cfg_verbose :: bool

definition default_config :: config where
  "default_config = \<lparr>cfg_seed = 0x4f52424954515545, cfg_duration_ms = 250, cfg_iterations = 10000,
     cfg_queue = ''all'', cfg_producers = 3, cfg_consumers = 3, cfg_payload_size = 64, cfg_capacity = 64,
     cfg_verbose = False\<rparr>"

definition max_payload_size :: nat where
  "max_payload_size = 256"

definition payload_header_size :: nat where
  "payload_header_size = 32"

subsection \<open>Numbers\<close>

text \<open>
  \<open>std::from_chars\<close> for an unsigned 64-bit value in base 10: the longest prefix of digits, \<open>None\<close>
  if it is empty or its value is out of range, otherwise the value and the unread rest.
\<close>

definition is_digit :: "char \<Rightarrow> bool" where
  "is_digit c \<longleftrightarrow> 48 \<le> (of_char c :: nat) \<and> (of_char c :: nat) \<le> 57"

definition digits_value :: "string \<Rightarrow> nat" where
  "digits_value ds = fold (\<lambda>c n. 10 * n + (of_char c - 48)) ds 0"

definition from_chars :: "string \<Rightarrow> (u64 \<times> string) option" where
  "from_chars text =
     (let ds = takeWhile is_digit text in
      if ds = [] \<or> digits_value ds \<ge> 2 ^ 64 then None
      else Some (of_nat (digits_value ds), dropWhile is_digit text))"

definition parse_unsigned :: "string \<Rightarrow> string \<Rightarrow> cpp_exception + u64" where
  "parse_unsigned opt text =
     (case from_chars text of
        Some (v, []) \<Rightarrow> Inr v
      | _ \<Rightarrow> Inl (Invalid_argument (opt @ '' requires an unsigned integer'')))"

text \<open>A 32-bit option: the value must be in range of \<open>std::uint32_t\<close>.\<close>

definition parse_u32 :: "string \<Rightarrow> string \<Rightarrow> cpp_exception + u32" where
  "parse_u32 opt text =
     (case parse_unsigned opt text of
        Inl e \<Rightarrow> Inl e
      | Inr parsed \<Rightarrow> if parsed > 0xffffffff then Inl (Invalid_argument (opt @ '' exceeds uint32 range''))
          else Inr (ucast parsed))"

subsection \<open>Options\<close>

text \<open>Storing the value of one option.\<close>

definition set_option :: "config \<Rightarrow> string \<Rightarrow> string \<Rightarrow> cpp_exception + config" where
  "set_option c opt v =
     (if opt = ''--seed'' then map_sum id (\<lambda>x. c\<lparr>cfg_seed := x\<rparr>) (parse_unsigned opt v)
      else if opt = ''--duration-ms'' then map_sum id (\<lambda>x. c\<lparr>cfg_duration_ms := x\<rparr>) (parse_unsigned opt v)
      else if opt = ''--iterations'' then map_sum id (\<lambda>x. c\<lparr>cfg_iterations := x\<rparr>) (parse_unsigned opt v)
      else if opt = ''--queue'' then Inr (c\<lparr>cfg_queue := v\<rparr>)
      else if opt = ''--producers'' then map_sum id (\<lambda>x. c\<lparr>cfg_producers := x\<rparr>) (parse_u32 opt v)
      else if opt = ''--consumers'' then map_sum id (\<lambda>x. c\<lparr>cfg_consumers := x\<rparr>) (parse_u32 opt v)
      else if opt = ''--payload-size'' then map_sum id (\<lambda>x. c\<lparr>cfg_payload_size := x\<rparr>) (parse_u32 opt v)
      else if opt = ''--capacity'' then map_sum id (\<lambda>x. c\<lparr>cfg_capacity := x\<rparr>) (parse_u32 opt v)
      else Inl (Invalid_argument (''unknown option: '' @ opt)))"

datatype outcome = Exit_success | Threw cpp_exception | Parsed config

fun parse_args :: "config \<Rightarrow> string list \<Rightarrow> outcome" where
  "parse_args c [] = Parsed c"
| "parse_args c (opt # args) =
     (if opt = ''--verbose'' then parse_args (c\<lparr>cfg_verbose := True\<rparr>) args
      else if opt = ''--help'' then Exit_success
      else (case args of
              [] \<Rightarrow> Threw (Invalid_argument (opt @ '' requires a value''))
            | v # args' \<Rightarrow> (case set_option c opt v of
                 Inl e \<Rightarrow> Threw e
               | Inr c' \<Rightarrow> parse_args c' args')))"

subsection \<open>Checks\<close>

definition queue_names :: "string list" where
  "queue_names = [''all'', ''spsc'', ''blocking'', ''spmc'', ''versioned_spmc'', ''mpmc'']"

definition check_config :: "config \<Rightarrow> cpp_exception option" where
  "check_config c =
     (if cfg_queue c \<notin> set queue_names
      then Some (Invalid_argument ''--queue must be all, spsc, blocking, spmc, versioned_spmc, or mpmc'')
      else if cfg_duration_ms c = 0 \<or> cfg_duration_ms c > 0x7fffffffffffffff
      then Some (Invalid_argument ''--duration-ms must fit a positive int64'')
      else if cfg_iterations c = 0 \<or> cfg_iterations c > 10000000
      then Some (Invalid_argument ''--iterations must be between 1 and 10000000'')
      else if cfg_producers c = 0 \<or> cfg_producers c > 64 \<or> cfg_consumers c = 0 \<or> cfg_consumers c > 64
      then Some (Invalid_argument ''producer and consumer counts must be between 1 and 64'')
      else if unat (cfg_payload_size c) < payload_header_size \<or> unat (cfg_payload_size c) > max_payload_size
      then Some (Invalid_argument ''payload size must be between 32 and 256 bytes'')
      else if cfg_capacity c = 0
      then Some (Invalid_argument ''capacity must be greater than zero'')
      else if (cfg_queue c = ''all'' \<or> cfg_queue c = ''mpmc'') \<and>
        (cfg_capacity c < 2 \<or> cfg_capacity c AND (cfg_capacity c - 1) \<noteq> 0)
      then Some (Invalid_argument ''MPMC stress capacity must be a power of two greater than one'')
      else if cfg_queue c = ''spsc'' \<and> (cfg_producers c \<noteq> 1 \<or> cfg_consumers c \<noteq> 1)
      then Some (Invalid_argument ''SPSC stress requires one producer and one consumer'')
      else if (cfg_queue c = ''spmc'' \<or> cfg_queue c = ''versioned_spmc'') \<and> cfg_producers c \<noteq> 1
      then Some (Invalid_argument ''SPMC stress requires one producer'')
      else if cfg_iterations c > 0xffffffffffffffff div ucast (cfg_producers c)
      then Some (Invalid_argument ''producer count times iterations overflows uint64'')
      else None)"

definition parse_config :: "string list \<Rightarrow> outcome" where
  "parse_config args =
     (case parse_args default_config args of
        Parsed c \<Rightarrow> (case check_config c of None \<Rightarrow> Parsed c | Some e \<Rightarrow> Threw e)
      | r \<Rightarrow> r)"

definition should_run :: "config \<Rightarrow> string \<Rightarrow> bool" where
  "should_run c name \<longleftrightarrow> cfg_queue c = ''all'' \<or> cfg_queue c = name"

subsection \<open>Writing a configuration\<close>

text \<open>Decimal output of \<open>operator<<\<close>, and a command line that asks for a given configuration.\<close>

fun dec :: "nat \<Rightarrow> string" where
  "dec n = (if n < 10 then [char_of (48 + n)] else dec (n div 10) @ [char_of (48 + n mod 10)])"

declare dec.simps [simp del]

definition config_args :: "config \<Rightarrow> string list" where
  "config_args c = [''--seed'', dec (unat (cfg_seed c)), ''--duration-ms'', dec (unat (cfg_duration_ms c)),
     ''--iterations'', dec (unat (cfg_iterations c)), ''--queue'', cfg_queue c,
     ''--producers'', dec (unat (cfg_producers c)), ''--consumers'', dec (unat (cfg_consumers c)),
     ''--payload-size'', dec (unat (cfg_payload_size c)), ''--capacity'', dec (unat (cfg_capacity c))] @
     (if cfg_verbose c then [''--verbose''] else [])"

section \<open>Decimal numbers\<close>

lemma digit_char: "d < 10 \<Longrightarrow> is_digit (char_of (48 + d)) \<and> (of_char (char_of (48 + d) :: char) :: nat) = 48 + d"
  by (simp add: is_digit_def)

lemma dec_digits: "list_all is_digit (dec n) \<and> dec n \<noteq> []"
proof (induction n rule: dec.induct)
  case (1 n)
  then show ?case by (simp add: dec.simps [of n] digit_char)
qed

lemma digits_value_append: "digits_value (ds @ [c]) = 10 * digits_value ds + (of_char c - 48)"
  by (simp add: digits_value_def)

lemma digits_value_dec: "digits_value (dec n) = n"
proof (induction n rule: dec.induct)
  case (1 n)
  show ?case
  proof (cases "n < 10")
    case True
    then show ?thesis using digit_char [of n] by (simp add: dec.simps [of n] digits_value_def)
  next
    case False
    then show ?thesis using 1 digit_char [of "n mod 10"]
      by (simp add: dec.simps [of n] digits_value_append)
  qed
qed

lemma from_chars_dec: "n < 2 ^ 64 \<Longrightarrow> from_chars (dec n) = Some (of_nat n, [])"
proof -
  assume n: "n < 2 ^ 64"
  have d: "\<forall>c \<in> set (dec n). is_digit c" "dec n \<noteq> []" using dec_digits [of n] by (simp_all add: list_all_iff)
  then have t: "takeWhile is_digit (dec n) = dec n" "dropWhile is_digit (dec n) = []"
    by (simp_all add: takeWhile_eq_all_conv dropWhile_eq_Nil_conv)
  show ?thesis unfolding from_chars_def Let_def t digits_value_dec using d(2) n by simp
qed

lemma parse_unsigned_dec: "parse_unsigned opt (dec (unat v)) = Inr v"
  unfolding parse_unsigned_def from_chars_dec [OF unat_less_2p64] by simp

lemma parse_u32_dec: "parse_u32 opt (dec (unat v)) = Inr v"
proof -
  have v: "unat v < 2 ^ 32" using unsigned_less [of v] by simp
  then have "unat v < 2 ^ 64" by simp
  then have "from_chars (dec (unat v)) = Some (ucast v, [])"
    using from_chars_dec by simp
  moreover have "\<not> (ucast v :: u64) > 0xffffffff"
    using v by (simp add: word_less_nat_alt)
  moreover have "ucast (ucast v :: u64) = v" by (rule bit_word_eqI) (simp add: bit_simps)
  ultimately show ?thesis by (simp add: parse_u32_def parse_unsigned_def)
qed

section \<open>Accepted configurations\<close>

lemma from_chars_all:
  "from_chars text = Some (v, []) \<longleftrightarrow>
     text \<noteq> [] \<and> (\<forall>c \<in> set text. is_digit c) \<and> digits_value text < 2 ^ 64 \<and> v = of_nat (digits_value text)"
proof (cases "\<forall>c \<in> set text. is_digit c")
  case True
  then have t: "takeWhile is_digit text = text" "dropWhile is_digit text = []"
    by (simp_all add: takeWhile_eq_all_conv dropWhile_eq_Nil_conv)
  show ?thesis unfolding from_chars_def Let_def t using True by (auto simp: not_le)
next
  case False
  then have "dropWhile is_digit text \<noteq> []" by (simp add: dropWhile_eq_Nil_conv)
  then show ?thesis using False by (auto simp: from_chars_def Let_def split: if_splits)
qed

lemma checked_bounds:
  assumes "check_config c = None"
  shows "0 < unat (cfg_iterations c)" "unat (cfg_iterations c) \<le> 10000000"
    "0 < unat (cfg_producers c)" "unat (cfg_producers c) \<le> 64"
    "0 < unat (cfg_consumers c)" "unat (cfg_consumers c) \<le> 64"
    "32 \<le> unat (cfg_payload_size c)" "unat (cfg_payload_size c) \<le> 256"
    "0 < unat (cfg_capacity c)" "0 < unat (cfg_duration_ms c)" "unat (cfg_duration_ms c) < 2 ^ 63"
    "cfg_queue c \<in> set queue_names"
  using assms
  by (simp_all add: check_config_def payload_header_size_def max_payload_size_def unat_gt_0
      word_less_nat_alt not_less split: if_splits)

lemma checked_mpmc:
  assumes "check_config c = None" "should_run c ''mpmc''"
  shows "2 \<le> cfg_capacity c \<and> cfg_capacity c AND (cfg_capacity c - 1) = 0"
  using assms by (auto simp: check_config_def should_run_def not_less split: if_splits)

lemma parsed_checked: "parse_config args = Parsed c \<Longrightarrow> check_config c = None"
  by (auto simp: parse_config_def split: outcome.splits option.splits)

lemma parse_config_args:
  "parse_args default_config (config_args c) = Parsed c"
proof -
  have v: "parse_args c' (if cfg_verbose c then [''--verbose''] else []) =
      Parsed (c'\<lparr>cfg_verbose := cfg_verbose c\<rparr>)" if "\<not> cfg_verbose c'" for c'
    using that by (cases "cfg_verbose c") simp_all
  show ?thesis
    unfolding config_args_def append.simps
    by (simp add: set_option_def parse_unsigned_dec parse_u32_dec v default_config_def del: parse_args.simps(1))
qed

section \<open>Properties\<close>

text \<open>
  C35: Every valid configuration can be asked for on the command line and is read back exactly:
  parsing the decimal rendering of all its fields yields the configuration itself.
\<close>

theorem config_roundtrip:
  assumes "check_config c = None"
  shows "parse_config (config_args c) = Parsed c"
  using assms by (simp add: parse_config_def parse_config_args)

theorem config_roundtrip_witness:
  "check_config default_config = None \<and> parse_config (config_args default_config) = Parsed default_config"
proof -
  have "check_config default_config = None" by code_simp
  then show ?thesis using config_roundtrip [of default_config] by blast
qed

text \<open>
  A numeric option is accepted exactly when its text is a non-empty string of decimal digits
  whose value fits 64 bits, and then it is that value; signs, blanks, trailing characters and
  overflow are all refused.
\<close>

lemma parse_unsigned_exact:
  "parse_unsigned opt text = Inr v \<longleftrightarrow>
     text \<noteq> [] \<and> (\<forall>c \<in> set text. is_digit c) \<and> digits_value text < 2 ^ 64 \<and> v = of_nat (digits_value text)"
  unfolding from_chars_all [symmetric]
  by (auto simp: parse_unsigned_def split: option.splits list.splits)

text \<open>
  Whatever the command line, an accepted configuration is within the documented bounds; the
  number of messages of a run and of the tables indexed by global sequence stay far below 64 bits,
  and each queue's own requirements on the thread counts hold.
\<close>

lemma config_bounds:
  assumes "parse_config args = Parsed c"
  shows "cfg_queue c \<in> set queue_names \<and> 0 < unat (cfg_iterations c) \<and>
    0 < unat (cfg_producers c) \<and> unat (cfg_producers c) \<le> 64 \<and>
    0 < unat (cfg_consumers c) \<and> unat (cfg_consumers c) \<le> 64 \<and>
    payload_header_size \<le> unat (cfg_payload_size c) \<and> unat (cfg_payload_size c) \<le> max_payload_size \<and>
    0 < unat (cfg_capacity c) \<and> unat (cfg_duration_ms c) < 2 ^ 63 \<and>
    unat (cfg_iterations c * ucast (cfg_producers c) + 1) =
      unat (cfg_iterations c) * unat (cfg_producers c) + 1 \<and>
    (cfg_queue c = ''spsc'' \<longrightarrow> cfg_producers c = 1 \<and> cfg_consumers c = 1) \<and>
    (cfg_queue c \<in> {''spmc'', ''versioned_spmc''} \<longrightarrow> cfg_producers c = 1)"
proof -
  note chk = parsed_checked [OF assms]
  note b = checked_bounds [OF chk]
  have "unat (cfg_iterations c) * unat (cfg_producers c) \<le> 10000000 * 64" using b by (intro mult_le_mono)
  moreover have "unat (ucast (cfg_producers c) :: u64) = unat (cfg_producers c)"
    by simp
  ultimately have "unat (cfg_iterations c * ucast (cfg_producers c) + 1) =
      unat (cfg_iterations c) * unat (cfg_producers c) + 1"
    by (simp add: unat_word_ariths)
  moreover have "(cfg_queue c = ''spsc'' \<longrightarrow> cfg_producers c = 1 \<and> cfg_consumers c = 1) \<and>
    (cfg_queue c \<in> {''spmc'', ''versioned_spmc''} \<longrightarrow> cfg_producers c = 1)"
    using chk by (auto simp: check_config_def split: if_splits)
  ultimately show ?thesis using b by (simp add: payload_header_size_def max_payload_size_def)
qed

end
