(* ===== verification/Stress_Payload.thy ===== *)
theory Stress_Payload
  imports Stress_Config
begin

text \<open>
  Test payloads of the stress program (\<open>stress/queue_stress.cpp\<close>): \<open>PayloadHeader\<close>,
  \<open>mixed_seed\<close>, \<open>make_payload\<close>, \<open>read_header\<close>, \<open>validate_payload\<close> and \<open>FailureRecorder\<close>, with
  \<open>std::mt19937_64\<close> as the C++ standard defines it. A \<open>memcpy\<close> of the header copies its object
  representation, which has no padding and, on the supported hosts, little-endian members.
\<close>

section \<open>Definitions\<close>

subsection \<open>Failures\<close>

record failure =
  fl_queue :: string
  fl_seed :: u64
  fl_operation :: u64
  fl_expected_sequence :: u64
  fl_observed_sequence :: u64
  fl_expected_checksum :: u64
  fl_observed_checksum :: u64
  fl_reason :: string

text \<open>Aggregate initialisation of a \<open>Failure\<close>.\<close>

definition failure_of :: "string \<Rightarrow> u64 \<Rightarrow> u64 \<Rightarrow> u64 \<Rightarrow> u64 \<Rightarrow> u64 \<Rightarrow> u64 \<Rightarrow> string \<Rightarrow> failure" where
  "failure_of queue sd operation expected_sequence observed_sequence expected_checksum observed_checksum reason =
     \<lparr>fl_queue = queue, fl_seed = sd, fl_operation = operation, fl_expected_sequence = expected_sequence,
      fl_observed_sequence = observed_sequence, fl_expected_checksum = expected_checksum,
      fl_observed_checksum = observed_checksum, fl_reason = reason\<rparr>"

text \<open>\<open>FailureRecorder\<close>: the state under its mutex, and its members.\<close>

type_synonym recorder = "failure option"

definition fr_record :: "recorder \<Rightarrow> failure \<Rightarrow> recorder" where
  "fr_record r f = (case r of None \<Rightarrow> Some f | Some g \<Rightarrow> r)"

definition fr_failed :: "recorder \<Rightarrow> bool" where
  "fr_failed r \<longleftrightarrow> r \<noteq> None"

definition fr_print :: "recorder \<Rightarrow> string" where
  "fr_print r =
     (case r of
        None \<Rightarrow> []
      | Some f \<Rightarrow> ''stress_failure queue='' @ fl_queue f @
          '' seed='' @ dec (unat (fl_seed f)) @
          '' operation='' @ dec (unat (fl_operation f)) @
          '' expected_sequence='' @ dec (unat (fl_expected_sequence f)) @
          '' observed_sequence='' @ dec (unat (fl_observed_sequence f)) @
          '' expected_checksum='' @ dec (unat (fl_expected_checksum f)) @
          '' observed_checksum='' @ dec (unat (fl_observed_checksum f)) @
          '' reason='' @ [CHR 0x22] @ fl_reason f @ [CHR 0x22] @ [CHR 0x0A])"

subsection \<open>Checksums\<close>

definition xorshift :: "nat \<Rightarrow> u64 \<Rightarrow> u64" where
  "xorshift k v = v XOR drop_bit k v"

definition mixed_seed :: "u64 \<Rightarrow> u32 \<Rightarrow> u64 \<Rightarrow> u64" where
  "mixed_seed sd producer_id local_sequence =
     (let value0 = sd XOR push_bit 32 (ucast producer_id) XOR local_sequence;
          value1 = xorshift 30 value0;
          value2 = value1 * 0xbf58476d1ce4e5b9;
          value3 = xorshift 27 value2;
          value4 = value3 * 0x94d049bb133111eb
      in xorshift 31 value4)"

subsection \<open>The header in memory\<close>

record payload_header =
  ph_global_sequence :: u64
  ph_local_sequence :: u64
  ph_producer_id :: u32
  ph_payload_size :: u32
  ph_checksum :: u64

definition le_bytes :: "nat \<Rightarrow> u64 \<Rightarrow> byte list" where
  "le_bytes n w = map (\<lambda>i. ucast (drop_bit (8 * i) w)) [0..<n]"

definition le_word :: "byte list \<Rightarrow> u64" where
  "le_word bs = foldr (\<lambda>b w. ucast b OR push_bit 8 w) bs 0"

definition header_bytes :: "payload_header \<Rightarrow> byte list" where
  "header_bytes h = le_bytes 8 (ph_global_sequence h) @ le_bytes 8 (ph_local_sequence h) @
     le_bytes 4 (ucast (ph_producer_id h)) @ le_bytes 4 (ucast (ph_payload_size h)) @
     le_bytes 8 (ph_checksum h)"

definition bytes_header :: "byte list \<Rightarrow> payload_header" where
  "bytes_header bs = \<lparr>ph_global_sequence = le_word (take 8 bs),
     ph_local_sequence = le_word (take 8 (drop 8 bs)),
     ph_producer_id = ucast (le_word (take 4 (drop 16 bs))),
     ph_payload_size = ucast (le_word (take 4 (drop 20 bs))),
     ph_checksum = le_word (take 8 (drop 24 bs))\<rparr>"

subsection \<open>\<open>std::mt19937_64\<close>\<close>

text \<open>The state is the last 312 words of the recurrence, oldest first.\<close>

fun mt_init :: "nat \<Rightarrow> nat \<Rightarrow> u64 \<Rightarrow> u64 list" where
  "mt_init 0 i x = []"
| "mt_init (Suc n) i x =
     x # mt_init n (Suc i) (6364136223846793005 * (x XOR drop_bit 62 x) + of_nat (Suc i))"

definition mt_seed :: "u64 \<Rightarrow> u64 list" where
  "mt_seed value = mt_init 312 0 value"

definition mt_step :: "u64 list \<Rightarrow> u64" where
  "mt_step st =
     (let y = (st ! 0 AND 0xffffffff80000000) OR (st ! 1 AND 0x7fffffff);
          a = (if y AND 1 = 0 then 0 else 0xb5026f5aa96619e9)
      in st ! 156 XOR drop_bit 1 y XOR a)"

definition mt_temper :: "u64 \<Rightarrow> u64" where
  "mt_temper x =
     (let z1 = x XOR (drop_bit 29 x AND 0x5555555555555555);
          z2 = z1 XOR (push_bit 17 z1 AND 0x71d67fffeda60000);
          z3 = z2 XOR (push_bit 37 z2 AND 0xfff7eee000000000)
      in z3 XOR drop_bit 43 z3)"

definition mt_next :: "u64 list \<Rightarrow> u64 \<times> u64 list" where
  "mt_next st = (let x = mt_step st in (mt_temper x, tl st @ [x]))"

subsection \<open>Payloads\<close>

text \<open>The loop that fills the bytes from \<open>index\<close> on, \<open>k\<close> of them.\<close>

fun fill_random :: "nat \<Rightarrow> nat \<Rightarrow> u64 list \<Rightarrow> byte list \<Rightarrow> byte list" where
  "fill_random 0 index st payload = payload"
| "fill_random (Suc k) index st payload =
     (case mt_next st of (r, st') \<Rightarrow> fill_random k (Suc index) st' (payload[index := ucast (r AND 0xff)]))"

definition make_payload :: "config \<Rightarrow> u32 \<Rightarrow> u64 \<Rightarrow> u64 \<Rightarrow> byte list" where
  "make_payload c producer_id local_sequence global_sequence =
     (let n = unat (cfg_payload_size c);
          header = \<lparr>ph_global_sequence = global_sequence, ph_local_sequence = local_sequence,
            ph_producer_id = producer_id, ph_payload_size = cfg_payload_size c,
            ph_checksum = mixed_seed (cfg_seed c) producer_id local_sequence\<rparr>;
          payload = copy_n payload_header_size (header_bytes header) (replicate n 0)
      in fill_random (n - payload_header_size) payload_header_size (mt_seed (ph_checksum header)) payload)"

definition read_header :: "byte list \<Rightarrow> payload_header" where
  "read_header payload =
     (if length payload \<ge> payload_header_size then bytes_header (take payload_header_size payload)
      else \<lparr>ph_global_sequence = 0, ph_local_sequence = 0, ph_producer_id = 0, ph_payload_size = 0,
            ph_checksum = 0\<rparr>)"

definition validate_payload ::
    "string \<Rightarrow> config \<Rightarrow> byte list \<Rightarrow> u32 \<Rightarrow> u64 \<Rightarrow> u64 \<Rightarrow> u64 \<Rightarrow> recorder \<Rightarrow> bool \<times> recorder" where
  "validate_payload queue c payload expected_producer expected_local expected_global operation failures =
     (let observed = read_header payload;
          expected = make_payload c expected_producer expected_local expected_global;
          expected_header = read_header expected
      in if payload \<noteq> expected
         then (False, fr_record failures (failure_of queue (cfg_seed c) operation expected_global
           (ph_global_sequence observed) (ph_checksum expected_header) (ph_checksum observed)
           ''payload sequence/checksum/pattern mismatch''))
         else (True, failures))"

section \<open>Little-endian words\<close>

lemma length_le_bytes [simp]: "length (le_bytes n w) = n"
  by (simp add: le_bytes_def)

lemma le_bytes_Suc: "le_bytes (Suc n) w = ucast w # le_bytes n (drop_bit 8 w)"
  by (simp add: le_bytes_def upt_Suc_shift o_def drop_bit_drop_bit add.commute del: upt_Suc)

lemma byte_split: "ucast (ucast w :: byte) OR push_bit 8 (take_bit n (drop_bit 8 w)) = (take_bit (8 + n) w :: u64)"
  by (rule bit_word_eqI) (auto simp: bit_simps)

lemma le_word_bytes: "le_word (le_bytes n w) = take_bit (8 * n) w"
proof (induction n arbitrary: w)
  case 0
  then show ?case by (simp add: le_word_def le_bytes_def)
next
  case (Suc n)
  have "le_word (le_bytes (Suc n) w) = ucast (ucast w :: byte) OR push_bit 8 (le_word (le_bytes n (drop_bit 8 w)))"
    by (simp add: le_bytes_Suc le_word_def)
  also have "\<dots> = take_bit (8 + 8 * n) w" by (simp only: Suc.IH byte_split)
  finally show ?case by simp
qed

lemma le_word_bytes_8 [simp]: "le_word (le_bytes 8 w) = w"
  by (simp add: le_word_bytes take_bit_word_eq_self)

lemma le_word_bytes_4 [simp]: "ucast (le_word (le_bytes 4 (ucast (v :: u32)))) = v"
  by (rule bit_word_eqI) (simp add: le_word_bytes bit_simps)

lemma length_header_bytes [simp]: "length (header_bytes h) = 32"
  by (simp add: header_bytes_def)

lemma bytes_header_bytes [simp]: "bytes_header (header_bytes h) = h"
  by (simp add: bytes_header_def header_bytes_def)

section \<open>Payload contents\<close>

lemma length_fill_random [simp]: "length (fill_random k i st p) = length p"
  by (induction k i st p rule: fill_random.induct) (simp_all add: mt_next_def Let_def)

lemma take_fill_random: "m \<le> i \<Longrightarrow> take m (fill_random k i st p) = take m p"
  by (induction k i st p rule: fill_random.induct) (simp_all add: mt_next_def Let_def)

lemma length_make_payload:
  assumes "32 \<le> unat (cfg_payload_size c)"
  shows "length (make_payload c p l g) = unat (cfg_payload_size c)"
  using assms by (simp add: make_payload_def Let_def payload_header_size_def)

lemma read_header_make:
  assumes "32 \<le> unat (cfg_payload_size c)"
  shows "read_header (make_payload c p l g) =
    \<lparr>ph_global_sequence = g, ph_local_sequence = l, ph_producer_id = p, ph_payload_size = cfg_payload_size c,
     ph_checksum = mixed_seed (cfg_seed c) p l\<rparr>"
proof -
  let ?h = "\<lparr>ph_global_sequence = g, ph_local_sequence = l, ph_producer_id = p,
    ph_payload_size = cfg_payload_size c, ph_checksum = mixed_seed (cfg_seed c) p l\<rparr>"
  have "take 32 (make_payload c p l g) = header_bytes ?h"
    by (simp add: make_payload_def Let_def payload_header_size_def take_fill_random copy_n_def)
  then show ?thesis
    using assms length_make_payload [OF assms] by (simp add: read_header_def payload_header_size_def)
qed

lemma validate_made [simp]:
  "validate_payload queue c (make_payload c p l g) p l g operation failures = (True, failures)"
  by (simp add: validate_payload_def Let_def)

section \<open>The mixing function\<close>

lemma xorshift_inj:
  fixes x y :: u64
  assumes "xorshift k x = xorshift k y" "0 < k"
  shows "x = y"
proof -
  have bits: "(bit x n \<noteq> bit x (k + n)) = (bit y n \<noteq> bit y (k + n))" for n
    using arg_cong [OF assms(1), of "\<lambda>w. bit w n"] by (simp add: bit_simps xorshift_def)
  have "bit x n = bit y n" for n
  proof (induction "64 - n" arbitrary: n rule: less_induct)
    case less
    show ?case
    proof (cases "n < 64")
      case True
      then have "bit x (k + n) = bit y (k + n)" using less [of "k + n"] assms(2) by simp
      then show ?thesis using bits [of n] by blast
    next
      case False
      then show ?thesis using bit_imp_le_length [of x n] bit_imp_le_length [of y n] by auto
    qed
  qed
  then show ?thesis by (rule bit_word_eqI)
qed

lemma odd_mult_inj:
  fixes x y c d :: u64
  assumes "x * c = y * c" "c * d = 1"
  shows "x = y"
proof -
  have "x * c * d = y * c * d" using assms(1) by simp
  then show ?thesis using assms(2) by (simp add: mult.assoc)
qed

lemma mixed_seed_inj:
  assumes "mixed_seed sd p l = mixed_seed sd p' l'"
  shows "push_bit 32 (ucast p) XOR l = (push_bit 32 (ucast p') XOR l' :: u64)"
proof -
  let ?a = "0xbf58476d1ce4e5b9 :: u64" and ?b = "0x94d049bb133111eb :: u64"
  let ?v = "sd XOR push_bit 32 (ucast p) XOR l" and ?v' = "sd XOR push_bit 32 (ucast p') XOR l'"
  have "xorshift 31 (xorshift 27 (xorshift 30 ?v * ?a) * ?b) =
      xorshift 31 (xorshift 27 (xorshift 30 ?v' * ?a) * ?b)"
    using assms unfolding mixed_seed_def Let_def .
  then have "xorshift 27 (xorshift 30 ?v * ?a) * ?b = xorshift 27 (xorshift 30 ?v' * ?a) * ?b"
    by (rule xorshift_inj) simp
  then have "xorshift 27 (xorshift 30 ?v * ?a) = xorshift 27 (xorshift 30 ?v' * ?a)"
    by (rule odd_mult_inj [where d = "0x319642b2d24d8ec3"]) simp
  then have "xorshift 30 ?v * ?a = xorshift 30 ?v' * ?a"
    by (rule xorshift_inj) simp
  then have "xorshift 30 ?v = xorshift 30 ?v'"
    by (rule odd_mult_inj [where d = "0x96de1b173f119089"]) simp
  then have "?v = ?v'" by (rule xorshift_inj) simp
  then have "sd XOR ?v = sd XOR ?v'" by (rule arg_cong)
  then show ?thesis by (simp only: xor.assoc [symmetric] xor_self_eq xor.left_neutral)
qed

lemma producer_local_split:
  fixes l l' :: u64
  assumes "push_bit 32 (ucast (p :: u32)) XOR l = push_bit 32 (ucast p') XOR l'"
    and "unat l < 2 ^ 32" "unat l' < 2 ^ 32"
  shows "p = p' \<and> l = l'"
proof -
  have hi: "\<not> bit w n" if "unat w < 2 ^ 32" "32 \<le> n" for w :: u64 and n
  proof -
    have "take_bit 32 w = w" using that(1) by (simp add: word_unat_eq_iff unsigned_take_bit_eq take_bit_nat_eq_self)
    then have "bit w n \<longleftrightarrow> bit (take_bit 32 w) n" by simp
    then show ?thesis using that(2) by (simp add: bit_simps)
  qed
  have bits: "(n \<ge> 32 \<and> n < 64 \<and> bit p (n - 32)) \<noteq> bit l n \<longleftrightarrow> (n \<ge> 32 \<and> n < 64 \<and> bit p' (n - 32)) \<noteq> bit l' n" for n
    using arg_cong [OF assms(1), of "\<lambda>w. bit w n"] by (auto simp: bit_simps)
  have "bit p n = bit p' n" if "n < 32" for n
    using bits [of "n + 32"] hi [OF assms(2), of "n + 32"] hi [OF assms(3), of "n + 32"] that by simp
  moreover have "bit l n = bit l' n" for n
    using bits [of n] hi [OF assms(2), of n] hi [OF assms(3), of n] by (cases "32 \<le> n") auto
  ultimately show ?thesis by (auto intro!: bit_word_eqI)
qed

section \<open>Properties\<close>

text \<open>
  C34: The validation of a received payload is exact. Against the message that was sent under
  producer, local and global sequence it succeeds if and only if it is validated under the same
  three numbers, and on success nothing is recorded; on a mismatch a failure is on record, the first
  one ever recorded. The checksums of two different messages of a run differ.
\<close>

theorem validation_exact:
  assumes "32 \<le> unat (cfg_payload_size c)" "unat l < 2 ^ 32" "unat l' < 2 ^ 32"
    and "validate_payload name c (make_payload c p l g) p' l' g' operation failures = (valid, failures')"
  shows "(valid \<longleftrightarrow> p = p' \<and> l = l' \<and> g = g') \<and>
    (valid \<longrightarrow> failures' = failures) \<and> (\<not> valid \<longrightarrow> fr_failed failures') \<and>
    (fr_failed failures \<longrightarrow> failures' = failures) \<and>
    (mixed_seed (cfg_seed c) p l = mixed_seed (cfg_seed c) p' l' \<longleftrightarrow> p = p' \<and> l = l')"
proof -
  note hd = read_header_make [OF assms(1)]
  have "make_payload c p l g = make_payload c p' l' g' \<longleftrightarrow> p = p' \<and> l = l' \<and> g = g'"
    using hd [of p l g] hd [of p' l' g'] by (metis payload_header.ext_inject)
  moreover have "mixed_seed (cfg_seed c) p l = mixed_seed (cfg_seed c) p' l' \<longleftrightarrow> p = p' \<and> l = l'"
    using mixed_seed_inj producer_local_split assms(2,3) by blast
  ultimately show ?thesis
    using assms(4) by (auto simp: validate_payload_def Let_def fr_record_def fr_failed_def split: if_splits option.splits)
qed

theorem validation_exact_witness:
  "\<exists>f. validate_payload ''spsc'' default_config (make_payload default_config 0 1 1) 0 2 2 5 None = (False, f) \<and>
     fr_failed f"
proof -
  obtain v f where v: "validate_payload ''spsc'' default_config (make_payload default_config 0 1 1) 0 2 2 5 None = (v, f)"
    by fastforce
  have "(v \<longleftrightarrow> (0 :: u32) = 0 \<and> (1 :: u64) = 2 \<and> (1 :: u64) = 2) \<and> (\<not> v \<longrightarrow> fr_failed f)"
    using validation_exact [OF _ _ _ v] by (simp add: default_config_def)
  then show ?thesis using v by simp
qed

end
