(* ===== verification/Stress_Spsc.thy ===== *)
theory Stress_Spsc
  imports Spsc_Concurrent Stress_Payload
begin

text \<open>
  The SPSC stress run (\<open>run_spsc\<close> of \<open>stress/queue_stress.cpp\<close>): the undersized-read check, then
  a producer and a consumer thread on one queue, with the queue of \<open>Spsc_Concurrent\<close> at the
  granularity of single accesses inside every call. The clock may reach the deadline at any test
  of it; \<open>yield\<close> and the pseudorandom choice of when to yield have no effect on the state.
  The consumer may see \<open>producer_done\<close> late; once it has seen it, the acquire load makes every
  earlier store of the producer visible to it.
\<close>

section \<open>Definitions\<close>

subsection \<open>The undersized read\<close>

definition spsc_retry :: "config \<Rightarrow> recorder \<Rightarrow> cpp_exception + bool \<times> recorder" where
  "spsc_retry c failures =
     (case spsc_make max_payload_size 1 of
        Inl e \<Rightarrow> Inl e
      | Inr retry_queue \<Rightarrow>
          (case spsc_try_push max_payload_size retry_queue (make_payload c 0 1 1) of (pushed, q1) \<Rightarrow>
           if wr_status pushed \<noteq> Success
           then Inr (False, fr_record failures
             (failure_of ''spsc'' (cfg_seed c) 0 1 0 0 0 ''undersized retry setup push failed''))
           else
             (case spsc_try_pop q1 (replicate (unat (cfg_payload_size c - 1)) 0) of (short, short_output, q2) \<Rightarrow>
              if rr_status short \<noteq> Message_too_large
              then Inr (False, fr_record failures
                (failure_of ''spsc'' (cfg_seed c) 0 1 0 0 0 ''undersized read did not report message_too_large''))
              else
                (case spsc_try_pop q2 (replicate (unat (cfg_payload_size c)) 0) of (result, retry_output, q3) \<Rightarrow>
                 if rr_status result \<noteq> Success then Inr (False, failures)
                 else Inr (validate_payload ''spsc'' c retry_output 0 1 1 0 failures)))))"

subsection \<open>The threads\<close>

datatype sp_pc = Sp_wait | Sp_loop | Sp_push | Sp_exit | Sp_end

datatype sc_pc = Sc_wait | Sc_loop | Sc_empty | Sc_body | Sc_pop | Sc_end

record spsc_run =
  sr_q :: spsc_sys
  sr_start :: bool
  sr_done :: bool
  sr_seen_done :: bool
  sr_sequence :: u64
  sr_published :: u64
  sr_popped :: u64
  sr_full_retries :: u64
  sr_empty_retries :: u64
  sr_failures :: recorder
  sr_producer :: sp_pc
  sr_consumer :: sc_pc
  sr_result :: "(bool \<times> string) option"

definition spsc_run_init :: "config \<Rightarrow> recorder \<Rightarrow> spsc_run \<Rightarrow> bool" where
  "spsc_run_init c failures s \<longleftrightarrow> spsc_sys_init max_payload_size (ucast (cfg_capacity c)) (sr_q s) \<and>
     s = \<lparr>sr_q = sr_q s, sr_start = False, sr_done = False, sr_seen_done = False, sr_sequence = 1,
       sr_published = 0, sr_popped = 0, sr_full_retries = 0, sr_empty_retries = 0, sr_failures = failures,
       sr_producer = Sp_wait, sr_consumer = Sc_wait, sr_result = None\<rparr>"

text \<open>What the producer does with the result of a push, and the consumer with that of a pop.\<close>

definition spsc_on_push :: "config \<Rightarrow> write_result \<Rightarrow> spsc_run \<Rightarrow> spsc_run" where
  "spsc_on_push c result s =
     (if wr_status result = Success
      then if wr_sequence result \<noteq> sr_sequence s
        then s\<lparr>sr_failures := fr_record (sr_failures s)
                 (failure_of ''spsc'' (cfg_seed c) (sr_sequence s) (sr_sequence s) (wr_sequence result) 0 0
                   ''queue publication sequence mismatch''),
               sr_producer := Sp_exit\<rparr>
        else s\<lparr>sr_published := sr_sequence s, sr_sequence := sr_sequence s + 1, sr_producer := Sp_loop\<rparr>
      else if wr_status result = Full
      then s\<lparr>sr_full_retries := sr_full_retries s + 1, sr_producer := Sp_loop\<rparr>
      else s\<lparr>sr_failures := fr_record (sr_failures s)
               (failure_of ''spsc'' (cfg_seed c) (sr_sequence s) (sr_sequence s) (wr_sequence result) 0 0
                 ''unexpected push status''),
             sr_producer := Sp_exit\<rparr>)"

definition spsc_on_pop :: "config \<Rightarrow> read_result \<Rightarrow> byte list \<Rightarrow> spsc_run \<Rightarrow> spsc_run" where
  "spsc_on_pop c result payload s =
     (if rr_status result = Success
      then let expected = sr_popped s + 1 in
        if rr_sequence result \<noteq> expected then s\<lparr>sr_consumer := Sc_end\<rparr>
        else (case validate_payload ''spsc'' c payload 0 expected expected expected (sr_failures s) of
            (valid, failures) \<Rightarrow>
              if valid then s\<lparr>sr_failures := failures, sr_popped := sr_popped s + 1, sr_consumer := Sc_loop\<rparr>
              else s\<lparr>sr_failures := failures, sr_consumer := Sc_end\<rparr>)
      else if rr_status result = Empty
      then s\<lparr>sr_empty_retries := sr_empty_retries s + 1, sr_consumer := Sc_loop\<rparr>
      else s\<lparr>sr_failures := fr_record (sr_failures s)
               (failure_of ''spsc'' (cfg_seed c) (sr_popped s + 1) (sr_popped s + 1) (rr_sequence result) 0 0
                 ''unexpected pop status''),
             sr_consumer := Sc_end\<rparr>)"

text \<open>
  A call enters the queue's code with its argument, then takes the queue's steps until the queue
  holds the result, which the caller takes as it returns.
\<close>

inductive spsc_producer_step :: "config \<Rightarrow> spsc_run \<Rightarrow> spsc_run \<Rightarrow> bool" for c where
  sp_start: "sr_producer s = Sp_wait \<Longrightarrow> sr_start s \<Longrightarrow>
    spsc_producer_step c s (s\<lparr>sr_producer := Sp_loop\<rparr>)"
| sp_leave: "sr_producer s = Sp_loop \<Longrightarrow>
    spsc_producer_step c s (s\<lparr>sr_producer := Sp_exit\<rparr>)"
| sp_call: "sr_producer s = Sp_loop \<Longrightarrow> sr_sequence s \<le> cfg_iterations c \<Longrightarrow>
    payload = make_payload c 0 (sr_sequence s) (sr_sequence s) \<Longrightarrow>
    spsc_pstep max_payload_size (ucast (cfg_capacity c)) (sr_q s) q \<Longrightarrow>
    ss_producer q = P_check payload head \<or>
      length payload > max_payload_size \<and> ss_producer q = P_done (write_res Message_too_large 0) \<Longrightarrow>
    spsc_producer_step c s (s\<lparr>sr_q := q, sr_producer := Sp_push\<rparr>)"
| sp_inside: "sr_producer s = Sp_push \<Longrightarrow> (\<And>r. ss_producer (sr_q s) \<noteq> P_done r) \<Longrightarrow>
    spsc_pstep max_payload_size (ucast (cfg_capacity c)) (sr_q s) q \<Longrightarrow>
    spsc_producer_step c s (s\<lparr>sr_q := q\<rparr>)"
| sp_result: "sr_producer s = Sp_push \<Longrightarrow> ss_producer (sr_q s) = P_done r \<Longrightarrow>
    spsc_pstep max_payload_size (ucast (cfg_capacity c)) (sr_q s) q \<Longrightarrow>
    spsc_producer_step c s (spsc_on_push c r (s\<lparr>sr_q := q\<rparr>))"
| sp_done: "sr_producer s = Sp_exit \<Longrightarrow>
    spsc_producer_step c s (s\<lparr>sr_done := True, sr_producer := Sp_end\<rparr>)"

inductive spsc_consumer_step :: "config \<Rightarrow> spsc_run \<Rightarrow> spsc_run \<Rightarrow> bool" for c where
  sc_start: "sr_consumer s = Sc_wait \<Longrightarrow> sr_start s \<Longrightarrow>
    spsc_consumer_step c s (s\<lparr>sr_consumer := Sc_loop\<rparr>)"
| sc_not_done: "sr_consumer s = Sc_loop \<Longrightarrow> \<not> sr_seen_done s \<Longrightarrow>
    spsc_consumer_step c s (s\<lparr>sr_consumer := Sc_body\<rparr>)"
| sc_done: "sr_consumer s = Sc_loop \<Longrightarrow> sr_done s \<Longrightarrow>
    spsc_consumer_step c s
      (s\<lparr>sr_q := (sr_q s)\<lparr>ss_head_view := length (ss_head (sr_q s)) - 1\<rparr>, sr_seen_done := True,
         sr_consumer := Sc_empty\<rparr>)"
| sc_empty: "sr_consumer s = Sc_empty \<Longrightarrow>
    at_load (ss_head (sr_q s)) (ss_head_view (sr_q s)) ts head \<Longrightarrow>
    spsc_consumer_step c s
      (s\<lparr>sr_q := (sr_q s)\<lparr>ss_head_view := ts\<rparr>,
         sr_consumer := (if head = last (ss_tail (sr_q s)) then Sc_end else Sc_body)\<rparr>)"
| sc_call: "sr_consumer s = Sc_body \<Longrightarrow>
    spsc_cstep (ucast (cfg_capacity c)) (sr_q s) q \<Longrightarrow>
    ss_consumer q = C_check (replicate (unat (cfg_payload_size c)) 0) tail \<Longrightarrow>
    spsc_consumer_step c s (s\<lparr>sr_q := q, sr_consumer := Sc_pop\<rparr>)"
| sc_inside: "sr_consumer s = Sc_pop \<Longrightarrow> (\<And>r d. ss_consumer (sr_q s) \<noteq> C_done r d) \<Longrightarrow>
    spsc_cstep (ucast (cfg_capacity c)) (sr_q s) q \<Longrightarrow>
    spsc_consumer_step c s (s\<lparr>sr_q := q\<rparr>)"
| sc_result: "sr_consumer s = Sc_pop \<Longrightarrow> ss_consumer (sr_q s) = C_done r d \<Longrightarrow>
    spsc_cstep (ucast (cfg_capacity c)) (sr_q s) q \<Longrightarrow>
    spsc_consumer_step c s (spsc_on_pop c r d (s\<lparr>sr_q := q\<rparr>))"

subsection \<open>The run\<close>

definition spsc_report :: "config \<Rightarrow> spsc_run \<Rightarrow> string" where
  "spsc_report c s = ''stress_result queue=spsc seed='' @ dec (unat (cfg_seed c)) @
     '' pushed='' @ dec (unat (sr_published s)) @ '' popped='' @ dec (unat (sr_popped s)) @
     '' full_retries='' @ dec (unat (sr_full_retries s)) @ '' empty_retries='' @ dec (unat (sr_empty_retries s)) @
     '' validation_failures='' @ dec (if fr_failed (sr_failures s) then 1 else 0) @ [CHR 0x0A]"

text \<open>The main thread starts the others and, when both have ended, compares the counts.\<close>

definition spsc_finish :: "config \<Rightarrow> spsc_run \<Rightarrow> spsc_run" where
  "spsc_finish c s =
     (let s' = (if sr_popped s \<noteq> sr_published s
        then s\<lparr>sr_failures := fr_record (sr_failures s)
               (failure_of ''spsc'' (cfg_seed c) (sr_popped s) (sr_published s) (sr_popped s) 0 0
                 ''pushed and popped counts differ after drain'')\<rparr>
        else s)
      in s'\<lparr>sr_result := Some (\<not> fr_failed (sr_failures s'), spsc_report c s')\<rparr>)"

inductive spsc_main_step :: "config \<Rightarrow> spsc_run \<Rightarrow> spsc_run \<Rightarrow> bool" for c where
  sm_start: "\<not> sr_start s \<Longrightarrow> spsc_main_step c s (s\<lparr>sr_start := True\<rparr>)"
| sm_finish: "sr_start s \<Longrightarrow> sr_producer s = Sp_end \<Longrightarrow> sr_consumer s = Sc_end \<Longrightarrow> sr_result s = None \<Longrightarrow>
    spsc_main_step c s (spsc_finish c s)"

definition spsc_run_step :: "config \<Rightarrow> spsc_run \<Rightarrow> spsc_run \<Rightarrow> bool" where
  "spsc_run_step c s t \<longleftrightarrow> spsc_producer_step c s t \<or> spsc_consumer_step c s t \<or> spsc_main_step c s t"

text \<open>The outcomes of \<open>run_spsc\<close>: the returned value, the recorder, and the line printed (if any).\<close>

definition run_spsc :: "config \<Rightarrow> recorder \<Rightarrow> bool \<Rightarrow> recorder \<Rightarrow> string \<Rightarrow> bool" where
  "run_spsc c failures passed failures' printed \<longleftrightarrow>
     (case spsc_retry c failures of
        Inl e \<Rightarrow> False
      | Inr (False, f) \<Rightarrow> \<not> passed \<and> failures' = f \<and> printed = []
      | Inr (True, f) \<Rightarrow> \<exists>s0 s. spsc_run_init c f s0 \<and> (spsc_run_step c)\<^sup>*\<^sup>* s0 s \<and>
          sr_result s = Some (passed, printed) \<and> sr_failures s = failures')"

subsection \<open>Invariant\<close>

definition spsc_sent :: "config \<Rightarrow> nat \<Rightarrow> byte list" where
  "spsc_sent c i = make_payload c 0 (of_nat (Suc i)) (of_nat (Suc i))"

text \<open>
  Between calls the producer's \<open>sequence\<close> is the number of publications plus one; in a call it is
  working on that payload, and a result says whether it was published.
\<close>

fun sp_inside_ok :: "config \<Rightarrow> u64 \<Rightarrow> u64 \<Rightarrow> nat \<Rightarrow> spsc_producer \<Rightarrow> bool" where
  "sp_inside_ok c sq pub k P_idle = False"
| "sp_inside_ok c sq pub k (P_check payload head) \<longleftrightarrow> payload = spsc_sent c k \<and>
     k < unat (cfg_iterations c) \<and> sq = of_nat (Suc k) \<and> pub = of_nat k"
| "sp_inside_ok c sq pub k (P_write payload head todo) \<longleftrightarrow> payload = spsc_sent c k \<and>
     k < unat (cfg_iterations c) \<and> sq = of_nat (Suc k) \<and> pub = of_nat k"
| "sp_inside_ok c sq pub k (P_done r) \<longleftrightarrow>
     r = write_res Full 0 \<and> sq = of_nat (Suc k) \<and> pub = of_nat k \<or>
     0 < k \<and> r = write_res Success (of_nat k) \<and> sq = of_nat k \<and> pub = of_nat (k - 1)"

definition sp_ok :: "config \<Rightarrow> spsc_run \<Rightarrow> bool" where
  "sp_ok c s \<longleftrightarrow> (let k = published (sr_q s) in k \<le> unat (cfg_iterations c) \<and>
     (if sr_producer s = Sp_push then sp_inside_ok c (sr_sequence s) (sr_published s) k (ss_producer (sr_q s))
      else ss_producer (sr_q s) = P_idle \<and> sr_sequence s = of_nat (Suc k) \<and> sr_published s = of_nat k) \<and>
     ss_pushed (sr_q s) = map (spsc_sent c) [0..<k] \<and> (sr_done s \<longleftrightarrow> sr_producer s = Sp_end))"

fun sc_inside_ok :: "config \<Rightarrow> u64 \<Rightarrow> nat \<Rightarrow> spsc_consumer \<Rightarrow> bool" where
  "sc_inside_ok c popped j C_idle = False"
| "sc_inside_ok c popped j (C_check dest tail) \<longleftrightarrow> length dest = unat (cfg_payload_size c) \<and> popped = of_nat j"
| "sc_inside_ok c popped j (C_read dest tail r) \<longleftrightarrow> length dest = unat (cfg_payload_size c) \<and> popped = of_nat j"
| "sc_inside_ok c popped j (C_done r d) \<longleftrightarrow>
     r = read_res Empty 0 0 \<and> popped = of_nat j \<or>
     0 < j \<and> r = read_res Success (unat (cfg_payload_size c)) (of_nat j) \<and> d = spsc_sent c (j - 1) \<and>
       popped = of_nat (j - 1)"

definition sc_ok :: "config \<Rightarrow> spsc_run \<Rightarrow> bool" where
  "sc_ok c s \<longleftrightarrow> (let j = consumed (sr_q s) in
     (if sr_consumer s = Sc_pop then sc_inside_ok c (sr_popped s) j (ss_consumer (sr_q s))
      else ss_consumer (sr_q s) = C_idle \<and> sr_popped s = of_nat j) \<and>
     (sr_seen_done s \<longrightarrow> sr_done s \<and> ss_head_view (sr_q s) = published (sr_q s)) \<and>
     (sr_consumer s = Sc_empty \<longrightarrow> sr_seen_done s) \<and>
     (sr_consumer s = Sc_end \<longrightarrow> sr_seen_done s \<and> j = published (sr_q s)))"

definition spsc_run_inv :: "config \<Rightarrow> recorder \<Rightarrow> spsc_run \<Rightarrow> bool" where
  "spsc_run_inv c f s \<longleftrightarrow> check_config c = None \<and>
     ss_inv max_payload_size (ucast (cfg_capacity c)) (sr_q s) \<and> sp_ok c s \<and> sc_ok c s \<and> sr_failures s = f \<and>
     (sr_start s \<or> sr_producer s = Sp_wait \<and> sr_consumer s = Sc_wait) \<and>
     (\<forall>r out. sr_result s = Some (r, out) \<longrightarrow> r = (\<not> fr_failed f) \<and> sr_producer s = Sp_end \<and> sr_consumer s = Sc_end)"

section \<open>Steps of the queue inside a call\<close>

lemma pstep_frame:
  "spsc_pstep N cap q q' \<Longrightarrow> ss_consumer q' = ss_consumer q \<and> ss_tail q' = ss_tail q \<and> ss_head_view q' = ss_head_view q"
  by (induction rule: spsc_pstep.induct) simp_all

lemma cstep_frame:
  "spsc_cstep cap q q' \<Longrightarrow> ss_producer q' = ss_producer q \<and> ss_head q' = ss_head q \<and> ss_pushed q' = ss_pushed q"
  by (induction rule: spsc_cstep.induct) simp_all

lemma length_spsc_sent: "check_config c = None \<Longrightarrow> length (spsc_sent c i) = unat (cfg_payload_size c)"
  using checked_bounds(7) by (simp add: spsc_sent_def length_make_payload)

lemma spsc_sent_fits: "check_config c = None \<Longrightarrow> length (spsc_sent c i) \<le> max_payload_size"
  using checked_bounds(8) by (simp add: length_spsc_sent max_payload_size_def)

lemma run_lifetime:
  assumes "check_config c = None" "published q \<le> unat (cfg_iterations c)"
  shows "spsc_lifetime cap q"
  using assms checked_bounds(2) [OF assms(1)] by (simp add: spsc_lifetime_def)

lemma sp_inside_step:
  assumes inv: "ss_inv max_payload_size cap q"
    and ok: "sp_inside_ok c sq pub (published q) (ss_producer q)" "published q \<le> unat (cfg_iterations c)"
    and pushed: "ss_pushed q = map (spsc_sent c) [0..<published q]"
    and step: "spsc_pstep max_payload_size cap q q'" "\<And>r. ss_producer q \<noteq> P_done r"
  shows "sp_inside_ok c sq pub (published q') (ss_producer q') \<and> published q' \<le> unat (cfg_iterations c) \<and>
    ss_pushed q' = map (spsc_sent c) [0..<published q']"
  using step(1)
proof cases
  case (p_publish payload head)
  have "length (ss_head q) = Suc (published q)"
    using inv arg_cong [of "ss_head q" _ length] by (simp add: ss_inv_def ss_counters_def)
  then have "published q' = Suc (published q)" using p_publish(1) by (simp add: published_def)
  moreover have "head = of_nat (published q)" using inv p_publish by (simp add: ss_inv_def)
  ultimately show ?thesis using ok(1) pushed p_publish by (simp add: add.commute)
qed (use ok pushed step(2) in auto)

lemma c_done_value:
  assumes "check_config c = None" "ss_inv max_payload_size cap q" "ss_consumer q = C_read dest tail (Read_done r d)"
    and pushed: "ss_pushed q = map (spsc_sent c) [0..<published q]"
    and dest: "length dest = unat (cfg_payload_size c)"
  shows "r = read_res Success (unat (cfg_payload_size c)) (of_nat (Suc (consumed q))) \<and> d = spsc_sent c (consumed q)"
proof -
  have j: "consumed q < published q" "tail = of_nat (consumed q)"
    and rd: "fm_reading (ss_pushed q ! consumed q) (tail + 1) dest (Read_done r d)"
    using assms(2,3) by (auto simp: ss_inv_def ss_counters_def)
  have "ss_pushed q ! consumed q = spsc_sent c (consumed q)" using j(1) by (simp add: pushed)
  then show ?thesis
    using rd j(2) dest by (simp add: length_spsc_sent [OF assms(1)] copy_n_def add.commute)
qed

lemma sc_inside_step:
  assumes chk: "check_config c = None" and inv: "ss_inv max_payload_size cap q"
    and ok: "sc_inside_ok c popped (consumed q) (ss_consumer q)"
    and pushed: "ss_pushed q = map (spsc_sent c) [0..<published q]"
    and step: "spsc_cstep cap q q'" "\<And>r d. ss_consumer q \<noteq> C_done r d"
  shows "sc_inside_ok c popped (consumed q') (ss_consumer q')"
  using step(1)
proof cases
  case (c_release dest tail res d)
  have "length (ss_tail q) = Suc (consumed q)"
    using inv arg_cong [of "ss_tail q" _ length] by (simp add: ss_inv_def ss_counters_def)
  then have "consumed q' = Suc (consumed q)" using c_release(1) by (simp add: consumed_def)
  then show ?thesis
    using ok c_release c_done_value [OF chk inv c_release(2) pushed] by simp
next
  case (c_keep dest tail res d)
  then show ?thesis using ok c_done_value [OF chk inv c_keep(2) pushed] by simp
qed (use ok step(2) in auto)

lemma seen_head:
  assumes inv: "ss_inv N cap q" and step: "spsc_cstep cap q q'" and seen: "ss_head_view q = published q"
  shows "ss_head_view q' = published q"
proof -
  have "length (ss_head q) = Suc (published q)"
    using inv arg_cong [of "ss_head q" _ length] by (simp add: ss_inv_def ss_counters_def)
  with step show ?thesis using seen by cases (auto simp: at_load_def)
qed

section \<open>Every step of the run keeps the invariant\<close>

lemma spsc_run_invD:
  assumes "spsc_run_inv c f s"
  shows "check_config c = None" "ss_inv max_payload_size (ucast (cfg_capacity c)) (sr_q s)" "sp_ok c s" "sc_ok c s"
    "sr_failures s = f" "sr_start s \<or> sr_producer s = Sp_wait \<and> sr_consumer s = Sc_wait"
    "sr_result s = Some (r, out) \<Longrightarrow> r = (\<not> fr_failed f) \<and> sr_producer s = Sp_end \<and> sr_consumer s = Sc_end"
    "ss_pushed (sr_q s) = map (spsc_sent c) [0..<published (sr_q s)]"
    "published (sr_q s) \<le> unat (cfg_iterations c)"
  using assms by (auto simp: spsc_run_inv_def sp_ok_def Let_def)

lemma of_nat_inj_64: "i < 2 ^ 64 \<Longrightarrow> j < 2 ^ 64 \<Longrightarrow> (of_nat i :: u64) = of_nat j \<longleftrightarrow> i = j"
  using unat_of_nat_64 by metis

lemma spsc_producer_step_inv:
  assumes inv: "spsc_run_inv c f s" and step: "spsc_producer_step c s t"
  shows "spsc_run_inv c f t"
proof -
  let ?cap = "ucast (cfg_capacity c) :: u64"
  note I = spsc_run_invD [OF inv]
  note unf = sp_ok_def sc_ok_def Let_def
  have start: "sr_start s" if "sr_producer s \<noteq> Sp_wait" using I(6) that by blast
  have running: "\<not> sr_done s" "\<not> sr_seen_done s" "sr_consumer s \<noteq> Sc_empty" "sr_consumer s \<noteq> Sc_end"
    "\<And>r out. sr_result s \<noteq> Some (r, out)"
    if "sr_producer s \<noteq> Sp_end"
    using I(3,4,7) that by (auto simp: unf)
  have queue: "ss_inv max_payload_size ?cap q \<and> consumed q = consumed (sr_q s) \<and> ss_consumer q = ss_consumer (sr_q s)"
    if "spsc_pstep max_payload_size ?cap (sr_q s) q" "published q \<le> unat (cfg_iterations c)" for q
    using ss_inv_pstep [OF I(2) that(1) run_lifetime [OF I(1) that(2)]] pstep_frame [OF that(1)]
    by (simp add: consumed_def)
  from step show ?thesis
  proof cases
    case sp_start
    then show ?thesis using inv by (auto simp: spsc_run_inv_def unf)
  next
    case sp_leave
    then show ?thesis using inv by (auto simp: spsc_run_inv_def unf)
  next
    case (sp_call payload q head)
    have k: "ss_producer (sr_q s) = P_idle" "sr_sequence s = of_nat (Suc (published (sr_q s)))"
      "sr_published s = of_nat (published (sr_q s))"
      using I(3) sp_call(2) by (auto simp: unf)
    have small: "Suc (published (sr_q s)) < 2 ^ 64" using I(9) checked_bounds(2) [OF I(1)] by simp
    have payload: "payload = spsc_sent c (published (sr_q s))"
      using sp_call(4) k(2) by (simp add: spsc_sent_def)
    then obtain h where q: "ss_producer q = P_check payload h"
      using sp_call(6) spsc_sent_fits [OF I(1), of "published (sr_q s)"] by auto
    have lt: "published (sr_q s) < unat (cfg_iterations c)"
      using sp_call(3) k(2) small by (simp add: word_le_nat_alt unat_of_nat_64 del: of_nat_Suc)
    have pub: "published q = published (sr_q s)" "ss_pushed q = ss_pushed (sr_q s)"
      using sp_call(5) q k(1) by (cases; simp)+
    show ?thesis
      using I running start queue [OF sp_call(5)] sp_call(1,2) q pub k payload lt
      by (simp add: spsc_run_inv_def unf)
  next
    case (sp_inside q)
    have "sp_inside_ok c (sr_sequence s) (sr_published s) (published (sr_q s)) (ss_producer (sr_q s))" using I(3) sp_inside(2) by (simp add: unf)
    note q = sp_inside_step [OF I(2) this I(9,8) sp_inside(4,3)]
    then show ?thesis
      using I running start queue [OF sp_inside(4)] sp_inside(1,2) q
      by (simp add: spsc_run_inv_def unf)
  next
    case (sp_result r q)
    have ok: "sp_inside_ok c (sr_sequence s) (sr_published s) (published (sr_q s)) (P_done r)" using I(3) sp_result(2,3) by (auto simp: unf)
    have q: "ss_producer q = P_idle" "published q = published (sr_q s)" "ss_pushed q = ss_pushed (sr_q s)"
      using sp_result(4,3) by (cases; simp)+
    let ?k = "published (sr_q s)"
    from ok consider "r = write_res Full 0" "sr_sequence s = of_nat (Suc ?k)" "sr_published s = of_nat ?k"
      | "r = write_res Success (of_nat ?k)" "sr_sequence s = of_nat ?k"
      by auto
    then show ?thesis
      by cases (use I running start queue [OF sp_result(4)] sp_result(1,2) q in
          \<open>simp add: spsc_run_inv_def unf spsc_on_push_def add.commute\<close>)+
  next
    case sp_done
    then show ?thesis using inv start by (auto simp: spsc_run_inv_def unf)
  qed
qed

lemma spsc_consumer_step_inv:
  assumes inv: "spsc_run_inv c f s" and step: "spsc_consumer_step c s t"
  shows "spsc_run_inv c f t"
proof -
  let ?cap = "ucast (cfg_capacity c) :: u64"
  note I = spsc_run_invD [OF inv]
  note unf = sp_ok_def sc_ok_def Let_def
  have start: "sr_start s" if "sr_consumer s \<noteq> Sc_wait" using I(6) that by blast
  have running: "\<And>r out. sr_result s \<noteq> Some (r, out)" if "sr_consumer s \<noteq> Sc_end" using I(7) that by auto
  have cnt: "ss_counters ?cap (sr_q s)" using I(2) by (simp add: ss_inv_def)
  have view: "ss_inv max_payload_size ?cap ((sr_q s)\<lparr>ss_head_view := ts\<rparr>)"
    if "ss_consumer (sr_q s) = C_idle" "ss_head_view (sr_q s) \<le> ts" "ts \<le> published (sr_q s)" for ts
    using I(2) that ss_producer_ok_cong [of "(sr_q s)\<lparr>ss_head_view := ts\<rparr>" "sr_q s"]
    by (simp add: ss_inv_defs spsc_lifetime_def)
  have queue: "ss_inv max_payload_size ?cap q \<and> published q = published (sr_q s) \<and>
      ss_producer q = ss_producer (sr_q s) \<and> ss_pushed q = ss_pushed (sr_q s) \<and>
      (sr_seen_done s \<longrightarrow> ss_head_view q = published (sr_q s))"
    if "spsc_cstep ?cap (sr_q s) q" for q
    using ss_inv_cstep [OF I(2) that] cstep_frame [OF that] seen_head [OF I(2) that] I(4)
    by (simp add: published_def unf)
  from step show ?thesis
  proof cases
    case sc_start
    then show ?thesis using inv by (auto simp: spsc_run_inv_def unf)
  next
    case sc_not_done
    then show ?thesis using inv start by (auto simp: spsc_run_inv_def unf)
  next
    case sc_done
    have idle: "ss_consumer (sr_q s) = C_idle" using I(4) sc_done(2) by (simp add: unf)
    have "ss_head_view (sr_q s) \<le> published (sr_q s)" using cnt by (simp add: ss_counters_def)
    then show ?thesis
      using I running start sc_done(2,3) view [OF idle, of "published (sr_q s)"]
      unfolding sc_done(1) published_def [symmetric] by (simp add: spsc_run_inv_def unf)
  next
    case (sc_empty ts head)
    have idle: "ss_consumer (sr_q s) = C_idle" "ss_head_view (sr_q s) = published (sr_q s)"
      using I(4) sc_empty(2) by (simp_all add: unf)
    have ld: "head = of_nat ts" "ss_head_view (sr_q s) \<le> ts" "ts \<le> published (sr_q s)"
        "of_nat (consumed (sr_q s)) = head \<longleftrightarrow> consumed (sr_q s) = ts"
      using load_head [OF cnt sc_empty(3)] by auto
    have "last (ss_tail (sr_q s)) = of_nat (consumed (sr_q s))"
      using cnt by (simp add: ss_counters_def)
    then show ?thesis
      using I running start sc_empty(1,2) view [OF idle(1) ld(2,3)] ld idle
      by (simp add: spsc_run_inv_def unf) metis
  next
    case (sc_call q tail)
    have idle: "ss_consumer (sr_q s) = C_idle" "sr_popped s = of_nat (consumed (sr_q s))"
      using I(4) sc_call(2) by (simp_all add: unf)
    have "consumed q = consumed (sr_q s)" using sc_call(3,4) idle(1) by (cases; simp)
    then show ?thesis
      using I running start queue [OF sc_call(3)] sc_call(1,2,4) idle by (simp add: spsc_run_inv_def unf)
  next
    case (sc_inside q)
    have "sc_inside_ok c (sr_popped s) (consumed (sr_q s)) (ss_consumer (sr_q s))"
      using I(4) sc_inside(2) by (simp add: unf)
    note q = sc_inside_step [OF I(1,2) this I(8) sc_inside(4,3)]
    then show ?thesis
      using I running start queue [OF sc_inside(4)] sc_inside(1,2) by (simp add: spsc_run_inv_def unf)
  next
    case (sc_result r d q)
    have ok: "sc_inside_ok c (sr_popped s) (consumed (sr_q s)) (C_done r d)"
      using I(4) sc_result(2,3) by (simp add: unf)
    have q: "ss_consumer q = C_idle" "consumed q = consumed (sr_q s)"
      using sc_result(4,3) by (cases; simp)+
    let ?j = "consumed (sr_q s)"
    from ok consider "r = read_res Empty 0 0" "sr_popped s = of_nat ?j"
      | "0 < ?j" "r = read_res Success (unat (cfg_payload_size c)) (of_nat ?j)" "d = spsc_sent c (?j - 1)"
        "sr_popped s = of_nat (?j - 1)"
      by auto
    then show ?thesis
    proof cases
      case 1
      then show ?thesis
        using I running start queue [OF sc_result(4)] sc_result(1,2) q
        by (simp add: spsc_run_inv_def unf spsc_on_pop_def)
    next
      case 2
      have nxt: "sr_popped s + 1 = of_nat ?j" using 2(1,4) by (cases ?j) simp_all
      have "d = make_payload c 0 (of_nat ?j) (of_nat ?j)" using 2(1,3) by (simp add: spsc_sent_def)
      then show ?thesis
        using I running start queue [OF sc_result(4)] sc_result(1,2) q 2(2)
        by (simp add: spsc_run_inv_def unf spsc_on_pop_def nxt)
    qed
  qed
qed

lemma spsc_main_step_inv:
  assumes inv: "spsc_run_inv c f s" and step: "spsc_main_step c s t"
  shows "spsc_run_inv c f t"
  using step
proof cases
  case sm_start
  then show ?thesis using inv by (auto simp: spsc_run_inv_def sp_ok_def sc_ok_def Let_def)
next
  case sm_finish
  then show ?thesis using inv by (auto simp: spsc_run_inv_def sp_ok_def sc_ok_def Let_def spsc_finish_def)
qed

lemma spsc_run_inv_init:
  assumes "check_config c = None" "spsc_run_init c f s"
  shows "spsc_run_inv c f s"
proof -
  have s: "s = \<lparr>sr_q = sr_q s, sr_start = False, sr_done = False, sr_seen_done = False, sr_sequence = 1,
       sr_published = 0, sr_popped = 0, sr_full_retries = 0, sr_empty_retries = 0, sr_failures = f,
       sr_producer = Sp_wait, sr_consumer = Sc_wait, sr_result = None\<rparr>"
    and init: "spsc_sys_init max_payload_size (ucast (cfg_capacity c)) (sr_q s)"
    using assms(2) unfolding spsc_run_init_def by blast+
  have "published (sr_q s) = 0" "consumed (sr_q s) = 0" "ss_producer (sr_q s) = P_idle" "ss_consumer (sr_q s) = C_idle"
      "ss_pushed (sr_q s) = []"
    using init by (auto simp: spsc_sys_init_def published_def consumed_def)
  then show ?thesis
    using ss_inv_init [OF init] assms(1)
    by (subst s) (simp add: spsc_run_inv_def sp_ok_def sc_ok_def Let_def)
qed

interpretation spsc_stress: invariant_system
  "\<lambda>s. check_config c = None \<and> spsc_run_init c f s" "spsc_run_step c" "spsc_run_inv c f"
  for c f
  by unfold_locales
    (auto simp: spsc_run_step_def intro: spsc_run_inv_init spsc_producer_step_inv spsc_consumer_step_inv spsc_main_step_inv)

section \<open>Every run can be finished\<close>

lemma spsc_consumer_run_beside:
  assumes "(spsc_consumer_step c)\<^sup>*\<^sup>* s t"
  shows "sr_start t = sr_start s \<and> sr_producer t = sr_producer s \<and> sr_result t = sr_result s \<and> sr_done t = sr_done s \<and>
    published (sr_q t) = published (sr_q s) \<and> consumed (sr_q s) \<le> consumed (sr_q t)"
  using assms
proof (induction rule: rtranclp_induct)
  case (step t u)
  have c: "published q' = published q \<and> consumed q \<le> consumed q'" if "spsc_cstep cap q q'" for cap q q'
    using that by cases (simp_all add: published_def consumed_def)
  from step(2) show ?case using step(3)
  proof cases
    case (sc_result r d q)
    have "consumed (sr_q s) \<le> consumed q" "published q = published (sr_q s)" using c [OF sc_result(4)] step(3) by auto
    then show ?thesis using step(3) sc_result(1) by (auto simp: spsc_on_pop_def Let_def split: prod.splits)
  qed (auto simp: published_def consumed_def dest!: c)
qed simp

lemma spsc_consumer_run_inv:
  assumes "(spsc_consumer_step c)\<^sup>*\<^sup>* s t" "spsc_run_inv c f s"
  shows "spsc_run_inv c f t"
  using assms by (induction rule: rtranclp_induct) (auto intro: spsc_consumer_step_inv)

text \<open>A pop returns; when messages are left and the consumer sees them, it takes one.\<close>

lemma spsc_pop_takes:
  assumes inv: "spsc_run_inv c f s" "sr_consumer s = Sc_pop" "sr_seen_done s" "consumed (sr_q s) < published (sr_q s)"
    and step: "spsc_cstep (ucast (cfg_capacity c)) (sr_q s) q" "\<And>r d. ss_consumer (sr_q s) \<noteq> C_done r d"
  shows "(\<forall>r d. ss_consumer q \<noteq> C_done r d) \<and> consumed q = consumed (sr_q s) \<or> consumed (sr_q s) < consumed q"
proof -
  note I = spsc_run_invD [OF inv(1)]
  have cnt: "ss_counters (ucast (cfg_capacity c)) (sr_q s)" using I(2) by (simp add: ss_inv_def)
  have view: "ss_head_view (sr_q s) = published (sr_q s)"
    and ok: "sc_inside_ok c (sr_popped s) (consumed (sr_q s)) (ss_consumer (sr_q s))"
    using I(4) inv(2,3) by (simp_all add: sc_ok_def Let_def)
  have small: "published (sr_q s) < 2 ^ 64" using I(9) checked_bounds(2) [OF I(1)] by simp
  from step(1) show ?thesis
  proof cases
    case (c_empty dest tail ts head)
    have "length (ss_head (sr_q s)) = Suc (published (sr_q s))" using cnt by (simp add: ss_counters_def)
    then have "ts = published (sr_q s)" using view c_empty(3) by (simp add: at_load_def)
    then have "head = of_nat (published (sr_q s))" "tail = of_nat (consumed (sr_q s))"
      using cnt c_empty(2,3) I(2) by (auto simp: at_load_def ss_counters_def ss_inv_def)
    then show ?thesis using c_empty(4) inv(4) small of_nat_inj_64 [of "consumed (sr_q s)" "published (sr_q s)"] by simp
  next
    case (c_release dest tail res d)
    have "length (ss_tail (sr_q s)) = Suc (consumed (sr_q s))" using cnt by (simp add: ss_counters_def)
    then show ?thesis using c_release(1) by (simp add: consumed_def)
  next
    case (c_keep dest tail res d)
    then show ?thesis using c_done_value [OF I(1,2) c_keep(2) I(8)] ok by (simp add: ok_def)
  qed (use step(2) in \<open>simp_all add: consumed_def\<close>)
qed

lemma spsc_pop_returns:
  assumes "spsc_run_inv c f s" "sr_consumer s = Sc_pop"
  shows "\<exists>t. (spsc_consumer_step c)\<^sup>*\<^sup>* s t \<and> (sr_consumer t = Sc_loop \<or> sr_consumer t = Sc_end) \<and>
    (sr_seen_done s \<and> consumed (sr_q s) < published (sr_q s) \<and> (\<forall>r d. ss_consumer (sr_q s) \<noteq> C_done r d) \<longrightarrow>
       consumed (sr_q s) < consumed (sr_q t))"
  using assms
proof (induction "c_rank max_payload_size (ss_consumer (sr_q s))" arbitrary: s rule: less_induct)
  case less
  note I = spsc_run_invD [OF less(2)]
  show ?case
  proof (cases "\<exists>r d. ss_consumer (sr_q s) = C_done r d")
    case True
    then obtain r d where r: "ss_consumer (sr_q s) = C_done r d" by blast
    let ?t = "spsc_on_pop c r d (s\<lparr>sr_q := (sr_q s)\<lparr>ss_consumer := C_idle\<rparr>\<rparr>)"
    have "spsc_consumer_step c s ?t" by (rule sc_result [OF less(3) r c_return [OF r]])
    moreover have "sr_consumer ?t = Sc_loop \<or> sr_consumer ?t = Sc_end"
      by (auto simp: spsc_on_pop_def Let_def split: prod.splits)
    ultimately show ?thesis using r by blast
  next
    case False
    then have nd: "\<And>r d. ss_consumer (sr_q s) \<noteq> C_done r d" by blast
    obtain q where q: "spsc_cstep (ucast (cfg_capacity c)) (sr_q s) q" using cstep_enabled [OF I(2)] by blast
    let ?u = "s\<lparr>sr_q := q\<rparr>"
    have step: "spsc_consumer_step c s ?u" by (rule sc_inside [OF less(3) nd q])
    have "ss_consumer (sr_q s) \<noteq> C_idle" using I(4) less(3) by (auto simp: sc_ok_def Let_def)
    then have rank: "c_rank max_payload_size (ss_consumer (sr_q ?u)) < c_rank max_payload_size (ss_consumer (sr_q s))"
      using cstep_rank [OF I(2) q] by simp
    obtain t where t: "(spsc_consumer_step c)\<^sup>*\<^sup>* ?u t" "sr_consumer t = Sc_loop \<or> sr_consumer t = Sc_end"
        "sr_seen_done s \<and> consumed q < published q \<and> (\<forall>r d. ss_consumer q \<noteq> C_done r d) \<longrightarrow> consumed q < consumed (sr_q t)"
      using less(1) [OF rank spsc_consumer_step_inv [OF less(2) step]] less(3) by auto
    have run: "(spsc_consumer_step c)\<^sup>*\<^sup>* s t" using step t(1) by (rule converse_rtranclp_into_rtranclp)
    have "published q = published (sr_q s)" using cstep_frame [OF q] by (simp add: published_def)
    moreover have "consumed q \<le> consumed (sr_q t)" using spsc_consumer_run_beside [OF t(1)] by simp
    ultimately show ?thesis using run t spsc_pop_takes [OF less(2,3) _ _ q nd] by fastforce
  qed
qed

text \<open>After the producer's end: the consumer gets to the emptiness test, and from there to its end.\<close>

lemma spsc_reaches_empty:
  assumes inv: "spsc_run_inv c f s" and dn: "sr_done s" "sr_start s"
  shows "\<exists>t. (spsc_consumer_step c)\<^sup>*\<^sup>* s t \<and> (sr_consumer t = Sc_empty \<or> sr_consumer t = Sc_end)"
proof -
  let ?R = "(spsc_consumer_step c)\<^sup>*\<^sup>*"
  have go: ?thesis if "?R s t" "sr_consumer t = Sc_empty \<or> sr_consumer t = Sc_end" for t using that by blast
  have loop: ?thesis if u: "?R s u" "sr_consumer u = Sc_loop" for u
  proof -
    have "sr_done u" using spsc_consumer_run_beside [OF u(1)] dn by simp
    note step = sc_done [OF u(2) this, of c]
    show ?thesis by (rule go [OF rtranclp.rtrancl_into_rtrancl [OF u(1) step]]) simp
  qed
  have pop: ?thesis if u: "?R s u" "sr_consumer u = Sc_pop" for u
    using spsc_pop_returns [OF spsc_consumer_run_inv [OF u(1) inv] u(2)] u(1) loop go by (meson rtranclp_trans)
  show ?thesis
  proof (cases "sr_consumer s")
    case Sc_wait
    have "?R s (s\<lparr>sr_consumer := Sc_loop\<rparr>)" using sc_start [OF Sc_wait dn(2), of c] by blast
    then show ?thesis by (rule loop) simp
  next
    case Sc_body
    then have "ss_consumer (sr_q s) = C_idle" using spsc_run_invD(4) [OF inv] by (simp add: sc_ok_def Let_def)
    note step = sc_call [OF Sc_body c_load_tail [OF this refl, of _ "replicate (unat (cfg_payload_size c)) 0"]]
    have "?R s (s\<lparr>sr_q := (sr_q s)\<lparr>ss_consumer := C_check (replicate (unat (cfg_payload_size c)) 0) (last (ss_tail (sr_q s)))\<rparr>, sr_consumer := Sc_pop\<rparr>)"
      using step by auto
    then show ?thesis by (rule pop) simp
  qed (use loop pop go in blast)+
qed

lemma spsc_empty_ends:
  assumes "spsc_run_inv c f s" "sr_consumer s = Sc_empty" "sr_start s"
  shows "\<exists>t. (spsc_consumer_step c)\<^sup>*\<^sup>* s t \<and> sr_consumer t = Sc_end"
  using assms
proof (induction "published (sr_q s) - consumed (sr_q s)" arbitrary: s rule: less_induct)
  case less
  let ?R = "(spsc_consumer_step c)\<^sup>*\<^sup>*" and ?q = "sr_q s"
  note I = spsc_run_invD [OF less(2)]
  have cnt: "ss_counters (ucast (cfg_capacity c)) ?q" using I(2) by (simp add: ss_inv_def)
  have seen: "sr_seen_done s" "sr_done s" "ss_head_view ?q = published ?q" "ss_consumer ?q = C_idle"
    using I(4) less(3) by (simp_all add: sc_ok_def Let_def)
  let ?head = "ss_head ?q ! published ?q"
  let ?u = "s\<lparr>sr_q := ?q\<lparr>ss_head_view := published ?q\<rparr>, sr_consumer := (if ?head = last (ss_tail ?q) then Sc_end else Sc_body)\<rparr>"
  have "at_load (ss_head ?q) (ss_head_view ?q) (published ?q) ?head"
    using cnt seen(3) by (simp add: at_load_def ss_counters_def)
  then have u: "?R s ?u" using sc_empty [OF less(3)] by blast
  show ?case
  proof (cases "?head = last (ss_tail ?q)")
    case True
    then show ?thesis using u by (intro exI [of _ ?u]) simp
  next
    case False
    have "?head = of_nat (published ?q)" "last (ss_tail ?q) = of_nat (consumed ?q)" "consumed ?q \<le> published ?q"
      using cnt by (simp_all add: ss_counters_def)
    then have left: "consumed ?q < published ?q" using False by (metis le_neq_implies_less)
    have body: "sr_consumer ?u = Sc_body" "ss_consumer (sr_q ?u) = C_idle" "sr_q ?u = ?q" using False seen(3,4) by simp_all
    let ?dest = "replicate (unat (cfg_payload_size c)) (0 :: byte)"
    let ?v = "?u\<lparr>sr_q := (sr_q ?u)\<lparr>ss_consumer := C_check ?dest (last (ss_tail (sr_q ?u)))\<rparr>, sr_consumer := Sc_pop\<rparr>"
    have "spsc_consumer_step c ?u ?v" by (rule sc_call [OF body(1) c_load_tail [OF body(2) refl]]) simp
    with u have v: "?R s ?v" by (rule rtranclp.rtrancl_into_rtrancl)
    have Iv: "spsc_run_inv c f ?v" by (rule spsc_consumer_run_inv [OF v less(2)])
    obtain w where w: "?R ?v w" "consumed ?q < consumed (sr_q w)"
      using spsc_pop_returns [OF Iv] seen(1) left by (auto simp: consumed_def published_def)
    have sw: "?R s w" using v w(1) by simp
    have Iw: "spsc_run_inv c f w" by (rule spsc_consumer_run_inv [OF sw less(2)])
    have W: "sr_done w" "sr_start w" using spsc_consumer_run_beside [OF sw] seen(2) less(4) by simp_all
    obtain x where x: "?R w x" "sr_consumer x = Sc_empty \<or> sr_consumer x = Sc_end" using spsc_reaches_empty [OF Iw W] by blast
    have sx: "?R s x" using sw x(1) by simp
    have "published (sr_q x) - consumed (sr_q x) < published ?q - consumed ?q"
      using spsc_consumer_run_beside [OF sx] spsc_consumer_run_beside [OF x(1)] w(2) left by linarith
    then have "\<exists>t. ?R x t \<and> sr_consumer t = Sc_end"
      using less(1) [OF _ spsc_consumer_run_inv [OF sx less(2)]] x(2) spsc_consumer_run_beside [OF sx] less(4) by blast
    then show ?thesis using sx by (meson rtranclp_trans)
  qed
qed

lemma spsc_producer_ends:
  assumes "spsc_run_inv c f s" "sr_start s"
  shows "\<exists>t. (spsc_producer_step c)\<^sup>*\<^sup>* s t \<and> sr_producer t = Sp_end \<and> sr_start t \<and> sr_result t = sr_result s"
proof -
  let ?R = "(spsc_producer_step c)\<^sup>*\<^sup>*"
  let ?Q = "\<lambda>s t. sr_start t \<and> sr_result t = sr_result s"
  have exit: "\<exists>t. ?R s t \<and> sr_producer t = Sp_end \<and> ?Q s t" if "sr_producer s = Sp_exit" "sr_start s" for s
    using sp_done [OF that(1)] that(2) by (intro exI conjI [OF r_into_rtranclp]) auto
  have loop: "\<exists>t. ?R s t \<and> sr_producer t = Sp_end \<and> ?Q s t" if "sr_producer s = Sp_loop" "sr_start s" for s
    using sp_leave [OF that(1), of c] exit [of "s\<lparr>sr_producer := Sp_exit\<rparr>"] that(2)
    by (auto intro: converse_rtranclp_into_rtranclp)
  have push: "\<exists>t. ?R s t \<and> sr_producer t = Sp_end \<and> ?Q s t"
    if "spsc_run_inv c f s" "sr_start s" "sr_producer s = Sp_push" for s
    using that
  proof (induction "p_rank (ss_producer (sr_q s))" arbitrary: s rule: less_induct)
    case less
    note I = spsc_run_invD [OF less(2)]
    obtain q where q: "spsc_pstep max_payload_size (ucast (cfg_capacity c)) (sr_q s) q" using pstep_enabled [OF I(2)] by blast
    show ?case
    proof (cases "\<exists>r. ss_producer (sr_q s) = P_done r")
      case True
      then obtain r where r: "ss_producer (sr_q s) = P_done r" by blast
      let ?t = "spsc_on_push c r (s\<lparr>sr_q := q\<rparr>)"
      have step: "spsc_producer_step c s ?t" by (rule sp_result [OF less(4) r q])
      have "sr_producer ?t = Sp_loop \<or> sr_producer ?t = Sp_exit" "sr_start ?t" "sr_result ?t = sr_result s"
        using less(3) by (simp_all add: spsc_on_push_def)
      then have "\<exists>t. ?R ?t t \<and> sr_producer t = Sp_end \<and> ?Q s t" using loop [of ?t] exit [of ?t] by auto
      then show ?thesis using step by (meson converse_rtranclp_into_rtranclp)
    next
      case False
      then have step: "spsc_producer_step c s (s\<lparr>sr_q := q\<rparr>)" by (intro sp_inside [OF less(4) _ q]) blast
      have "ss_producer (sr_q s) \<noteq> P_idle" using I(3) less(4) by (auto simp: sp_ok_def Let_def)
      then have "\<exists>t. ?R (s\<lparr>sr_q := q\<rparr>) t \<and> sr_producer t = Sp_end \<and> ?Q s t"
        using less(1) [of "s\<lparr>sr_q := q\<rparr>"] pstep_rank [OF q] spsc_producer_step_inv [OF less(2) step] less(3,4) by simp
      then show ?thesis using step by (meson converse_rtranclp_into_rtranclp)
    qed
  qed
  show ?thesis
  proof (cases "sr_producer s")
    case Sp_wait
    then show ?thesis
      using sp_start [OF Sp_wait assms(2), of c] loop [of "s\<lparr>sr_producer := Sp_loop\<rparr>"] assms(2)
      by (auto intro: converse_rtranclp_into_rtranclp)
  qed (use loop exit push assms in blast)+
qed

lemma spsc_can_finish:
  assumes inv: "spsc_run_inv c f s"
  shows "\<exists>t r. (spsc_run_step c)\<^sup>*\<^sup>* s t \<and> sr_result t = Some r"
proof -
  let ?R = "(spsc_run_step c)\<^sup>*\<^sup>*"
  have reach: "spsc_run_inv c f t" if "?R s t" for t
    using that inv by (induction rule: rtranclp_induct)
      (auto simp: spsc_run_step_def intro: spsc_producer_step_inv spsc_consumer_step_inv spsc_main_step_inv)
  obtain t where t: "?R s t" "sr_start t"
  proof (cases "sr_start s")
    case False
    have "spsc_run_step c s (s\<lparr>sr_start := True\<rparr>)" using sm_start [OF False] by (simp add: spsc_run_step_def)
    then have "?R s (s\<lparr>sr_start := True\<rparr>)" by blast
    then show ?thesis by (rule that) simp
  qed (use that in blast)
  obtain u where u: "(spsc_producer_step c)\<^sup>*\<^sup>* t u" "sr_producer u = Sp_end" "sr_start u"
    using spsc_producer_ends [OF reach [OF t(1)] t(2)] by blast
  have "?R t u" using u(1) by (rule rtranclp_mono [THEN predicate2D, rotated]) (auto simp: spsc_run_step_def)
  then have su: "?R s u" using t(1) by simp
  have dn: "sr_done u" using spsc_run_invD(3) [OF reach [OF su]] u(2) by (simp add: sp_ok_def Let_def)
  obtain v where v: "(spsc_consumer_step c)\<^sup>*\<^sup>* u v" "sr_consumer v = Sc_empty \<or> sr_consumer v = Sc_end"
    using spsc_reaches_empty [OF reach [OF su] dn u(3)] by blast
  have "\<exists>w. (spsc_consumer_step c)\<^sup>*\<^sup>* v w \<and> sr_consumer w = Sc_end"
    using v spsc_empty_ends [OF spsc_consumer_run_inv [OF v(1) reach [OF su]]] spsc_consumer_run_beside [OF v(1)] u(3) by blast
  then obtain w where w: "(spsc_consumer_step c)\<^sup>*\<^sup>* u w" "sr_consumer w = Sc_end" using v(1) by (meson rtranclp_trans)
  have "?R u w" using w(1) by (rule rtranclp_mono [THEN predicate2D, rotated]) (auto simp: spsc_run_step_def)
  then have sw: "?R s w" using su by simp
  show ?thesis
  proof (cases "sr_result w")
    case None
    have "sr_start w" "sr_producer w = Sp_end" using spsc_consumer_run_beside [OF w(1)] u by simp_all
    then have "spsc_run_step c w (spsc_finish c w)" using sm_finish w(2) None by (simp add: spsc_run_step_def)
    moreover have "\<exists>r. sr_result (spsc_finish c w) = Some r" by (simp add: spsc_finish_def Let_def)
    ultimately show ?thesis using sw by (meson rtranclp.rtrancl_into_rtrancl)
  qed (use sw in blast)
qed

section \<open>The undersized read\<close>

lemma spsc_retry_passes:
  assumes chk: "check_config c = None"
  shows "spsc_retry c f = Inr (True, f)"
proof -
  let ?n = "unat (cfg_payload_size c)" and ?p = "make_payload c 0 1 1"
  have n: "32 \<le> ?n" "?n \<le> 256" "length ?p = ?n"
    using checked_bounds(7,8) [OF chk] length_make_payload by blast+
  then have "cfg_payload_size c \<noteq> 0" by auto
  then have short: "unat (cfg_payload_size c - 1) = ?n - 1" by (simp add: unat_minus_one)
  obtain q0 where q0: "spsc_make max_payload_size 1 = Inr q0" "spsc_inv max_payload_size q0" "spsc_contents q0 = []"
      "spsc_capacity q0 = 1" "spsc_head q0 = 0" "spsc_tail q0 = 0"
    by (rule spsc_make_inv [of 1 max_payload_size]) auto
  have room: "spsc_room q0 (Suc 0)" using q0 by (simp add: spsc_room_def ring_safe_def)
  have cnt: "spsc_count q0 < unat (spsc_capacity q0)" using q0 by (simp add: spsc_count_def)
  obtain q where q: "spsc_try_push max_payload_size q0 ?p = (write_res Success 1, q)" "spsc_inv max_payload_size q"
      "spsc_contents q = [?p]" "spsc_tail q = 0"
    by (rule spsc_push_success [OF q0(2) _ cnt room, of ?p]) (use q0 n in \<open>simp_all add: max_payload_size_def\<close>)
  obtain q' where "spsc_try_pop q (replicate ?n 0) = (read_res Success ?n 1, ?p, q')"
    using spsc_pop_result [OF q(2,3), of "replicate ?n 0"] q(4) n by (auto simp: copy_n_def)
  moreover have "spsc_try_pop q (replicate (?n - 1) 0) = (read_res Message_too_large 0 1, replicate (?n - 1) 0, q)"
    using spsc_pop_result [OF q(2,3), of "replicate (?n - 1) 0"] q(4) n by simp
  ultimately show ?thesis using q0(1) q(1) short by (simp add: spsc_retry_def)
qed

section \<open>Outcomes\<close>

lemma spsc_run_reach:
  assumes "check_config c = None" "spsc_run_init c f s0" "(spsc_run_step c)\<^sup>*\<^sup>* s0 s"
  shows "spsc_run_inv c f s"
  using spsc_stress.run_inv [OF assms(3)] spsc_run_inv_init [OF assms(1,2)] by blast

lemma spsc_run_ended:
  assumes "spsc_run_inv c f s" "sr_producer s = Sp_end" "sr_consumer s = Sc_end"
  shows "sr_popped s = sr_published s \<and> unat (sr_published s) \<le> unat (cfg_iterations c) \<and>
    consumed (sr_q s) = published (sr_q s) \<and> sr_published s = of_nat (published (sr_q s))"
proof -
  note I = spsc_run_invD [OF assms(1)]
  have "published (sr_q s) < 2 ^ 64" using I(9) checked_bounds(2) [OF I(1)] by simp
  then show ?thesis using assms(2,3) I(3,4,9) by (simp add: sp_ok_def sc_ok_def Let_def unat_of_nat_64)
qed

lemma run_spsc_outcome:
  assumes "check_config c = None" "run_spsc c f passed f' printed"
  shows "f' = f \<and> passed = (\<not> fr_failed f)"
proof -
  obtain s0 s where s: "spsc_run_init c f s0" "(spsc_run_step c)\<^sup>*\<^sup>* s0 s" "sr_result s = Some (passed, printed)"
      "sr_failures s = f'"
    using assms(2) by (auto simp: run_spsc_def spsc_retry_passes [OF assms(1)])
  note I = spsc_run_invD [OF spsc_run_reach [OF assms(1) s(1,2)]]
  show ?thesis using I(5) I(7) [OF s(3)] s(4) by simp
qed

lemma spsc_init_possible:
  assumes "check_config c = None"
  shows "\<exists>s. spsc_run_init c f s"
proof -
  have "(ucast (cfg_capacity c) :: u64) \<noteq> 0"
    using checked_bounds(9) [OF assms] unat_ucast_u32 [of "cfg_capacity c"] by (metis less_irrefl unsigned_0)
  then show ?thesis by (auto simp: spsc_run_init_def spsc_sys_init_def intro!: exI)
qed

lemma run_spsc_possible:
  assumes chk: "check_config c = None"
  shows "\<exists>s0 s printed. spsc_run_init c f s0 \<and> (spsc_run_step c)\<^sup>*\<^sup>* s0 s \<and>
    sr_result s = Some (\<not> fr_failed f, printed) \<and> sr_failures s = f"
proof -
  obtain s0 where s0: "spsc_run_init c f s0" using spsc_init_possible [OF chk] by blast
  obtain s r printed where s: "(spsc_run_step c)\<^sup>*\<^sup>* s0 s" "sr_result s = Some (r, printed)"
    using spsc_can_finish [OF spsc_run_inv_init [OF chk s0]] by force
  note I = spsc_run_invD [OF spsc_run_reach [OF chk s0 s(1)]]
  show ?thesis using s0 s I(5) I(7) [OF s(2)] by blast
qed

section \<open>Properties\<close>

text \<open>
  C33: The SPSC stress run accepts the queue: for every accepted configuration, every schedule and
  every moment of the deadline, the undersized-read check passes, no failure is ever recorded, a
  run without a result can be continued to one, and when it ends it reports success (unless a
  failure was on record before), and the messages popped are exactly those pushed, in order.
\<close>

theorem stress_spsc_passes:
  assumes "check_config c = None" "spsc_run_init c f s0" "(spsc_run_step c)\<^sup>*\<^sup>* s0 s"
  shows "spsc_retry c f = Inr (True, f) \<and> sr_failures s = f \<and>
    (case sr_result s of
       None \<Rightarrow> \<exists>t r. (spsc_run_step c)\<^sup>*\<^sup>* s t \<and> sr_result t = Some r
     | Some (passed, printed) \<Rightarrow> passed = (\<not> fr_failed f) \<and> sr_popped s = sr_published s \<and>
         map (\<lambda>(dest, res, d). take (rr_bytes_read res) d) (ss_popped (sr_q s)) =
           map (\<lambda>i. make_payload c 0 (of_nat i) (of_nat i)) [1..<Suc (unat (sr_published s))])"
proof -
  have inv: "spsc_run_inv c f s" by (rule spsc_run_reach [OF assms])
  note I = spsc_run_invD [OF inv]
  have "passed = (\<not> fr_failed f) \<and> sr_popped s = sr_published s \<and>
         map (\<lambda>(dest, res, d). take (rr_bytes_read res) d) (ss_popped (sr_q s)) =
           map (\<lambda>i. make_payload c 0 (of_nat i) (of_nat i)) [1..<Suc (unat (sr_published s))]"
    if "sr_result s = Some (passed, printed)" for passed printed
  proof -
    note e = spsc_run_ended [OF inv] and r = I(7) [OF that]
    have "map (\<lambda>(dest, res, d). take (rr_bytes_read res) d) (ss_popped (sr_q s)) = ss_pushed (sr_q s)"
      using delivered_payloads [OF I(2)] e r I(2) by (simp add: ss_inv_def ss_counters_def)
    moreover have "unat (sr_published s) = published (sr_q s)"
      using e r I(9) checked_bounds(2) [OF I(1)] by (simp add: unat_of_nat_64)
    moreover have "map (spsc_sent c) [0..<n] = map (\<lambda>i. make_payload c 0 (of_nat i) (of_nat i)) [1..<Suc n]" for n
      by (simp only: One_nat_def map_Suc_upt [symmetric] map_map) (simp add: spsc_sent_def o_def)
    ultimately show ?thesis using e r I(8) by simp
  qed
  then show ?thesis
    using spsc_retry_passes [OF assms(1)] I(5) spsc_can_finish [OF inv] by (auto split: option.split)
qed

theorem stress_spsc_passes_witness:
  "\<exists>s0 s printed. spsc_run_init default_config None s0 \<and> (spsc_run_step default_config)\<^sup>*\<^sup>* s0 s \<and>
     sr_result s = Some (True, printed) \<and> sr_popped s = sr_published s"
proof -
  have chk: "check_config default_config = None" by code_simp
  obtain s0 s printed where s: "spsc_run_init default_config None s0" "(spsc_run_step default_config)\<^sup>*\<^sup>* s0 s"
      "sr_result s = Some (\<not> fr_failed None, printed)"
    using run_spsc_possible [OF chk] by blast
  then show ?thesis using stress_spsc_passes [OF chk s(1,2)] by (auto simp: fr_failed_def)
qed

end
