(* ===== verification/Stress_Ledger.thy ===== *)
theory Stress_Ledger
  imports Stress_Payload
begin

text \<open>
  What \<open>run_blocking\<close> and \<open>run_mpmc\<close> of \<open>stress/queue_stress.cpp\<close> share: the numbering of the
  messages of all producers, the range check of a received header, the \<open>published\<close> and \<open>consumed\<close>
  membership vectors and their comparison at the end. \<open>ledger\<close> says how the vectors, the messages
  in the consumers' hands and the messages taken from a queue fit together.
\<close>

section \<open>Definitions\<close>

definition global_sequence :: "config \<Rightarrow> u32 \<Rightarrow> u64 \<Rightarrow> u64" where
  "global_sequence c producer_id local_sequence = ucast producer_id * cfg_iterations c + local_sequence"

definition in_range :: "config \<Rightarrow> payload_header \<Rightarrow> bool" where
  "in_range c header \<longleftrightarrow> ph_producer_id header < cfg_producers c \<and>
     1 \<le> ph_local_sequence header \<and> ph_local_sequence header \<le> cfg_iterations c \<and>
     ph_global_sequence header = global_sequence c (ph_producer_id header) (ph_local_sequence header)"

definition total_slots :: "config \<Rightarrow> u64" where
  "total_slots c = cfg_iterations c * ucast (cfg_producers c)"

definition membership :: "config \<Rightarrow> byte list" where
  "membership c = replicate (unat (total_slots c + 1)) 0"

text \<open>The loop over the two vectors at the end of a run; \<open>missing\<close> counts the differences.\<close>

definition compare_step ::
    "string \<Rightarrow> config \<Rightarrow> byte list \<Rightarrow> byte list \<Rightarrow> nat \<Rightarrow> u64 \<times> recorder \<Rightarrow> u64 \<times> recorder" where
  "compare_step queue c published consumed index = (\<lambda>(missing, failures).
     if published ! index \<noteq> consumed ! index
     then (missing + 1,
       if \<not> fr_failed failures
       then fr_record failures (failure_of queue (cfg_seed c) (of_nat index) (ucast (published ! index))
         (ucast (consumed ! index)) 0 0 ''published/consumed membership mismatch'')
       else failures)
     else (missing, failures))"

definition compare_membership ::
    "string \<Rightarrow> config \<Rightarrow> byte list \<Rightarrow> byte list \<Rightarrow> recorder \<Rightarrow> u64 \<times> recorder" where
  "compare_membership queue c published consumed failures =
     fold (compare_step queue c published consumed) [1..<length published] (0, failures)"

text \<open>Producer \<open>p\<close> is thread \<open>p\<close> of a queue, consumer \<open>k\<close> the thread after all producers.\<close>

definition consumer_tid :: "config \<Rightarrow> nat \<Rightarrow> nat" where
  "consumer_tid c k = unat (cfg_producers c) + k"

subsection \<open>Messages by number\<close>

definition slots :: "config \<Rightarrow> nat" where
  "slots c = unat (cfg_producers c) * unat (cfg_iterations c)"

definition number :: "config \<Rightarrow> nat \<Rightarrow> nat \<Rightarrow> nat" where
  "number c p l = p * unat (cfg_iterations c) + l"

definition message :: "config \<Rightarrow> nat \<Rightarrow> byte list" where
  "message c g = (let n = unat (cfg_iterations c) in
     make_payload c (of_nat ((g - 1) div n)) (of_nat ((g - 1) mod n + 1)) (of_nat g))"

definition number_of :: "byte list \<Rightarrow> nat" where
  "number_of x = unat (ph_global_sequence (read_header x))"

text \<open>The numbers of the messages whose producers have moved on to \<open>local\<close>.\<close>

definition numbers :: "config \<Rightarrow> (nat \<Rightarrow> nat) \<Rightarrow> nat set" where
  "numbers c nxt = {g. \<exists>p l. p < unat (cfg_producers c) \<and> 0 < l \<and> l < nxt p \<and> l \<le> unat (cfg_iterations c) \<and>
     g = number c p l}"

definition flags :: "config \<Rightarrow> nat set \<Rightarrow> byte list \<Rightarrow> bool" where
  "flags c S v \<longleftrightarrow> length v = Suc (slots c) \<and> (\<forall>g \<le> slots c. v ! g = (if g \<in> S then 1 else 0))"

definition sent_log :: "config \<Rightarrow> (nat \<Rightarrow> nat) \<Rightarrow> byte list list \<Rightarrow> bool" where
  "sent_log c nxt log \<longleftrightarrow> distinct log \<and> set log = message c ` numbers c nxt"

text \<open>
  \<open>taken\<close>: the messages that have left the queue. Each is either marked in \<open>consumed\<close> or in the
  hands of exactly one thread, which has not marked it yet.
\<close>

definition ledger :: "config \<Rightarrow> byte list set \<Rightarrow> (nat \<Rightarrow> byte list option) \<Rightarrow> nat set \<Rightarrow> bool" where
  "ledger c taken hand marked \<longleftrightarrow> taken \<subseteq> message c ` {1..slots c} \<and>
     (\<forall>t x. hand t = Some x \<longrightarrow> x \<in> taken \<and> number_of x \<notin> marked) \<and>
     (\<forall>t u x. hand t = Some x \<and> hand u = Some x \<longrightarrow> t = u) \<and>
     number_of ` taken = marked \<union> number_of ` ran hand"

section \<open>Numbers\<close>

lemma consumer_tid_inj [simp]: "consumer_tid c k = consumer_tid c j \<longleftrightarrow> k = j"
  by (simp add: consumer_tid_def)

lemma consumer_tid_not_producer: "p < unat (cfg_producers c) \<Longrightarrow> consumer_tid c k \<noteq> p"
  by (simp add: consumer_tid_def)

lemma ucast_u32_u64: "(ucast (w :: u32) :: u64) = of_nat (unat w)"
  by (simp add: word_unat_eq_iff unat_of_nat)

lemma unat_total_slots:
  assumes "check_config c = None"
  shows "unat (total_slots c) = slots c" "unat (total_slots c + 1) = Suc (slots c)" "slots c \<le> 640000000"
proof -
  note b = checked_bounds [OF assms]
  show s: "slots c \<le> 640000000"
    using mult_le_mono [OF b(4) b(2)] by (simp add: slots_def)
  have "total_slots c = of_nat (slots c)"
    unfolding total_slots_def slots_def ucast_u32_u64 by simp
  then show t: "unat (total_slots c) = slots c" using s by (simp add: unat_of_nat_64)
  show "unat (total_slots c + 1) = Suc (slots c)"
    using s t unat_Suc_word [of "total_slots c"] by simp
qed

lemma number_bounds:
  assumes "p < unat (cfg_producers c)" "0 < l" "l \<le> unat (cfg_iterations c)"
  shows "0 < number c p l" "number c p l \<le> slots c"
proof -
  have "Suc p * unat (cfg_iterations c) \<le> slots c"
    using assms(1) unfolding slots_def by (intro mult_le_mono1) simp
  then show "number c p l \<le> slots c" using assms(3) by (simp add: number_def)
  show "0 < number c p l" using assms(2) by (simp add: number_def)
qed

lemma number_split:
  assumes "0 < l" "l \<le> unat (cfg_iterations c)"
  shows "(number c p l - 1) div unat (cfg_iterations c) = p" "(number c p l - 1) mod unat (cfg_iterations c) + 1 = l"
proof -
  let ?n = "unat (cfg_iterations c)"
  obtain m where m: "l = Suc m" using assms(1) by (cases l) auto
  then have "number c p l - 1 = m + p * ?n" "m < ?n" using assms by (auto simp: number_def)
  then show "(number c p l - 1) div ?n = p" "(number c p l - 1) mod ?n + 1 = l" using m by simp_all
qed

lemma number_inject:
  assumes "0 < l" "l \<le> unat (cfg_iterations c)" "0 < l'" "l' \<le> unat (cfg_iterations c)" "number c p l = number c p' l'"
  shows "p = p' \<and> l = l'"
  using number_split [OF assms(1,2)] number_split [OF assms(3,4)] assms(5) by metis

lemma message_number:
  assumes "0 < l" "l \<le> unat (cfg_iterations c)"
  shows "message c (number c p l) = make_payload c (of_nat p) (of_nat l) (of_nat (number c p l))"
  unfolding message_def Let_def number_split [OF assms] ..

lemma global_sequence_number:
  assumes "check_config c = None" "p < unat (cfg_producers c)"
  shows "global_sequence c (of_nat p) (of_nat l) = of_nat (number c p l)"
proof -
  have "unat (of_nat p :: u32) = p"
    using assms(2) checked_bounds(4) [OF assms(1)] by (simp add: unat_of_nat)
  then have "(ucast (of_nat p :: u32) :: u64) = of_nat p" unfolding ucast_u32_u64 by simp
  then show ?thesis by (simp add: global_sequence_def number_def)
qed

lemma local_message:
  assumes chk: "check_config c = None" and p: "p < unat (cfg_producers c)" "unat v = l" "0 < l" "l \<le> unat (cfg_iterations c)"
  shows "make_payload c (of_nat p) v (global_sequence c (of_nat p) v) = message c (number c p l)"
    "unat (global_sequence c (of_nat p) v) = number c p l"
proof -
  have l: "v = of_nat l" using p(2) by auto
  have g: "global_sequence c (of_nat p) (of_nat l) = of_nat (number c p l)" by (rule global_sequence_number [OF chk p(1)])
  show "make_payload c (of_nat p) v (global_sequence c (of_nat p) v) = message c (number c p l)"
    unfolding l g by (rule message_number [OF p(3,4), symmetric])
  show "unat (global_sequence c (of_nat p) v) = number c p l"
    unfolding l g using number_bounds(2) [OF p(1,3,4)] unat_total_slots(3) [OF chk] by (simp add: unat_of_nat_64)
qed

lemma number_of_message:
  assumes "check_config c = None" "g \<le> slots c"
  shows "number_of (message c g) = g"
  using assms unat_total_slots(3) [OF assms(1)] checked_bounds(7) [OF assms(1)]
  by (simp add: number_of_def message_def Let_def read_header_make unat_of_nat_64)

lemma length_message: "check_config c = None \<Longrightarrow> length (message c g) = unat (cfg_payload_size c)"
  using checked_bounds(7) by (simp add: message_def Let_def length_make_payload)

lemma message_inject:
  "check_config c = None \<Longrightarrow> g \<le> slots c \<Longrightarrow> h \<le> slots c \<Longrightarrow> message c g = message c h \<longleftrightarrow> g = h"
  using number_of_message by metis

lemma numbersI: "p < unat (cfg_producers c) \<Longrightarrow> 0 < l \<Longrightarrow> l < nxt p \<Longrightarrow> l \<le> unat (cfg_iterations c) \<Longrightarrow>
    number c p l \<in> numbers c nxt"
  by (auto simp: numbers_def)

lemma numbersE:
  assumes "g \<in> numbers c nxt"
  obtains p l where "p < unat (cfg_producers c)" "0 < l" "l < nxt p" "l \<le> unat (cfg_iterations c)" "g = number c p l"
  using assms unfolding numbers_def by blast

lemma numbers_bounds:
  assumes "g \<in> numbers c nxt"
  shows "g \<in> {1..slots c}"
  using assms
proof (rule numbersE)
  fix p l assume "p < unat (cfg_producers c)" "0 < l" "l \<le> unat (cfg_iterations c)" "g = number c p l"
  then show ?thesis using number_bounds [of p c l] by simp
qed

lemma finite_numbers [simp]: "finite (numbers c nxt)"
  by (rule finite_subset [of _ "{1..slots c}"]) (use numbers_bounds in auto)

lemma numbers_start: "(\<And>p. p < unat (cfg_producers c) \<Longrightarrow> nxt p = 1) \<Longrightarrow> numbers c nxt = {}"
  by (auto simp: numbers_def)

lemma numbers_cong:
  assumes "\<And>p. p < unat (cfg_producers c) \<Longrightarrow> nxt p = nxt' p"
  shows "numbers c nxt = numbers c nxt'"
proof -
  have "(p < unat (cfg_producers c) \<and> 0 < l \<and> l < nxt p \<and> l \<le> unat (cfg_iterations c) \<and> g = number c p l) =
    (p < unat (cfg_producers c) \<and> 0 < l \<and> l < nxt' p \<and> l \<le> unat (cfg_iterations c) \<and> g = number c p l)" for p l g
    using assms by auto
  then show ?thesis by (simp only: numbers_def)
qed

lemma numbers_next:
  assumes "p < unat (cfg_producers c)" "nxt p = l" "0 < l" "l \<le> unat (cfg_iterations c)"
  shows "numbers c (nxt(p := Suc l)) = insert (number c p l) (numbers c nxt)" "number c p l \<notin> numbers c nxt"
proof -
  show "number c p l \<notin> numbers c nxt"
  proof
    assume "number c p l \<in> numbers c nxt"
    then show False
    proof (rule numbersE)
      fix p' l' assume l': "0 < l'" "l' < nxt p'" "l' \<le> unat (cfg_iterations c)" "number c p l = number c p' l'"
      then have "p = p' \<and> l = l'" by (intro number_inject [OF assms(3,4)])
      then show False using l'(2) assms(2) by simp
    qed
  qed
  show "numbers c (nxt(p := Suc l)) = insert (number c p l) (numbers c nxt)"
  proof (intro equalityI subsetI)
    fix g assume "g \<in> numbers c (nxt(p := Suc l))"
    then show "g \<in> insert (number c p l) (numbers c nxt)"
    proof (rule numbersE)
      fix p' l' assume g: "p' < unat (cfg_producers c)" "0 < l'" "l' < (nxt(p := Suc l)) p'"
        "l' \<le> unat (cfg_iterations c)" "g = number c p' l'"
      show ?thesis
      proof (cases "p' = p \<and> l' = l")
        case False
        then have "l' < nxt p'" using g(3) assms(2) by (cases "p' = p") auto
        then show ?thesis using g numbersI by blast
      qed (use g in simp)
    qed
  next
    fix g assume "g \<in> insert (number c p l) (numbers c nxt)"
    then consider "g = number c p l" | "g \<in> numbers c nxt" by blast
    then show "g \<in> numbers c (nxt(p := Suc l))"
    proof cases
      case 1
      then show ?thesis using assms numbersI [of p c l "nxt(p := Suc l)"] by simp
    next
      case 2
      then show ?thesis
      proof (rule numbersE)
        fix p' l' assume g: "p' < unat (cfg_producers c)" "0 < l'" "l' < nxt p'"
          "l' \<le> unat (cfg_iterations c)" "g = number c p' l'"
        then have "l' < (nxt(p := Suc l)) p'" using assms(2) by auto
        then show ?thesis using g numbersI [of p' c l' "nxt(p := Suc l)"] by blast
      qed
    qed
  qed
qed

section \<open>The log of a run\<close>

lemma sent_logD:
  "sent_log c nxt log \<Longrightarrow> set log \<subseteq> message c ` {1..slots c}"
  using numbers_bounds unfolding sent_log_def by blast

lemma sent_log_cong:
  "(\<And>p. p < unat (cfg_producers c) \<Longrightarrow> nxt p = nxt' p) \<Longrightarrow> sent_log c nxt log = sent_log c nxt' log"
  using numbers_cong [of c nxt nxt'] by (simp add: sent_log_def)

lemma sent_log_next:
  assumes "check_config c = None" "sent_log c nxt log"
    and p: "p < unat (cfg_producers c)" "nxt p = l" "0 < l" "l \<le> unat (cfg_iterations c)"
  shows "sent_log c (nxt(p := Suc l)) (log @ [message c (number c p l)])"
proof -
  have "message c (number c p l) \<notin> set log"
  proof
    assume "message c (number c p l) \<in> set log"
    then obtain g where g: "g \<in> numbers c nxt" "message c (number c p l) = message c g"
      using assms(2) by (auto simp: sent_log_def)
    then show False
      using message_inject [OF assms(1) number_bounds(2) [OF p(1,3,4)], of g] numbers_bounds [OF g(1)] numbers_next(2) [of p c nxt l, OF p]
      by auto
  qed
  then show ?thesis using assms(2) numbers_next(1) [of p c nxt l, OF p] by (auto simp: sent_log_def)
qed

lemma sent_log_length:
  assumes "check_config c = None" "sent_log c nxt log"
  shows "length log = card (numbers c nxt)"
proof -
  have "inj_on (message c) (numbers c nxt)"
  proof (rule inj_onI)
    fix g h assume "g \<in> numbers c nxt" "h \<in> numbers c nxt" "message c g = message c h"
    then show "g = h" using message_inject [OF assms(1), of g h] numbers_bounds [of _ c nxt] by simp
  qed
  then have "card (set log) = card (numbers c nxt)" using assms(2) by (simp add: sent_log_def card_image)
  then show ?thesis using assms(2) distinct_card [of log] by (simp add: sent_log_def)
qed

lemma sent_log_numbers:
  assumes "check_config c = None" "sent_log c nxt log"
  shows "number_of ` set log = numbers c nxt"
proof -
  have "number_of (message c g) = g" if "g \<in> numbers c nxt" for g
    using numbers_bounds [OF that] number_of_message [OF assms(1)] by simp
  then have "number_of ` message c ` numbers c nxt = numbers c nxt" by (simp add: image_image)
  then show ?thesis using assms(2) by (simp add: sent_log_def)
qed

section \<open>Received messages\<close>

lemma message_received:
  assumes chk: "check_config c = None" and g: "g \<in> {1..slots c}"
  defines "h \<equiv> read_header (message c g)"
  shows "in_range c h" "ph_global_sequence h = of_nat g"
    "validate_payload queue c (message c g) (ph_producer_id h) (ph_local_sequence h) (ph_global_sequence h) operation failures
       = (True, failures)"
proof -
  note b = checked_bounds [OF chk]
  let ?n = "unat (cfg_iterations c)"
  let ?p = "(g - 1) div ?n" and ?l = "(g - 1) mod ?n + 1"
  have p: "?p < unat (cfg_producers c)"
    using g b(1) by (intro less_mult_imp_div_less) (auto simp: slots_def)
  have l: "0 < ?l" "?l \<le> ?n" using b(1) by (simp_all add: Suc_leI)
  have num: "number c ?p ?l = g"
    using g by (simp add: number_def)
  have h: "h = \<lparr>ph_global_sequence = of_nat g, ph_local_sequence = of_nat ?l, ph_producer_id = of_nat ?p,
      ph_payload_size = cfg_payload_size c, ph_checksum = mixed_seed (cfg_seed c) (of_nat ?p) (of_nat ?l)\<rparr>"
    unfolding h_def message_def Let_def by (rule read_header_make [OF b(7)])
  have ul: "unat (of_nat ?l :: u64) = ?l" using order_trans [OF l(2) b(2)] by (intro unat_of_nat_64) (rule le_less_trans, assumption, simp)
  have up: "unat (of_nat ?p :: u32) = ?p"
    using p b(4) by (simp add: unat_of_nat)
  have "of_nat ?p < cfg_producers c" using p up by (simp only: word_less_nat_alt)
  moreover have "1 \<le> (of_nat ?l :: u64)" "of_nat ?l \<le> cfg_iterations c"
    using l ul by (simp_all only: word_le_nat_alt unsigned_1)
  moreover have "global_sequence c (of_nat ?p) (of_nat ?l) = of_nat g"
    using global_sequence_number [OF chk p, of ?l] num by simp
  ultimately show "in_range c h" unfolding in_range_def h by simp
  show "ph_global_sequence h = of_nat g" by (simp add: h)
  have "message c g = make_payload c (ph_producer_id h) (ph_local_sequence h) (ph_global_sequence h)"
    unfolding h by (simp add: message_def Let_def)
  then show "validate_payload queue c (message c g) (ph_producer_id h) (ph_local_sequence h) (ph_global_sequence h)
      operation failures = (True, failures)"
    by simp
qed

section \<open>Membership vectors\<close>

lemma flags_start: "check_config c = None \<Longrightarrow> flags c {} (membership c)"
  by (simp add: flags_def membership_def unat_total_slots del: replicate_Suc)

lemma flags_set: "flags c S v \<Longrightarrow> g \<le> slots c \<Longrightarrow> flags c (insert g S) (v[g := 1])"
  by (simp add: flags_def nth_list_update)

lemma flags_nth: "flags c S v \<Longrightarrow> g \<le> slots c \<Longrightarrow> v ! g = (if g \<in> S then 1 else 0)"
  by (simp add: flags_def)

lemma flags_equal: "flags c S v \<Longrightarrow> flags c S w \<Longrightarrow> v = w"
  by (rule nth_equalityI) (simp_all add: flags_def)

lemma compare_equal: "compare_membership queue c v v failures = (0, failures)"
proof -
  have "fold (compare_step queue c v v) is (0, failures) = (0, failures)" for "is"
    by (induction "is") (simp_all add: compare_step_def)
  then show ?thesis by (simp add: compare_membership_def)
qed

section \<open>The ledger\<close>

lemma number_of_inj:
  assumes "check_config c = None"
  shows "inj_on number_of (message c ` {1..slots c})"
  using number_of_message [OF assms] by (auto simp: inj_on_def)

lemma ledger_start: "ledger c {} (\<lambda>_. None) {}"
  by (simp add: ledger_def)

lemma ledgerD:
  assumes "ledger c taken hand marked"
  shows "taken \<subseteq> message c ` {1..slots c}" "hand t = Some x \<Longrightarrow> x \<in> taken" "hand t = Some x \<Longrightarrow> number_of x \<notin> marked"
    "hand t = Some x \<Longrightarrow> hand u = Some x \<Longrightarrow> t = u"
    "number_of ` taken = marked \<union> number_of ` ran hand"
  using assms unfolding ledger_def by blast+

lemma ledger_take:
  assumes chk: "check_config c = None" and led: "ledger c taken hand marked"
    and x: "x \<in> message c ` {1..slots c}" "x \<notin> taken" "hand t = None"
  shows "ledger c (insert x taken) (hand(t := Some x)) marked"
proof -
  note L = ledgerD [OF led]
  have fresh: "number_of x \<notin> number_of ` taken"
    using inj_on_image_mem_iff [OF number_of_inj [OF chk] x(1) L(1)] x(2) by simp
  have hands: "ran (hand(t := Some x)) = insert x (ran hand)" using x(3) by simp
  show ?thesis
    unfolding ledger_def hands
  proof (intro conjI allI impI)
    show "insert x taken \<subseteq> message c ` {1..slots c}" using L(1) x(1) by simp
    show "number_of ` insert x taken = marked \<union> number_of ` insert x (ran hand)" using L(5) by simp
    show "y \<in> insert x taken" if "(hand(t := Some x)) u = Some y" for u y
      using that L(2) by (auto split: if_splits)
    show "number_of y \<notin> marked" if "(hand(t := Some x)) u = Some y" for u y
      using that L(3) L(5) fresh by (auto split: if_splits)
    show "u = v" if "(hand(t := Some x)) u = Some y \<and> (hand(t := Some x)) v = Some y" for u v y
      using that L(2) L(4) x(2) by (fastforce split: if_splits)
  qed
qed

lemma ledger_mark:
  assumes chk: "check_config c = None" and led: "ledger c taken hand marked" and x: "hand t = Some x"
  shows "ledger c taken (hand(t := None)) (insert (number_of x) marked)"
proof -
  note L = ledgerD [OF led]
  have "hand = (hand(t := None))(t := Some x)" using x by auto
  then have hands: "ran hand = insert x (ran (hand(t := None)))"
    using ran_map_upd [of "hand(t := None)" t x] by simp
  have other: "number_of y \<noteq> number_of x" if "hand u = Some y" "u \<noteq> t" for u y
  proof
    assume "number_of y = number_of x"
    moreover have "y \<in> message c ` {1..slots c}" "x \<in> message c ` {1..slots c}" using L(1,2) that(1) x by blast+
    ultimately have "y = x" using number_of_inj [OF chk] by (simp add: inj_on_eq_iff)
    then show False using L(4) that x by blast
  qed
  show ?thesis
    unfolding ledger_def
  proof (intro conjI allI impI)
    show "taken \<subseteq> message c ` {1..slots c}" by (rule L(1))
    show "number_of ` taken = insert (number_of x) marked \<union> number_of ` ran (hand(t := None))"
      using L(5) hands by simp
    show "y \<in> taken" if "(hand(t := None)) u = Some y" for u y using that L(2) by (simp split: if_splits)
    show "number_of y \<notin> insert (number_of x) marked" if "(hand(t := None)) u = Some y" for u y
      using that L(3) other by (simp split: if_splits)
    show "u = v" if "(hand(t := None)) u = Some y \<and> (hand(t := None)) v = Some y" for u v y
      using that L(4) by (simp split: if_splits)
  qed
qed

lemma ledger_bound:
  assumes "check_config c = None" "ledger c taken hand marked"
  shows "finite marked" "card marked \<le> slots c"
proof -
  have "number_of ` taken \<subseteq> {1..slots c}"
    using ledgerD(1) [OF assms(2)] number_of_message [OF assms(1)] by fastforce
  then have "marked \<subseteq> {1..slots c}" using ledgerD(5) [OF assms(2)] by simp
  then show "finite marked" "card marked \<le> slots c" using finite_subset card_mono [of "{1..slots c}" marked] by auto
qed

lemma ledger_settled: "ledger c taken (\<lambda>_. None) marked \<Longrightarrow> marked = number_of ` taken"
  by (simp add: ledger_def)

end
