(* ===== verification/Stress_Blocking.thy ===== *)
theory Stress_Blocking
  imports Blocking_Monitor Stress_Ledger
begin

text \<open>
  The blocking-queue stress run (\<open>run_blocking_close_smoke\<close> and \<open>run_blocking\<close> of
  \<open>stress/queue_stress.cpp\<close>) on the monitor of \<open>Blocking_Monitor\<close>: producer \<open>p\<close> is its thread
  \<open>p\<close>, consumer \<open>k\<close> its thread \<open>producers + k\<close>. The clock may reach the deadline at any test of it,
  \<open>yield\<close> has no effect, and the relaxed load of \<open>popped\<close> that only numbers a failure may return
  anything. \<open>popped\<close> is otherwise read after all threads have ended.
\<close>

section \<open>Definitions\<close>

subsection \<open>Closing while a call is blocked\<close>

text \<open>
  \<open>timely i\<close>: the asynchronous call that can return does so before the \<open>i\<close>-th wait of one second
  is over. A call whose wait predicate is false has not returned when its ten milliseconds are over.
\<close>

definition close_smoke ::
    "(nat \<Rightarrow> bool) \<Rightarrow> config \<Rightarrow> recorder \<Rightarrow> cpp_exception + bool \<times> recorder" where
  "close_smoke timely c failures =
     (let fail = \<lambda>expected observed reason.
        Inr (False, fr_record failures (failure_of ''blocking'' (cfg_seed c) 0 expected observed 0 0 reason))
      in case (bq_make 1 :: cpp_exception + int blocking_queue) of
        Inl e \<Rightarrow> Inl e
      | Inr consumer_queue \<Rightarrow>
        if bq_pop consumer_queue \<noteq> None then fail 0 0 ''empty consumer did not block before close''
        else (case bq_pop (bq_close consumer_queue) of
          Some (None, _) \<Rightarrow>
            if \<not> timely 0 then fail 0 0 ''blocked consumer did not wake empty on close''
            else (case (bq_make 1 :: cpp_exception + int blocking_queue) of
              Inl e \<Rightarrow> Inl e
            | Inr producer_queue \<Rightarrow>
              (case bq_push producer_queue 7 of
                Some (Success, q1) \<Rightarrow>
                  if bq_push q1 8 \<noteq> None then fail 0 0 ''full producer did not block before close''
                  else (case bq_push (bq_close q1) 8 of
                    Some (Closed, q2) \<Rightarrow>
                      if \<not> timely 1 then fail 0 0 ''blocked producer did not wake closed''
                      else (case bq_pop q2 of
                        Some (Some drained, q3) \<Rightarrow>
                          if drained \<noteq> 7 then fail 7 (of_int drained) ''queued item was not drainable after close''
                          else (case bq_pop q3 of
                            Some (None, _) \<Rightarrow> Inr (True, failures)
                          | _ \<Rightarrow> fail 7 (of_int drained) ''queued item was not drainable after close'')
                      | _ \<Rightarrow> fail 7 0 ''queued item was not drainable after close'')
                  | _ \<Rightarrow> fail 0 0 ''blocked producer did not wake closed'')
              | _ \<Rightarrow> fail 0 0 ''close-race setup push failed''))
        | _ \<Rightarrow> fail 0 0 ''blocked consumer did not wake empty on close''))"

subsection \<open>The threads\<close>

datatype bp_pc = Bp_wait | Bp_loop | Bp_push | Bp_exit | Bp_close | Bp_closing | Bp_end

datatype bc_pc = Bc_wait | Bc_loop | Bc_pop | Bc_item "byte list" | Bc_end

record bk_run =
  br_q :: "byte list bq_sys"
  br_start :: bool
  br_remaining :: u32
  br_pushed :: u64
  br_popped :: u64
  br_full_retries :: u64
  br_published :: "byte list"
  br_consumed :: "byte list"
  br_failures :: recorder
  br_local :: "nat \<Rightarrow> u64"
  br_producer :: "nat \<Rightarrow> bp_pc"
  br_consumer :: "nat \<Rightarrow> bc_pc"
  br_result :: "(bool \<times> string) option"

definition bk_run_init :: "config \<Rightarrow> recorder \<Rightarrow> bk_run \<Rightarrow> bool" where
  "bk_run_init c failures s \<longleftrightarrow> bq_sys_init (ucast (cfg_capacity c)) (br_q s) \<and>
     s = \<lparr>br_q = br_q s, br_start = False, br_remaining = cfg_producers c, br_pushed = 0, br_popped = 0,
       br_full_retries = 0, br_published = membership c, br_consumed = membership c, br_failures = failures,
       br_local = (\<lambda>_. 1), br_producer = (\<lambda>_. Bp_wait), br_consumer = (\<lambda>_. Bc_wait), br_result = None\<rparr>"

text \<open>What a producer does with the status of a push, and a consumer with a popped payload.\<close>

definition bk_on_push :: "config \<Rightarrow> nat \<Rightarrow> queue_status \<Rightarrow> bk_run \<Rightarrow> bk_run" where
  "bk_on_push c p status s =
     (let global = global_sequence c (of_nat p) (br_local s p) in
      if status = Success
      then s\<lparr>br_published := (br_published s)[unat global := 1], br_pushed := br_pushed s + 1,
             br_local := (br_local s)(p := br_local s p + 1), br_producer := (br_producer s)(p := Bp_loop)\<rparr>
      else if status = Full
      then s\<lparr>br_full_retries := br_full_retries s + 1, br_producer := (br_producer s)(p := Bp_loop)\<rparr>
      else s\<lparr>br_failures := fr_record (br_failures s)
               (failure_of ''blocking'' (cfg_seed c) global global 0 0 0 ''unexpected producer status''),
             br_producer := (br_producer s)(p := Bp_exit)\<rparr>)"

definition bk_on_item :: "config \<Rightarrow> nat \<Rightarrow> u64 \<Rightarrow> byte list \<Rightarrow> bk_run \<Rightarrow> bk_run" where
  "bk_on_item c k operation payload s =
     (let header = read_header payload;
          global = ph_global_sequence header;
          s1 = s\<lparr>br_consumer := (br_consumer s)(k := Bc_loop)\<rparr>
      in if \<not> in_range c header then s1
         else (case validate_payload ''blocking'' c payload (ph_producer_id header) (ph_local_sequence header) global
                 operation (br_failures s) of
             (valid, failures) \<Rightarrow>
               if \<not> valid then s1\<lparr>br_failures := failures\<rparr>
               else s1\<lparr>br_failures := (if br_consumed s ! unat global \<noteq> 0
                   then fr_record failures (failure_of ''blocking'' (cfg_seed c) global global global
                     (ph_checksum header) (ph_checksum header) ''duplicate consumed message'')
                   else failures),
                 br_consumed := (br_consumed s)[unat global := 1], br_popped := br_popped s + 1\<rparr>))"

inductive bk_producer_step :: "config \<Rightarrow> nat \<Rightarrow> bk_run \<Rightarrow> bk_run \<Rightarrow> bool" for c p where
  bp_start: "br_producer s p = Bp_wait \<Longrightarrow> br_start s \<Longrightarrow>
    bk_producer_step c p s (s\<lparr>br_producer := (br_producer s)(p := Bp_loop)\<rparr>)"
| bp_leave: "br_producer s p = Bp_loop \<Longrightarrow>
    bk_producer_step c p s (s\<lparr>br_producer := (br_producer s)(p := Bp_exit)\<rparr>)"
| bp_try_push: "br_producer s p = Bp_loop \<Longrightarrow> br_local s p \<le> cfg_iterations c \<Longrightarrow>
    payload = make_payload c (of_nat p) (br_local s p) (global_sequence c (of_nat p) (br_local s p)) \<Longrightarrow>
    bq_step p (br_q s) q \<Longrightarrow> bs_pc q p = B_done (R_status st) \<Longrightarrow>
    bq_try_push (bs_q (br_q s)) payload = (st, bs_q q) \<Longrightarrow>
    bk_producer_step c p s (s\<lparr>br_q := q, br_producer := (br_producer s)(p := Bp_push)\<rparr>)"
| bp_result: "br_producer s p = Bp_push \<Longrightarrow> bs_pc (br_q s) p = B_done (R_status st) \<Longrightarrow>
    bq_step p (br_q s) q \<Longrightarrow>
    bk_producer_step c p s (bk_on_push c p st (s\<lparr>br_q := q\<rparr>))"
| bp_exit: "br_producer s p = Bp_exit \<Longrightarrow>
    bk_producer_step c p s
      (s\<lparr>br_remaining := br_remaining s - 1,
         br_producer := (br_producer s)(p := if br_remaining s = 1 then Bp_close else Bp_end)\<rparr>)"
| bp_close: "br_producer s p = Bp_close \<Longrightarrow> bq_step p (br_q s) q \<Longrightarrow> bs_pc q p = B_close_not_empty \<Longrightarrow>
    bk_producer_step c p s (s\<lparr>br_q := q, br_producer := (br_producer s)(p := Bp_closing)\<rparr>)"
| bp_closing: "br_producer s p = Bp_closing \<Longrightarrow> bs_pc (br_q s) p \<noteq> B_done R_unit \<Longrightarrow> bq_step p (br_q s) q \<Longrightarrow>
    bk_producer_step c p s (s\<lparr>br_q := q\<rparr>)"
| bp_closed: "br_producer s p = Bp_closing \<Longrightarrow> bs_pc (br_q s) p = B_done R_unit \<Longrightarrow> bq_step p (br_q s) q \<Longrightarrow>
    bk_producer_step c p s (s\<lparr>br_q := q, br_producer := (br_producer s)(p := Bp_end)\<rparr>)"

inductive bk_consumer_step :: "config \<Rightarrow> nat \<Rightarrow> bk_run \<Rightarrow> bk_run \<Rightarrow> bool" for c k where
  bc_start: "br_consumer s k = Bc_wait \<Longrightarrow> br_start s \<Longrightarrow>
    bk_consumer_step c k s (s\<lparr>br_consumer := (br_consumer s)(k := Bc_loop)\<rparr>)"
| bc_call: "br_consumer s k = Bc_loop \<Longrightarrow> bq_step (consumer_tid c k) (br_q s) q \<Longrightarrow>
    bs_pc q (consumer_tid c k) = B_pop \<Longrightarrow>
    bk_consumer_step c k s (s\<lparr>br_q := q, br_consumer := (br_consumer s)(k := Bc_pop)\<rparr>)"
| bc_inside: "br_consumer s k = Bc_pop \<Longrightarrow> bs_pc (br_q s) (consumer_tid c k) \<noteq> B_pop_wait \<Longrightarrow>
    (\<And>r. bs_pc (br_q s) (consumer_tid c k) \<noteq> B_done r) \<Longrightarrow> bq_step (consumer_tid c k) (br_q s) q \<Longrightarrow>
    bk_consumer_step c k s (s\<lparr>br_q := q\<rparr>)"
| bc_payload: "br_consumer s k = Bc_pop \<Longrightarrow> bs_pc (br_q s) (consumer_tid c k) = B_done (R_item (Some x)) \<Longrightarrow>
    bq_step (consumer_tid c k) (br_q s) q \<Longrightarrow>
    bk_consumer_step c k s (s\<lparr>br_q := q, br_consumer := (br_consumer s)(k := Bc_item x)\<rparr>)"
| bc_item: "br_consumer s k = Bc_item x \<Longrightarrow>
    bk_consumer_step c k s (bk_on_item c k operation x s)"
| bc_end: "br_consumer s k = Bc_pop \<Longrightarrow> bs_pc (br_q s) (consumer_tid c k) = B_done (R_item None) \<Longrightarrow>
    bq_step (consumer_tid c k) (br_q s) q \<Longrightarrow>
    bk_consumer_step c k s (s\<lparr>br_q := q, br_consumer := (br_consumer s)(k := Bc_end)\<rparr>)"

text \<open>A wait of a consumer may also end spuriously.\<close>

inductive bk_spurious_step :: "config \<Rightarrow> nat \<Rightarrow> bk_run \<Rightarrow> bk_run \<Rightarrow> bool" for c k where
  bc_spurious: "br_consumer s k = Bc_pop \<Longrightarrow> bs_pc (br_q s) (consumer_tid c k) = B_pop_wait \<Longrightarrow>
    bq_step (consumer_tid c k) (br_q s) q \<Longrightarrow> bk_spurious_step c k s (s\<lparr>br_q := q\<rparr>)"

subsection \<open>The run\<close>

definition bk_report :: "config \<Rightarrow> u64 \<Rightarrow> bk_run \<Rightarrow> string" where
  "bk_report c missing s = ''stress_result queue=blocking seed='' @ dec (unat (cfg_seed c)) @
     '' pushed='' @ dec (unat (br_pushed s)) @ '' popped='' @ dec (unat (br_popped s)) @
     '' full_retries='' @ dec (unat (br_full_retries s)) @ '' missing='' @ dec (unat missing) @
     '' validation_failures='' @ dec (if fr_failed (br_failures s) then 1 else 0) @ [CHR 0x0A]"

definition bk_finish :: "config \<Rightarrow> bk_run \<Rightarrow> bk_run" where
  "bk_finish c s =
     (case compare_membership ''blocking'' c (br_published s) (br_consumed s) (br_failures s) of (missing, failures) \<Rightarrow>
      let failures' = (if br_pushed s \<noteq> br_popped s \<or> missing \<noteq> 0
            then fr_record failures (failure_of ''blocking'' (cfg_seed c) (br_popped s) (br_pushed s) (br_popped s) 0 0
              ''pushed and popped totals differ after close/drain'')
            else failures);
          s' = s\<lparr>br_failures := failures'\<rparr>
      in s'\<lparr>br_result := Some (\<not> fr_failed failures', bk_report c missing s')\<rparr>)"

inductive bk_main_step :: "config \<Rightarrow> bk_run \<Rightarrow> bk_run \<Rightarrow> bool" for c where
  bm_start: "\<not> br_start s \<Longrightarrow> bk_main_step c s (s\<lparr>br_start := True\<rparr>)"
| bm_finish: "br_start s \<Longrightarrow> (\<And>p. p < unat (cfg_producers c) \<Longrightarrow> br_producer s p = Bp_end) \<Longrightarrow>
    (\<And>k. k < unat (cfg_consumers c) \<Longrightarrow> br_consumer s k = Bc_end) \<Longrightarrow> br_result s = None \<Longrightarrow>
    bk_main_step c s (bk_finish c s)"

definition bk_progress_step :: "config \<Rightarrow> bk_run \<Rightarrow> bk_run \<Rightarrow> bool" where
  "bk_progress_step c s t \<longleftrightarrow> (\<exists>p < unat (cfg_producers c). bk_producer_step c p s t) \<or>
     (\<exists>k < unat (cfg_consumers c). bk_consumer_step c k s t) \<or> bk_main_step c s t"

definition bk_run_step :: "config \<Rightarrow> bk_run \<Rightarrow> bk_run \<Rightarrow> bool" where
  "bk_run_step c s t \<longleftrightarrow> bk_progress_step c s t \<or> (\<exists>k < unat (cfg_consumers c). bk_spurious_step c k s t)"

definition run_blocking :: "(nat \<Rightarrow> bool) \<Rightarrow> config \<Rightarrow> recorder \<Rightarrow> bool \<Rightarrow> recorder \<Rightarrow> string \<Rightarrow> bool" where
  "run_blocking timely c failures passed failures' printed \<longleftrightarrow>
     (case close_smoke timely c failures of
        Inl e \<Rightarrow> False
      | Inr (False, f) \<Rightarrow> \<not> passed \<and> failures' = f \<and> printed = []
      | Inr (True, f) \<Rightarrow> \<exists>s0 s. bk_run_init c f s0 \<and> (bk_run_step c)\<^sup>*\<^sup>* s0 s \<and>
          br_result s = Some (passed, printed) \<and> br_failures s = failures')"

subsection \<open>Invariant\<close>

fun queue_held :: "'a bq_pc \<Rightarrow> 'a option" where
  "queue_held (B_pop_notify x) = Some x"
| "queue_held (B_done (R_item y)) = y"
| "queue_held _ = None"

fun item_held :: "bc_pc \<Rightarrow> byte list option" where
  "item_held (Bc_item x) = Some x"
| "item_held _ = None"

text \<open>The message in the hands of a thread: inside \<open>pop\<close>, or returned and not yet processed.\<close>

definition bk_hand :: "config \<Rightarrow> bk_run \<Rightarrow> nat \<Rightarrow> byte list option" where
  "bk_hand c s t = (case queue_held (bs_pc (br_q s) t) of
     Some x \<Rightarrow> Some x
   | None \<Rightarrow> if unat (cfg_producers c) \<le> t then item_held (br_consumer s (t - unat (cfg_producers c))) else None)"

text \<open>The local sequence a producer will use next, counting a push whose result it has not seen.\<close>

definition bk_next :: "bk_run \<Rightarrow> nat \<Rightarrow> nat" where
  "bk_next s p = unat (br_local s p) +
     (if br_producer s p = Bp_push \<and> bs_pc (br_q s) p = B_done (R_status Success) then 1 else 0)"

fun bp_ok :: "bp_pc \<Rightarrow> byte list bq_pc \<Rightarrow> bool" where
  "bp_ok Bp_push pc \<longleftrightarrow> pc = B_done (R_status Success) \<or> pc = B_done (R_status Full)"
| "bp_ok Bp_closing pc \<longleftrightarrow> pc = B_close_not_empty \<or> pc = B_close_not_full \<or> pc = B_done R_unit"
| "bp_ok _ pc \<longleftrightarrow> pc = B_idle"

fun bc_ok :: "bc_pc \<Rightarrow> byte list bq_pc \<Rightarrow> bool" where
  "bc_ok Bc_pop pc \<longleftrightarrow> pc = B_pop \<or> pc = B_pop_wait \<or> (\<exists>x. pc = B_pop_notify x) \<or> (\<exists>y. pc = B_done (R_item y))"
| "bc_ok _ pc \<longleftrightarrow> pc = B_idle"

definition bk_active :: "bk_run \<Rightarrow> nat \<Rightarrow> bool" where
  "bk_active s p \<longleftrightarrow> br_producer s p \<notin> {Bp_close, Bp_closing, Bp_end}"

definition bk_threads :: "config \<Rightarrow> bk_run \<Rightarrow> bool" where
  "bk_threads c s \<longleftrightarrow>
     (\<forall>p < unat (cfg_producers c). bp_ok (br_producer s p) (bs_pc (br_q s) p)) \<and>
     (\<forall>k < unat (cfg_consumers c). bc_ok (br_consumer s k) (bs_pc (br_q s) (consumer_tid c k))) \<and>
     (\<forall>t \<ge> unat (cfg_producers c) + unat (cfg_consumers c). bs_pc (br_q s) t = B_idle) \<and>
     (\<forall>k \<ge> unat (cfg_consumers c). br_consumer s k = Bc_wait)"

text \<open>The last producer to leave closes the queue, and a consumer only ends after that.\<close>

definition bk_closing :: "config \<Rightarrow> bk_run \<Rightarrow> bool" where
  "bk_closing c s \<longleftrightarrow>
     unat (br_remaining s) = card {p. p < unat (cfg_producers c) \<and> bk_active s p} \<and>
     (bq_closed (bs_q (br_q s)) \<longrightarrow> br_remaining s = 0) \<and>
     (\<forall>p < unat (cfg_producers c). br_producer s p = Bp_close \<longrightarrow> br_remaining s = 0) \<and>
     (br_remaining s = 0 \<longrightarrow> bq_closed (bs_q (br_q s)) \<or> (\<exists>p < unat (cfg_producers c). br_producer s p = Bp_close)) \<and>
     (\<forall>k < unat (cfg_consumers c).
        br_consumer s k = Bc_end \<or> bs_pc (br_q s) (consumer_tid c k) = B_done (R_item None) \<longrightarrow>
        bq_closed (bs_q (br_q s)) \<and> bq_queue (bs_q (br_q s)) = [])"

definition bk_books :: "config \<Rightarrow> bk_run \<Rightarrow> bool" where
  "bk_books c s \<longleftrightarrow>
     (\<forall>p < unat (cfg_producers c). 0 < unat (br_local s p) \<and> bk_next s p \<le> Suc (unat (cfg_iterations c))) \<and>
     sent_log c (bk_next s) (bs_in (br_q s)) \<and>
     flags c (numbers c (\<lambda>p. unat (br_local s p))) (br_published s) \<and>
     br_pushed s = of_nat (card (numbers c (\<lambda>p. unat (br_local s p)))) \<and>
     (\<exists>marked. ledger c (set (bs_out (br_q s))) (bk_hand c s) marked \<and> flags c marked (br_consumed s) \<and>
        br_popped s = of_nat (card marked))"

definition bk_run_inv :: "config \<Rightarrow> recorder \<Rightarrow> bk_run \<Rightarrow> bool" where
  "bk_run_inv c f s \<longleftrightarrow> check_config c = None \<and> bs_inv (ucast (cfg_capacity c)) (br_q s) \<and>
     bk_threads c s \<and> bk_closing c s \<and> bk_books c s \<and> br_failures s = f \<and>
     (\<forall>r printed. br_result s = Some (r, printed) \<longrightarrow> r = (\<not> fr_failed f) \<and>
        (\<forall>p < unat (cfg_producers c). br_producer s p = Bp_end) \<and> (\<forall>k < unat (cfg_consumers c). br_consumer s k = Bc_end))"

text \<open>How many own steps at most are left to a producer that leaves its loop, and to a consumer of a closed queue.\<close>

fun bp_rank :: "bp_pc \<Rightarrow> byte list bq_pc \<Rightarrow> nat" where
  "bp_rank Bp_wait pc = 8"
| "bp_rank Bp_push pc = 8"
| "bp_rank Bp_loop pc = 7"
| "bp_rank Bp_exit pc = 6"
| "bp_rank Bp_close pc = 5"
| "bp_rank Bp_closing pc = (case pc of B_close_not_empty \<Rightarrow> 4 | B_close_not_full \<Rightarrow> 3 | _ \<Rightarrow> 2)"
| "bp_rank Bp_end pc = 0"

fun bc_rank :: "bc_pc \<Rightarrow> byte list bq_pc \<Rightarrow> nat" where
  "bc_rank Bc_wait pc = 7"
| "bc_rank Bc_loop pc = 6"
| "bc_rank Bc_pop pc = (case pc of B_pop \<Rightarrow> 5 | B_pop_notify x \<Rightarrow> 12 | B_done (R_item (Some x)) \<Rightarrow> 11 | _ \<Rightarrow> 4)"
| "bc_rank (Bc_item x) pc = 10"
| "bc_rank Bc_end pc = 0"

definition bk_rank :: "config \<Rightarrow> bk_run \<Rightarrow> nat \<Rightarrow> nat" where
  "bk_rank c s k = 8 * length (bq_queue (bs_q (br_q s))) + bc_rank (br_consumer s k) (bs_pc (br_q s) (consumer_tid c k))"

section \<open>The other threads\<close>

lemma wake_held [simp]: "queue_held (wake_pop pc) = queue_held pc" "queue_held (wake_push pc) = queue_held pc"
  by (cases pc; simp)+

lemma notify_one_others:
  "notify_one wake f g \<Longrightarrow> g t = f t \<or> g t = wake (f t)"
  by (auto simp: notify_one_def)

lemma bq_step_others:
  assumes "bq_step tid q q'" "t \<noteq> tid"
  shows "bs_pc q' t = bs_pc q t \<or> bs_pc q' t = wake_pop (bs_pc q t) \<or> bs_pc q' t = wake_push (bs_pc q t)"
  using assms
  by (induction rule: bq_step.induct) (auto dest: notify_one_others simp: notify_all_def)

lemma bq_step_asleep:
  assumes "bq_step tid q q'" "t \<noteq> tid" "bs_pc q t \<noteq> B_pop_wait" "\<And>x. bs_pc q t \<noteq> B_push_wait x"
  shows "bs_pc q' t = bs_pc q t"
  using bq_step_others [OF assms(1,2)] assms(3,4) by (cases "bs_pc q t") auto

lemma bp_ok_awake: "bp_ok m pc \<Longrightarrow> pc \<noteq> B_pop_wait \<and> (\<forall>x. pc \<noteq> B_push_wait x)"
  by (cases m) auto

lemma bc_ok_wake: "bc_ok m pc \<Longrightarrow> bc_ok m (wake_pop pc) \<and> bc_ok m (wake_push pc)"
  by (cases m) auto

lemma bk_others:
  assumes thr: "bk_threads c s" and step: "bq_step tid (br_q s) q"
  shows "p < unat (cfg_producers c) \<Longrightarrow> p \<noteq> tid \<Longrightarrow> bs_pc q p = bs_pc (br_q s) p"
    "k < unat (cfg_consumers c) \<Longrightarrow> consumer_tid c k \<noteq> tid \<Longrightarrow> bc_ok (br_consumer s k) (bs_pc q (consumer_tid c k))"
    "unat (cfg_producers c) + unat (cfg_consumers c) \<le> t \<Longrightarrow> t \<noteq> tid \<Longrightarrow> bs_pc q t = B_idle"
    "t \<noteq> tid \<Longrightarrow> queue_held (bs_pc q t) = queue_held (bs_pc (br_q s) t)"
    "t \<noteq> tid \<Longrightarrow> bs_pc q t = B_done r \<longleftrightarrow> bs_pc (br_q s) t = B_done r"
proof -
  show "bs_pc q p = bs_pc (br_q s) p" if "p < unat (cfg_producers c)" "p \<noteq> tid"
    using bq_step_asleep [OF step that(2)] thr that(1) bp_ok_awake by (auto simp: bk_threads_def)
  show "bc_ok (br_consumer s k) (bs_pc q (consumer_tid c k))" if "k < unat (cfg_consumers c)" "consumer_tid c k \<noteq> tid"
    using bq_step_others [OF step that(2)] thr that(1) bc_ok_wake by (auto simp: bk_threads_def)
  show "bs_pc q t = B_idle" if "unat (cfg_producers c) + unat (cfg_consumers c) \<le> t" "t \<noteq> tid"
    using bq_step_asleep [OF step that(2)] thr that(1) by (simp add: bk_threads_def)
  show "queue_held (bs_pc q t) = queue_held (bs_pc (br_q s) t)" if "t \<noteq> tid"
    using bq_step_others [OF step that] by auto
  show "bs_pc q t = B_done r \<longleftrightarrow> bs_pc (br_q s) t = B_done r" if "t \<noteq> tid"
    using bq_step_others [OF step that] by (cases "bs_pc (br_q s) t") auto
qed

text \<open>A step of producer \<open>p\<close>, with or without a step of the queue.\<close>

lemma bk_threads_producer:
  assumes thr: "bk_threads c s" and p: "p < unat (cfg_producers c)"
    and q: "br_q t = br_q s \<or> bq_step p (br_q s) (br_q t)"
    and t: "br_producer t = (br_producer s)(p := m)" "br_consumer t = br_consumer s" "bp_ok m (bs_pc (br_q t) p)"
  shows "bk_threads c t"
proof -
  have others: "bs_pc (br_q t) p' = bs_pc (br_q s) p'" if "p' < unat (cfg_producers c)" "p' \<noteq> p" for p'
    using q bk_others(1) [OF thr] that by auto
  moreover have "bc_ok (br_consumer s k) (bs_pc (br_q t) (consumer_tid c k))" if "k < unat (cfg_consumers c)" for k
    using q bk_others(2) [OF thr _ that consumer_tid_not_producer [OF p]] thr that by (auto simp: bk_threads_def)
  moreover have "bs_pc (br_q t) u = B_idle" if "unat (cfg_producers c) + unat (cfg_consumers c) \<le> u" for u
    using q bk_others(3) [OF thr _ that] thr that p by (auto simp: bk_threads_def)
  ultimately show ?thesis using thr t p by (auto simp: bk_threads_def)
qed

lemma bk_hand_producer:
  assumes thr: "bk_threads c s" and p: "p < unat (cfg_producers c)"
    and q: "br_q t = br_q s \<or> bq_step p (br_q s) (br_q t)"
    and t: "br_consumer t = br_consumer s" "queue_held (bs_pc (br_q s) p) = None" "queue_held (bs_pc (br_q t) p) = None"
  shows "bk_hand c t = bk_hand c s"
proof
  fix u
  have "queue_held (bs_pc (br_q t) u) = queue_held (bs_pc (br_q s) u)"
    using q bk_others(4) [OF thr] t(2,3) by (cases "u = p") auto
  then show "bk_hand c t u = bk_hand c s u" unfolding bk_hand_def t(1) by simp
qed

lemma bk_done_producer:
  assumes "bk_threads c s" "p < unat (cfg_producers c)" "br_q t = br_q s \<or> bq_step p (br_q s) (br_q t)"
  shows "bs_pc (br_q t) (consumer_tid c k) = B_done r \<longleftrightarrow> bs_pc (br_q s) (consumer_tid c k) = B_done r"
  using bk_others(5) [OF assms(1) _ consumer_tid_not_producer [OF assms(2)]] assms(3) by auto

lemma bk_next_producer:
  assumes "bk_threads c s" "br_q t = br_q s \<or> bq_step p (br_q s) (br_q t)"
    and "br_producer t = (br_producer s)(p := m)" "\<And>p'. p' \<noteq> p \<Longrightarrow> br_local t p' = br_local s p'"
    and "p' < unat (cfg_producers c)" "p' \<noteq> p"
  shows "bk_next t p' = bk_next s p'"
  using bk_others(1) [OF assms(1) _ assms(5,6)] assms(2-4,6) by (auto simp: bk_next_def)

lemma bk_run_invD:
  assumes "bk_run_inv c f s"
  shows "check_config c = None" "bs_inv (ucast (cfg_capacity c)) (br_q s)" "bk_threads c s" "bk_closing c s"
    "bk_books c s" "br_failures s = f"
    "br_result s = Some (r, printed) \<Longrightarrow> r = (\<not> fr_failed f) \<and>
      (\<forall>p < unat (cfg_producers c). br_producer s p = Bp_end) \<and> (\<forall>k < unat (cfg_consumers c). br_consumer s k = Bc_end)"
  using assms unfolding bk_run_inv_def by blast+

text \<open>Steps of a producer that leave the books as they are.\<close>

lemma bk_books_same:
  assumes books: "bk_books c s"
    and t: "bs_in (br_q t) = bs_in (br_q s)" "bs_out (br_q t) = bs_out (br_q s)"
      "\<And>p. p < unat (cfg_producers c) \<Longrightarrow> bk_next t p = bk_next s p" "bk_hand c t = bk_hand c s"
      "br_local t = br_local s" "br_published t = br_published s" "br_pushed t = br_pushed s"
      "br_consumed t = br_consumed s" "br_popped t = br_popped s"
  shows "bk_books c t"
  using books t sent_log_cong [of c "bk_next t" "bk_next s"] unfolding bk_books_def by simp

lemma bk_closing_same:
  assumes cl: "bk_closing c s"
    and t: "br_remaining t = br_remaining s" "bs_q (br_q t) = bs_q (br_q s)"
      "\<And>p. p < unat (cfg_producers c) \<Longrightarrow> bk_active t p = bk_active s p"
      "\<And>p. p < unat (cfg_producers c) \<Longrightarrow> br_producer t p = Bp_close \<longleftrightarrow> br_producer s p = Bp_close"
      "\<And>k. k < unat (cfg_consumers c) \<Longrightarrow> br_consumer t k = Bc_end \<or> bs_pc (br_q t) (consumer_tid c k) = B_done (R_item None) \<Longrightarrow>
         br_consumer s k = Bc_end \<or> bs_pc (br_q s) (consumer_tid c k) = B_done (R_item None)"
  shows "bk_closing c t"
proof -
  have "{p. p < unat (cfg_producers c) \<and> bk_active t p} = {p. p < unat (cfg_producers c) \<and> bk_active s p}"
    using t(3) by auto
  then show ?thesis
    using cl t(4,5) unfolding bk_closing_def t(1,2) by (intro conjI; (elim conjE, simp)?) (blast | metis)+
qed

lemma bk_not_ended:
  "bk_run_inv c f s \<Longrightarrow> p < unat (cfg_producers c) \<Longrightarrow> br_producer s p \<noteq> Bp_end \<Longrightarrow> br_result s \<noteq> Some (r, printed)"
  "bk_run_inv c f s \<Longrightarrow> k < unat (cfg_consumers c) \<Longrightarrow> br_consumer s k \<noteq> Bc_end \<Longrightarrow> br_result s \<noteq> Some (r, printed)"
  using bk_run_invD(7) by blast+

section \<open>Steps of a producer\<close>

text \<open>A step that changes neither the queue, the books nor who is active.\<close>

lemma bk_producer_quiet:
  assumes inv: "bk_run_inv c f s" and p: "p < unat (cfg_producers c)"
    and q: "br_q t = br_q s \<or> bq_step p (br_q s) (br_q t)"
    and same: "bs_q (br_q t) = bs_q (br_q s)" "bs_in (br_q t) = bs_in (br_q s)" "bs_out (br_q t) = bs_out (br_q s)"
    and t: "t = s\<lparr>br_q := br_q t, br_full_retries := n, br_producer := (br_producer s)(p := m)\<rparr>" "bp_ok m (bs_pc (br_q t) p)"
    and pc: "br_producer s p \<noteq> Bp_end" "br_producer s p \<noteq> Bp_close" "m \<noteq> Bp_close"
      "br_producer s p \<in> {Bp_closing, Bp_end} \<longleftrightarrow> m \<in> {Bp_closing, Bp_end}"
      "\<not> (br_producer s p = Bp_push \<and> bs_pc (br_q s) p = B_done (R_status Success))"
      "m = Bp_push \<Longrightarrow> bs_pc (br_q t) p \<noteq> B_done (R_status Success)"
  shows "bk_run_inv c f t"
proof -
  note I = bk_run_invD [OF inv]
  have prod: "br_producer t = (br_producer s)(p := m)" "br_consumer t = br_consumer s" by (subst t(1); simp)+
  have rest: "br_local t = br_local s" "br_published t = br_published s" "br_pushed t = br_pushed s"
      "br_consumed t = br_consumed s" "br_popped t = br_popped s" "br_remaining t = br_remaining s"
      "br_failures t = br_failures s" "br_result t = br_result s"
    by (subst t(1); simp)+
  have okp: "bp_ok (br_producer s p) (bs_pc (br_q s) p)" using I(3) p by (simp add: bk_threads_def)
  have held: "queue_held (bs_pc (br_q s) p) = None" "queue_held (bs_pc (br_q t) p) = None"
    using okp t(2) pc by (cases "br_producer s p"; cases m; auto)+
  have nxt: "bk_next t p' = bk_next s p'" if "p' < unat (cfg_producers c)" for p'
  proof (cases "p' = p")
    case True
    then show ?thesis using pc(5,6) rest(1) prod(1) by (auto simp: bk_next_def)
  next
    case False
    then show ?thesis using bk_next_producer [OF I(3) q prod(1) _ that] rest(1) by simp
  qed
  have "bs_inv (ucast (cfg_capacity c)) (br_q t)" using q I(2) bs_inv_step by metis
  moreover have "bk_threads c t" by (rule bk_threads_producer [OF I(3) p q prod t(2)])
  moreover have "bk_closing c t"
  proof (rule bk_closing_same [OF I(4) rest(6) same(1)])
    show "bk_active t p' = bk_active s p'" for p' using pc prod(1) by (auto simp: bk_active_def)
    show "br_producer t p' = Bp_close \<longleftrightarrow> br_producer s p' = Bp_close" for p' using pc prod(1) by auto
  qed (use prod(2) bk_done_producer [OF I(3) p q] in auto)
  moreover have "bk_books c t"
    by (rule bk_books_same [OF I(5) same(2,3) nxt bk_hand_producer [OF I(3) p q prod(2) held] rest(1-5)])
  ultimately show ?thesis
    using I(1,6) rest(7,8) bk_not_ended(1) [OF inv p pc(1)] by (auto simp: bk_run_inv_def)
qed

lemma try_push_step:
  assumes "bq_step p q q'" "bs_pc q p = B_idle" "bs_pc q' p = B_done (R_status st)"
    and "bq_try_push (bs_q q) x = (st, bs_q q')" "bq_inv (bs_q q)"
  shows "bs_out q' = bs_out q \<and> bs_in q' = bs_in q @ (if st = Success then [x] else [])"
  using assms(1)
proof cases
  case (try_push_done y q1 f)
  then have q1: "st = Success" "bs_q q' = q1" using assms(3) by simp_all
  have "bq_queue q1 = bq_queue (bs_q q) @ [y]" "bq_queue q1 = bq_queue (bs_q q) @ [x]"
    using try_push_done(3) assms(4) unfolding q1 bq_try_push_Success [OF assms(5)] by (auto dest: arg_cong [of _ _ bq_queue])
  then have "y = x" by simp
  then show ?thesis using try_push_done(1) q1(1) by simp
next
  case (try_pop_done d y q1 f)
  then have "length (bq_queue (bs_q q')) < length (bq_queue (bs_q q))" by (auto simp: bq_try_pop_Success)
  moreover have "st = Success" using try_pop_done assms(3) by simp
  ultimately show ?thesis using assms(4,5) by (simp add: bq_try_push_Success)
next
  case (try_pop_fail d st' d' q1)
  then show ?thesis using assms(3) by auto
qed (use assms(2,3) in auto)

lemma bk_active_open:
  assumes inv: "bk_run_inv c f s" and p: "p < unat (cfg_producers c)" "bk_active s p"
  shows "br_remaining s \<noteq> 0" "\<not> bq_closed (bs_q (br_q s))"
proof -
  note cl = bk_run_invD(4) [OF inv]
  have "p \<in> {p. p < unat (cfg_producers c) \<and> bk_active s p}" using p by simp
  then have "0 < card {p. p < unat (cfg_producers c) \<and> bk_active s p}" by (subst card_gt_0_iff) auto
  then have "0 < unat (br_remaining s)" using cl unfolding bk_closing_def by simp
  then show 1: "br_remaining s \<noteq> 0" by auto
  then show "\<not> bq_closed (bs_q (br_q s))" using cl unfolding bk_closing_def by blast
qed

lemma bk_try_push_inv:
  assumes inv: "bk_run_inv c f s" and p: "p < unat (cfg_producers c)"
    and pc: "br_producer s p = Bp_loop" "br_local s p \<le> cfg_iterations c"
    and x: "x = make_payload c (of_nat p) (br_local s p) (global_sequence c (of_nat p) (br_local s p))"
    and q: "bq_step p (br_q s) q" "bs_pc q p = B_done (R_status st)" "bq_try_push (bs_q (br_q s)) x = (st, bs_q q)"
  shows "bk_run_inv c f (s\<lparr>br_q := q, br_producer := (br_producer s)(p := Bp_push)\<rparr>)"
proof -
  let ?t = "s\<lparr>br_q := q, br_producer := (br_producer s)(p := Bp_push)\<rparr>"
  note I = bk_run_invD [OF inv]
  have idle: "bs_pc (br_q s) p = B_idle" using I(3) p pc(1) by (auto simp: bk_threads_def)
  have qinv: "bq_inv (bs_q (br_q s))" using I(2) by (simp add: bs_inv_def)
  have active: "bk_active s p" using pc(1) by (simp add: bk_active_def)
  note open_q = bk_active_open [OF inv p active]
  note log = try_push_step [OF q(1) idle q(2,3) qinv]
  have st: "st = Full \<and> bs_q q = bs_q (br_q s) \<or> st = Success"
    using q(3) open_q(2) by (auto simp: bq_try_push_def split: if_splits)
  show ?thesis
  proof (cases "st = Success")
    case False
    then show ?thesis
      using st log q(1,2) pc idle
      by (intro bk_producer_quiet [OF inv p, where m = Bp_push and n = "br_full_retries s"]) auto
  next
    case succ: True
    let ?l = "unat (br_local s p)"
    have l: "0 < ?l" "?l \<le> unat (cfg_iterations c)" using I(5) p pc(2) by (auto simp: bk_books_def word_le_nat_alt)
    have step: "br_q ?t = br_q s \<or> bq_step p (br_q s) (br_q ?t)" using q(1) by simp
    have next_p: "bk_next s p = ?l" "bk_next ?t p = Suc ?l" using pc(1) q(2) succ by (simp_all add: bk_next_def)
    have nxt: "bk_next ?t p' = ((bk_next s)(p := Suc ?l)) p'" if "p' < unat (cfg_producers c)" for p'
      using bk_next_producer [OF I(3) step _ _ that, of Bp_push] next_p(2) by (cases "p' = p") simp_all
    have "sent_log c (bk_next s) (bs_in (br_q s))" using I(5) by (simp add: bk_books_def)
    then have "sent_log c ((bk_next s)(p := Suc ?l)) (bs_in (br_q s) @ [message c (number c p ?l)])"
      by (intro sent_log_next [OF I(1)] p next_p(1) l)
    moreover have "bs_in q = bs_in (br_q s) @ [message c (number c p ?l)]"
      using log succ x local_message(1) [OF I(1) p refl l] by simp
    ultimately have "sent_log c (bk_next ?t) (bs_in q)"
      using sent_log_cong [of c "bk_next ?t" "(bk_next s)(p := Suc ?l)", OF nxt] by simp
    moreover have "bk_hand c ?t = bk_hand c s"
      by (rule bk_hand_producer [OF I(3) p step]) (simp_all add: idle q(2))
    moreover have "bk_next ?t p' \<le> Suc (unat (cfg_iterations c))" if "p' < unat (cfg_producers c)" for p'
      using nxt [OF that] I(5) that l(2) by (auto simp: bk_books_def)
    ultimately have "bk_books c ?t" using I(5) log succ by (simp add: bk_books_def)
    moreover have "bk_threads c ?t"
      by (rule bk_threads_producer [where m = Bp_push, OF I(3) p step]) (simp_all add: q(2) succ)
    moreover have "bk_closing c ?t"
    proof -
      have "bk_active ?t p' = bk_active s p'" for p' using pc(1) by (simp add: bk_active_def)
      moreover have "\<not> bq_closed (bs_q q)"
        using q(3) succ open_q(2) by (auto simp: bq_try_push_def split: if_splits dest: arg_cong [of _ _ bq_closed])
      moreover have "br_consumer s k \<noteq> Bc_end" "bs_pc q (consumer_tid c k) \<noteq> B_done (R_item None)" if "k < unat (cfg_consumers c)" for k
        using I(4) open_q(2) that bk_done_producer [OF I(3) p step, of k] by (auto simp: bk_closing_def)
      ultimately show ?thesis using I(4) open_q by (auto simp: bk_closing_def)
    qed
    ultimately show ?thesis
      using I(1,6) bs_inv_step [OF q(1) I(2)] bk_not_ended(1) [OF inv p] pc(1) by (auto simp: bk_run_inv_def)
  qed
qed

lemma bq_return_step:
  "bq_step t q q' \<Longrightarrow> bs_pc q t = B_done r \<Longrightarrow> q' = q\<lparr>bs_pc := (bs_pc q)(t := B_idle)\<rparr>"
  by (erule bq_step.cases) auto

lemma bk_result_inv:
  assumes inv: "bk_run_inv c f s" and p: "p < unat (cfg_producers c)"
    and pc: "br_producer s p = Bp_push" "bs_pc (br_q s) p = B_done (R_status st)"
    and q: "bq_step p (br_q s) q"
  shows "bk_run_inv c f (bk_on_push c p st (s\<lparr>br_q := q\<rparr>))"
proof -
  note I = bk_run_invD [OF inv]
  have st: "st = Success \<or> st = Full" using I(3) p pc by (auto simp: bk_threads_def)
  have q': "q = (br_q s)\<lparr>bs_pc := (bs_pc (br_q s))(p := B_idle)\<rparr>" by (rule bq_return_step [OF q pc(2)])
  show ?thesis
  proof (cases "st = Success")
    case False
    then show ?thesis
      using st q q' pc
      by (intro bk_producer_quiet [OF inv p, where m = Bp_loop and n = "br_full_retries s + 1"])
        (auto simp: bk_on_push_def Let_def)
  next
    case succ: True
    let ?l = "unat (br_local s p)"
    define t where "t = bk_on_push c p st (s\<lparr>br_q := q\<rparr>)"
    have B: "0 < ?l" "bk_next s p \<le> Suc (unat (cfg_iterations c))"
      "flags c (numbers c (\<lambda>p. unat (br_local s p))) (br_published s)"
      "br_pushed s = of_nat (card (numbers c (\<lambda>p. unat (br_local s p))))"
      using I(5) p by (simp_all add: bk_books_def)
    have l: "?l \<le> unat (cfg_iterations c)" using B(2) pc succ by (simp add: bk_next_def)
    have loc: "unat (br_local s p + 1) = Suc ?l"
      using l checked_bounds(2) [OF I(1)] unat_Suc_word [of "br_local s p"] by simp
    have T: "br_q t = q" "br_producer t = (br_producer s)(p := Bp_loop)" "br_consumer t = br_consumer s"
      "br_local t = (br_local s)(p := br_local s p + 1)" "br_published t = (br_published s)[number c p ?l := 1]"
      "br_pushed t = br_pushed s + 1" "br_consumed t = br_consumed s" "br_popped t = br_popped s"
      "br_remaining t = br_remaining s" "br_failures t = br_failures s" "br_result t = br_result s"
      using succ local_message(2) [OF I(1) p refl B(1) l] by (simp_all add: t_def bk_on_push_def Let_def)
    have step: "br_q t = br_q s \<or> bq_step p (br_q s) (br_q t)" using q T(1) by simp
    have nxt: "bk_next t p' = bk_next s p'" if "p' < unat (cfg_producers c)" for p'
      using bk_next_producer [OF I(3) step T(2) _ that] T(4) loc pc succ
      by (cases "p' = p") (simp_all add: bk_next_def T(2))
    have locals: "(\<lambda>p'. unat (br_local t p')) = (\<lambda>p'. unat (br_local s p'))(p := Suc ?l)"
      using T(4) loc by auto
    note num = numbers_next [of p c "\<lambda>p'. unat (br_local s p')" ?l, OF p refl B(1) l]
    have "flags c (numbers c (\<lambda>p'. unat (br_local t p'))) (br_published t)"
      unfolding locals num(1) T(5) by (rule flags_set [OF B(3) number_bounds(2) [OF p B(1) l]])
    moreover have "br_pushed t = of_nat (card (numbers c (\<lambda>p'. unat (br_local t p'))))"
      unfolding locals num(1) T(6) using B(4) num(2) by simp
    moreover have "sent_log c (bk_next t) (bs_in (br_q t))"
      using I(5) sent_log_cong [of c "bk_next t" "bk_next s", OF nxt] by (simp add: bk_books_def T(1) q')
    moreover have "bk_hand c t = bk_hand c s"
      by (rule bk_hand_producer [OF I(3) p step T(3)]) (simp_all add: pc(2) T(1) q')
    moreover have "0 < unat (br_local t p') \<and> bk_next t p' \<le> Suc (unat (cfg_iterations c))" if "p' < unat (cfg_producers c)" for p'
      using I(5) nxt [OF that] that loc T(4) by (simp add: bk_books_def)
    ultimately have "bk_books c t" using I(5) T by (simp add: bk_books_def q')
    moreover have "bk_threads c t"
      by (rule bk_threads_producer [where m = Bp_loop, OF I(3) p step T(2,3)]) (simp add: T(1) q')
    moreover have "bk_closing c t"
    proof (rule bk_closing_same [OF I(4) T(9)])
      show "bs_q (br_q t) = bs_q (br_q s)" by (simp add: T(1) q')
      show "bk_active t p' = bk_active s p'" for p' using pc(1) T(2) by (simp add: bk_active_def)
      show "br_producer t p' = Bp_close \<longleftrightarrow> br_producer s p' = Bp_close" for p' using pc T(2) by auto
    qed (use T(3) bk_done_producer [OF I(3) p step] in auto)
    ultimately show ?thesis
      using I(1,6) bs_inv_step [OF q I(2)] bk_not_ended(1) [OF inv p] pc(1) T unfolding t_def [symmetric] by (auto simp: bk_run_inv_def)
  qed
qed

lemma bk_exit_inv:
  assumes inv: "bk_run_inv c f s" and p: "p < unat (cfg_producers c)" and pc: "br_producer s p = Bp_exit"
  shows "bk_run_inv c f (s\<lparr>br_remaining := br_remaining s - 1,
     br_producer := (br_producer s)(p := if br_remaining s = 1 then Bp_close else Bp_end)\<rparr>)"
proof -
  note I = bk_run_invD [OF inv]
  let ?m = "if br_remaining s = 1 then Bp_close else Bp_end"
  let ?t = "s\<lparr>br_remaining := br_remaining s - 1, br_producer := (br_producer s)(p := ?m)\<rparr>"
  have active: "bk_active s p" using pc by (simp add: bk_active_def)
  note open_q = bk_active_open [OF inv p active]
  have step: "br_q ?t = br_q s \<or> bq_step p (br_q s) (br_q ?t)" by simp
  have idle: "bs_pc (br_q s) p = B_idle" using I(3) p pc by (auto simp: bk_threads_def)
  have "bk_threads c ?t" by (rule bk_threads_producer [where m = ?m, OF I(3) p step]) (simp_all add: idle)
  moreover have "bk_books c ?t"
  proof (rule bk_books_same [OF I(5)])
    show "bk_hand c ?t = bk_hand c s" by (rule bk_hand_producer [OF I(3) p step]) (simp_all add: idle)
  qed (simp_all add: bk_next_def pc)
  moreover have "bk_closing c ?t"
  proof -
    let ?A = "{p. p < unat (cfg_producers c) \<and> bk_active s p}"
    have "{p. p < unat (cfg_producers c) \<and> bk_active ?t p} = ?A - {p}" by (auto simp: bk_active_def)
    moreover have "unat (br_remaining s) = card ?A" using I(4) unfolding bk_closing_def by blast
    moreover have "card (?A - {p}) = card ?A - 1" using p active by (intro card_Diff_singleton) simp
    moreover have rem: "unat (br_remaining s - 1) = unat (br_remaining s) - 1" using open_q(1) by (simp add: unat_minus_one)
    ultimately have 1: "unat (br_remaining ?t) = card {p. p < unat (cfg_producers c) \<and> bk_active ?t p}" by simp
    have zero: "br_remaining s - 1 = 0 \<longleftrightarrow> br_remaining s = 1" by auto
    have other: "br_producer s p' \<noteq> Bp_close" if "p' < unat (cfg_producers c)" for p'
      using I(4) open_q(1) that unfolding bk_closing_def by blast
    show ?thesis
      using 1 I(4) open_q(2) zero p other unfolding bk_closing_def by (auto split: if_splits)
  qed
  ultimately show ?thesis
    using I(1,2,6) bk_not_ended(1) [OF inv p] pc by (auto simp: bk_run_inv_def)
qed

lemma bk_close_inv:
  assumes inv: "bk_run_inv c f s" and p: "p < unat (cfg_producers c)" and pc: "br_producer s p = Bp_close"
    and q: "bq_step p (br_q s) q" "bs_pc q p = B_close_not_empty"
  shows "bk_run_inv c f (s\<lparr>br_q := q, br_producer := (br_producer s)(p := Bp_closing)\<rparr>)"
proof -
  note I = bk_run_invD [OF inv]
  let ?t = "s\<lparr>br_q := q, br_producer := (br_producer s)(p := Bp_closing)\<rparr>"
  have idle: "bs_pc (br_q s) p = B_idle" using I(3) p pc by (auto simp: bk_threads_def)
  have step: "br_q ?t = br_q s \<or> bq_step p (br_q s) (br_q ?t)" using q(1) by simp
  have q': "bs_q q = bq_close (bs_q (br_q s))" "bs_in q = bs_in (br_q s)" "bs_out q = bs_out (br_q s)"
    using q idle by (cases; simp)+
  have "bk_threads c ?t" by (rule bk_threads_producer [where m = Bp_closing, OF I(3) p step]) (simp_all add: q(2))
  moreover have "bk_books c ?t"
  proof (rule bk_books_same [OF I(5)])
    show "bk_hand c ?t = bk_hand c s" by (rule bk_hand_producer [OF I(3) p step]) (simp_all add: idle q(2))
    show "bk_next ?t p' = bk_next s p'" if "p' < unat (cfg_producers c)" for p'
      using bk_next_producer [OF I(3) step _ _ that, of Bp_closing] pc by (cases "p' = p") (simp_all add: bk_next_def)
  qed (simp_all add: q')
  moreover have "bk_closing c ?t"
  proof -
    have "br_remaining s = 0" using I(4) p pc unfolding bk_closing_def by blast
    moreover have "bk_active ?t p' = bk_active s p'" for p' using pc by (simp add: bk_active_def)
    moreover note bk_done_producer [OF I(3) p step]
    ultimately show ?thesis using I(4) unfolding bk_closing_def by (auto simp: q' bq_close_def)
  qed
  ultimately show ?thesis
    using I(1,6) bs_inv_step [OF q(1) I(2)] bk_not_ended(1) [OF inv p] pc by (auto simp: bk_run_inv_def)
qed

lemma bk_producer_step_inv:
  assumes inv: "bk_run_inv c f s" and p: "p < unat (cfg_producers c)" and step: "bk_producer_step c p s t"
  shows "bk_run_inv c f t"
proof -
  note thr = bk_run_invD(3) [OF inv]
  have ok: "bp_ok (br_producer s p) (bs_pc (br_q s) p)" using thr p by (simp add: bk_threads_def)
  from step show ?thesis
  proof cases
    case bp_start
    then show ?thesis using ok
      by (intro bk_producer_quiet [OF inv p, where m = Bp_loop and n = "br_full_retries s"]) auto
  next
    case bp_leave
    then show ?thesis using ok
      by (intro bk_producer_quiet [OF inv p, where m = Bp_exit and n = "br_full_retries s"]) auto
  next
    case (bp_try_push payload q st)
    then show ?thesis using bk_try_push_inv [OF inv p] by simp
  next
    case (bp_result st q)
    then show ?thesis using bk_result_inv [OF inv p] by simp
  next
    case bp_exit
    then show ?thesis using bk_exit_inv [OF inv p] by simp
  next
    case (bp_close q)
    then show ?thesis using bk_close_inv [OF inv p] by simp
  next
    case (bp_closing q)
    have q: "bs_q q = bs_q (br_q s)" "bs_in q = bs_in (br_q s)" "bs_out q = bs_out (br_q s)" "bp_ok Bp_closing (bs_pc q p)"
      using bp_closing(4,3) ok bp_closing(2) by (cases; auto)+
    have t: "t = s\<lparr>br_q := br_q t, br_full_retries := br_full_retries s, br_producer := (br_producer s)(p := Bp_closing)\<rparr>"
      unfolding bp_closing(1) fun_upd_idem [of "br_producer s" p Bp_closing, OF bp_closing(2)] by simp
    show ?thesis
      by (rule bk_producer_quiet [OF inv p _ _ _ _ t]) (use q bp_closing in simp_all)
  next
    case (bp_closed q)
    then show ?thesis using bq_return_step [OF bp_closed(4,3)] ok
      by (intro bk_producer_quiet [OF inv p, where m = Bp_end and n = "br_full_retries s"]) auto
  qed
qed

section \<open>Steps of a consumer\<close>

lemma bk_threads_consumer:
  assumes thr: "bk_threads c s" and k: "k < unat (cfg_consumers c)"
    and q: "br_q t = br_q s \<or> bq_step (consumer_tid c k) (br_q s) (br_q t)"
    and t: "br_producer t = br_producer s" "br_consumer t = (br_consumer s)(k := m)" "bc_ok m (bs_pc (br_q t) (consumer_tid c k))"
  shows "bk_threads c t"
proof -
  have "bs_pc (br_q t) p = bs_pc (br_q s) p" if "p < unat (cfg_producers c)" for p
    using q bk_others(1) [OF thr _ that] consumer_tid_not_producer [OF that, of k] by fastforce
  moreover have "bc_ok (br_consumer s j) (bs_pc (br_q t) (consumer_tid c j))" if "j < unat (cfg_consumers c)" "j \<noteq> k" for j
    using q bk_others(2) [OF thr _ that(1)] thr that by (auto simp: bk_threads_def)
  moreover have "bs_pc (br_q t) u = B_idle" if "unat (cfg_producers c) + unat (cfg_consumers c) \<le> u" for u
    using q bk_others(3) [OF thr _ that] thr that k by (auto simp: bk_threads_def consumer_tid_def)
  ultimately show ?thesis using thr t k by (auto simp: bk_threads_def)
qed

lemma bk_next_consumer:
  assumes "bk_threads c s" "br_q t = br_q s \<or> bq_step (consumer_tid c k) (br_q s) (br_q t)"
    and "br_producer t = br_producer s" "br_local t = br_local s" "p < unat (cfg_producers c)"
  shows "bk_next t p = bk_next s p"
  using bk_others(1) [OF assms(1) _ assms(5)] consumer_tid_not_producer [OF assms(5), of k] assms(2-4)
  by (auto simp: bk_next_def)

lemma bk_hand_consumer:
  assumes thr: "bk_threads c s"
    and q: "br_q t = br_q s \<or> bq_step (consumer_tid c k) (br_q s) (br_q t)"
    and t: "br_consumer t = (br_consumer s)(k := m)"
    and h: "h = (case queue_held (bs_pc (br_q t) (consumer_tid c k)) of Some x \<Rightarrow> Some x | None \<Rightarrow> item_held m)"
  shows "bk_hand c t = (bk_hand c s)(consumer_tid c k := h)"
proof
  fix u
  show "bk_hand c t u = ((bk_hand c s)(consumer_tid c k := h)) u"
  proof (cases "u = consumer_tid c k")
    case True
    then show ?thesis by (simp add: bk_hand_def h t consumer_tid_def split: option.split)
  next
    case False
    then have "queue_held (bs_pc (br_q t) u) = queue_held (bs_pc (br_q s) u)"
      using q bk_others(4) [OF thr] by auto
    moreover have "br_consumer t (u - unat (cfg_producers c)) = br_consumer s (u - unat (cfg_producers c))"
      if "unat (cfg_producers c) \<le> u"
      using False that t by (auto simp: consumer_tid_def)
    ultimately show ?thesis using False by (simp add: bk_hand_def split: option.split)
  qed
qed

lemma bk_hand_self:
  "bk_hand c s (consumer_tid c k) =
     (case queue_held (bs_pc (br_q s) (consumer_tid c k)) of Some x \<Rightarrow> Some x | None \<Rightarrow> item_held (br_consumer s k))"
  by (simp add: bk_hand_def consumer_tid_def split: option.split)

text \<open>A step of a consumer that takes no item and processes none.\<close>

lemma bk_consumer_quiet:
  assumes inv: "bk_run_inv c f s" and k: "k < unat (cfg_consumers c)"
    and q: "br_q t = br_q s \<or> bq_step (consumer_tid c k) (br_q s) (br_q t)"
    and same: "bs_q (br_q t) = bs_q (br_q s)" "bs_in (br_q t) = bs_in (br_q s)" "bs_out (br_q t) = bs_out (br_q s)"
    and t: "t = s\<lparr>br_q := br_q t, br_consumer := (br_consumer s)(k := m)\<rparr>" "bc_ok m (bs_pc (br_q t) (consumer_tid c k))"
    and pc: "br_consumer s k \<noteq> Bc_end"
      "(case queue_held (bs_pc (br_q t) (consumer_tid c k)) of Some x \<Rightarrow> Some x | None \<Rightarrow> item_held m) =
         bk_hand c s (consumer_tid c k)"
      "m = Bc_end \<or> bs_pc (br_q t) (consumer_tid c k) = B_done (R_item None) \<Longrightarrow>
         bq_closed (bs_q (br_q s)) \<and> bq_queue (bs_q (br_q s)) = []"
  shows "bk_run_inv c f t"
proof -
  note I = bk_run_invD [OF inv]
  have prod: "br_producer t = br_producer s" "br_consumer t = (br_consumer s)(k := m)" by (subst t(1); simp)+
  have rest: "br_local t = br_local s" "br_published t = br_published s" "br_pushed t = br_pushed s"
      "br_consumed t = br_consumed s" "br_popped t = br_popped s" "br_remaining t = br_remaining s"
      "br_failures t = br_failures s" "br_result t = br_result s"
    by (subst t(1); simp)+
  have hand: "bk_hand c t = bk_hand c s"
    using bk_hand_consumer [OF I(3) q prod(2) pc(2) [symmetric]] by simp
  have "bs_inv (ucast (cfg_capacity c)) (br_q t)" using q I(2) bs_inv_step by metis
  moreover have "bk_threads c t" by (rule bk_threads_consumer [OF I(3) k q prod t(2)])
  moreover have "bk_closing c t"
  proof -
    have "bq_closed (bs_q (br_q s)) \<and> bq_queue (bs_q (br_q s)) = []"
      if "j < unat (cfg_consumers c)" "br_consumer t j = Bc_end \<or> bs_pc (br_q t) (consumer_tid c j) = B_done (R_item None)" for j
    proof (cases "j = k")
      case True
      then show ?thesis using that(2) pc(3) prod(2) by simp
    next
      case False
      then have "br_consumer s j = Bc_end \<or> bs_pc (br_q s) (consumer_tid c j) = B_done (R_item None)"
        using that(2) q bk_others(5) [OF I(3)] prod(2) by auto
      then show ?thesis using I(4) that(1) unfolding bk_closing_def by blast
    qed
    moreover have "bk_active t = bk_active s" using prod(1) by (simp add: bk_active_def fun_eq_iff)
    ultimately show ?thesis using I(4) unfolding bk_closing_def rest(6) same(1) prod(1) by simp
  qed
  moreover have "bk_books c t"
    by (rule bk_books_same [OF I(5) same(2,3) bk_next_consumer [OF I(3) q prod(1) rest(1)] hand rest(1-5)])
  ultimately show ?thesis
    using I(1,6) rest(7,8) bk_not_ended(2) [OF inv k pc(1)] by (auto simp: bk_run_inv_def)
qed

text \<open>The item popped is in no other hands and was never marked.\<close>

lemma bk_take_inv:
  assumes inv: "bk_run_inv c f s" and k: "k < unat (cfg_consumers c)"
    and pc: "br_consumer s k = Bc_pop" "bs_pc (br_q s) (consumer_tid c k) = B_pop"
    and x: "bq_pop (bs_q (br_q s)) = Some (Some x, q1)"
    and q: "q = (br_q s)\<lparr>bs_q := q1, bs_out := bs_out (br_q s) @ [x],
      bs_pc := (bs_pc (br_q s))(consumer_tid c k := B_pop_notify x)\<rparr>"
  shows "bk_run_inv c f (s\<lparr>br_q := q\<rparr>)"
proof -
  note I = bk_run_invD [OF inv]
  let ?t = "s\<lparr>br_q := q\<rparr>" and ?T = "set (bs_out (br_q s))"
  have qstep: "bq_step (consumer_tid c k) (br_q s) q" unfolding q by (rule bq_step.pop_done [OF pc(2) x])
  have step: "br_q ?t = br_q s \<or> bq_step (consumer_tid c k) (br_q s) (br_q ?t)" using qstep by simp
  have cons: "br_consumer ?t = (br_consumer s)(k := Bc_pop)" using pc(1) by auto
  obtain rest where queue: "bq_queue (bs_q (br_q s)) = x # rest" "q1 = (bs_q (br_q s))\<lparr>bq_queue := rest\<rparr>"
    using x by (auto simp: bq_pop_item)
  have log: "sent_log c (bk_next s) (bs_in (br_q s))" "bs_in (br_q s) = bs_out (br_q s) @ x # rest"
    using I(2,5) queue by (simp_all add: bk_books_def bs_inv_def)
  have fresh: "x \<notin> ?T" using log by (auto simp: sent_log_def)
  have "x \<in> set (bs_in (br_q s))" by (simp add: log(2))
  then have msg: "x \<in> message c ` {1..slots c}" using sent_logD [OF log(1)] by blast
  have hand0: "bk_hand c s (consumer_tid c k) = None" using pc by (simp add: bk_hand_self)
  have hand: "bk_hand c ?t = (bk_hand c s)(consumer_tid c k := Some x)"
    by (rule bk_hand_consumer [OF I(3) step cons]) (simp add: q)
  obtain marked where led: "ledger c ?T (bk_hand c s) marked" "flags c marked (br_consumed s)" "br_popped s = of_nat (card marked)"
    using I(5) by (auto simp: bk_books_def)
  have "ledger c (set (bs_out q)) (bk_hand c ?t) marked"
    using ledger_take [OF I(1) led(1) msg fresh hand0] unfolding hand by (simp add: q)
  moreover have "bk_next ?t p = bk_next s p" if "p < unat (cfg_producers c)" for p
    using bk_next_consumer [OF I(3) step _ _ that] by simp
  moreover have "sent_log c (bk_next ?t) (bs_in q)"
    using log(1) sent_log_cong [of c "bk_next ?t" "bk_next s"] calculation(2) by (simp add: q)
  ultimately have "bk_books c ?t" using I(5) led unfolding bk_books_def by auto
  moreover have "bk_threads c ?t"
    by (rule bk_threads_consumer [where m = Bc_pop, OF I(3) k step _ cons]) (simp_all add: q)
  moreover have "bk_closing c ?t"
  proof -
    have "br_consumer s j \<noteq> Bc_end" "bs_pc q (consumer_tid c j) \<noteq> B_done (R_item None)" if "j < unat (cfg_consumers c)" for j
      using I(4) that queue(1) bk_others(5) [OF I(3) qstep, of "consumer_tid c j"] unfolding bk_closing_def
      by (cases "j = k"; auto simp: q)+
    moreover have "bk_active ?t = bk_active s" by (simp add: bk_active_def fun_eq_iff)
    ultimately show ?thesis using I(4) unfolding bk_closing_def by (simp add: q queue(2))
  qed
  ultimately show ?thesis
    using I(1,6) bs_inv_step [OF qstep I(2)] bk_not_ended(2) [OF inv k] pc(1) by (auto simp: bk_run_inv_def)
qed

lemma bk_item_inv:
  assumes inv: "bk_run_inv c f s" and k: "k < unat (cfg_consumers c)" and pc: "br_consumer s k = Bc_item x"
  shows "bk_run_inv c f (bk_on_item c k operation x s)"
proof -
  note I = bk_run_invD [OF inv]
  define t where "t = bk_on_item c k operation x s"
  have idle: "bs_pc (br_q s) (consumer_tid c k) = B_idle" using I(3) k pc by (auto simp: bk_threads_def)
  then have hand0: "bk_hand c s (consumer_tid c k) = Some x" using pc by (simp add: bk_hand_self)
  obtain marked where led: "ledger c (set (bs_out (br_q s))) (bk_hand c s) marked" "flags c marked (br_consumed s)"
      "br_popped s = of_nat (card marked)"
    using I(5) by (auto simp: bk_books_def)
  note L = ledgerD [OF led(1)]
  obtain g where g: "g \<in> {1..slots c}" "x = message c g" using L(1,2) hand0 by blast
  have ng: "number_of x = g" using g number_of_message [OF I(1)] by simp
  note rx = message_received [OF I(1) g(1), folded g(2)]
  have ug: "unat (of_nat g :: u64) = g" using g unat_total_slots(3) [OF I(1)] by (intro unat_of_nat_64) simp
  have unmarked: "g \<notin> marked" using L(3) hand0 ng by blast
  have zero: "br_consumed s ! g = 0" using flags_nth [OF led(2)] g(1) unmarked by simp
  have t: "t = s\<lparr>br_consumer := (br_consumer s)(k := Bc_loop), br_consumed := (br_consumed s)[g := 1],
      br_popped := br_popped s + 1\<rparr>"
    unfolding t_def bk_on_item_def Let_def using rx zero by (simp add: ug)
  have step: "br_q t = br_q s \<or> bq_step (consumer_tid c k) (br_q s) (br_q t)" by (simp add: t)
  have cons: "br_consumer t = (br_consumer s)(k := Bc_loop)" by (simp add: t)
  have hand: "bk_hand c t = (bk_hand c s)(consumer_tid c k := None)"
    by (rule bk_hand_consumer [OF I(3) step cons]) (simp add: t idle)
  have "ledger c (set (bs_out (br_q t))) (bk_hand c t) (insert g marked)"
    using ledger_mark [OF I(1) led(1) hand0] unfolding hand ng by (simp add: t)
  moreover have "flags c (insert g marked) (br_consumed t)" using flags_set [OF led(2), of g] g(1) by (simp add: t)
  moreover have "br_popped t = of_nat (card (insert g marked))"
  proof -
    have "finite marked" using L(5) finite_subset by (metis List.finite_set Un_upper1 finite_imageI)
    then show ?thesis using led(3) unmarked by (simp add: t)
  qed
  moreover have "bk_next t = bk_next s" "br_local t = br_local s" "br_published t = br_published s"
      "br_pushed t = br_pushed s" "bs_in (br_q t) = bs_in (br_q s)"
    by (simp_all add: bk_next_def t fun_eq_iff)
  ultimately have "bk_books c t" using I(5) unfolding bk_books_def by metis
  moreover have "bk_threads c t"
    by (rule bk_threads_consumer [where m = Bc_loop, OF I(3) k step _ cons]) (simp_all add: t idle)
  moreover have "bk_closing c t"
    by (rule bk_closing_same [OF I(4)]) (auto simp: t bk_active_def split: if_splits)
  ultimately show ?thesis
    using I(1,2,6) bk_not_ended(2) [OF inv k] pc unfolding t_def [symmetric] by (auto simp: bk_run_inv_def t)
qed

lemma bk_inside_quiet:
  assumes inv: "bk_run_inv c f s" and k: "k < unat (cfg_consumers c)" and pc: "br_consumer s k = Bc_pop"
    and step: "bq_step (consumer_tid c k) (br_q s) q"
    and q: "bs_q q = bs_q (br_q s)" "bs_in q = bs_in (br_q s)" "bs_out q = bs_out (br_q s)"
      "bc_ok Bc_pop (bs_pc q (consumer_tid c k))"
      "queue_held (bs_pc q (consumer_tid c k)) = queue_held (bs_pc (br_q s) (consumer_tid c k))"
      "bs_pc q (consumer_tid c k) = B_done (R_item None) \<Longrightarrow>
         bq_closed (bs_q (br_q s)) \<and> bq_queue (bs_q (br_q s)) = []"
  shows "bk_run_inv c f (s\<lparr>br_q := q\<rparr>)"
proof -
  let ?t = "s\<lparr>br_q := q\<rparr>"
  have t: "?t = s\<lparr>br_q := br_q ?t, br_consumer := (br_consumer s)(k := Bc_pop)\<rparr>"
    unfolding fun_upd_idem [of "br_consumer s" k Bc_pop, OF pc] by simp
  show ?thesis
    by (rule bk_consumer_quiet [OF inv k _ _ _ _ t]) (use step q pc in \<open>simp_all add: bk_hand_self split: option.split\<close>)
qed

lemma bk_consumer_step_inv:
  assumes inv: "bk_run_inv c f s" and k: "k < unat (cfg_consumers c)" and step: "bk_consumer_step c k s t"
  shows "bk_run_inv c f t"
proof -
  let ?u = "consumer_tid c k"
  have ok: "bc_ok (br_consumer s k) (bs_pc (br_q s) ?u)" using bk_run_invD(3) [OF inv] k by (simp add: bk_threads_def)
  from step show ?thesis
  proof cases
    case bc_start
    then show ?thesis using ok
      by (intro bk_consumer_quiet [OF inv k, where m = Bc_loop]) (simp_all add: bk_hand_self)
  next
    case (bc_call q)
    then have idle: "bs_pc (br_q s) ?u = B_idle" using ok by simp
    have "bs_q q = bs_q (br_q s)" "bs_in q = bs_in (br_q s)" "bs_out q = bs_out (br_q s)"
      using bc_call(3,4) idle by (cases; simp)+
    then show ?thesis using bc_call idle
      by (intro bk_consumer_quiet [OF inv k, where m = Bc_pop]) (simp_all add: bk_hand_self)
  next
    case (bc_inside q)
    then consider "bs_pc (br_q s) ?u = B_pop" | x where "bs_pc (br_q s) ?u = B_pop_notify x" using ok by auto
    then show ?thesis
    proof cases
      case 1
      from bc_inside(5) show ?thesis
      proof cases
        case (pop_done x q1)
        then show ?thesis using bk_take_inv [OF inv k bc_inside(2) 1 pop_done(3)] bc_inside(1) by simp
      next
        case pop_wait
        then show ?thesis unfolding bc_inside(1) using 1
          by (intro bk_inside_quiet [OF inv k bc_inside(2,5)]) simp_all
      next
        case (pop_closed q1)
        then show ?thesis unfolding bc_inside(1) using 1
          by (intro bk_inside_quiet [OF inv k bc_inside(2,5)]) (simp_all add: bq_pop_end)
      qed (use 1 in simp_all)
    next
      case (2 x)
      from bc_inside(5) show ?thesis
      proof cases
        case (pop_notify y g)
        then show ?thesis unfolding bc_inside(1) using 2
          by (intro bk_inside_quiet [OF inv k bc_inside(2,5)]) simp_all
      qed (use 2 in simp_all)
    qed
  next
    case (bc_payload x q)
    then show ?thesis using bq_return_step [OF bc_payload(4,3)]
      by (intro bk_consumer_quiet [OF inv k, where m = "Bc_item x"]) (simp_all add: bk_hand_self)
  next
    case (bc_item x operation)
    then show ?thesis using bk_item_inv [OF inv k] by simp
  next
    case (bc_end q)
    have "bq_closed (bs_q (br_q s)) \<and> bq_queue (bs_q (br_q s)) = []"
      using bk_run_invD(4) [OF inv] k bc_end(3) unfolding bk_closing_def by blast
    then show ?thesis using bc_end bq_return_step [OF bc_end(4,3)]
      by (intro bk_consumer_quiet [OF inv k, where m = Bc_end]) (simp_all add: bk_hand_self)
  qed
qed

lemma bk_spurious_step_inv:
  assumes inv: "bk_run_inv c f s" and k: "k < unat (cfg_consumers c)" and step: "bk_spurious_step c k s t"
  shows "bk_run_inv c f t"
  using step
proof cases
  case (bc_spurious q)
  from bc_spurious(4) show ?thesis
  proof cases
    case pop_spurious
    then show ?thesis unfolding bc_spurious(1)
      by (intro bk_inside_quiet [OF inv k bc_spurious(2,4)]) (use bc_spurious(3) in simp_all)
  qed (use bc_spurious(3) in simp_all)
qed

section \<open>The end of the run\<close>

lemma bk_settled:
  assumes inv: "bk_run_inv c f s"
    and ended: "\<And>p. p < unat (cfg_producers c) \<Longrightarrow> br_producer s p = Bp_end"
      "\<And>k. k < unat (cfg_consumers c) \<Longrightarrow> br_consumer s k = Bc_end"
  shows "br_published s = br_consumed s" "br_pushed s = br_popped s" "bs_out (br_q s) = bs_in (br_q s)"
    "br_pushed s = of_nat (length (bs_in (br_q s)))"
proof -
  note I = bk_run_invD [OF inv]
  have idle: "bs_pc (br_q s) t = B_idle" for t
  proof -
    consider "t < unat (cfg_producers c)" | k where "k < unat (cfg_consumers c)" "t = consumer_tid c k"
      | "unat (cfg_producers c) + unat (cfg_consumers c) \<le> t"
      unfolding consumer_tid_def by (metis add_less_cancel_left le_Suc_ex not_le)
    then show ?thesis using I(3) ended unfolding bk_threads_def by cases fastforce+
  qed
  have "item_held (br_consumer s k) = None" for k
    using ended(2) [of k] I(3) unfolding bk_threads_def by (cases "k < unat (cfg_consumers c)") auto
  then have hand: "bk_hand c s = (\<lambda>_. None)" by (simp add: bk_hand_def idle fun_eq_iff)
  have "bq_queue (bs_q (br_q s)) = []"
    using I(4) ended(2) checked_bounds(5) [OF I(1)] unfolding bk_closing_def by blast
  then show out: "bs_out (br_q s) = bs_in (br_q s)" using I(2) by (simp add: bs_inv_def)
  have nxt: "bk_next s p = unat (br_local s p)" if "p < unat (cfg_producers c)" for p
    using ended(1) [OF that] by (simp add: bk_next_def)
  note num = numbers_cong [of c "bk_next s" "\<lambda>p. unat (br_local s p)", OF nxt]
  obtain marked where led: "ledger c (set (bs_out (br_q s))) (bk_hand c s) marked" "flags c marked (br_consumed s)"
      "br_popped s = of_nat (card marked)"
    using I(5) by (auto simp: bk_books_def)
  have log: "sent_log c (bk_next s) (bs_in (br_q s))" using I(5) by (simp add: bk_books_def)
  have "marked = number_of ` set (bs_in (br_q s))" using ledger_settled led(1) unfolding hand out by blast
  then have marked: "marked = numbers c (\<lambda>p. unat (br_local s p))"
    using sent_log_numbers [OF I(1) log] num by simp
  have books: "flags c marked (br_published s)" "br_pushed s = of_nat (card marked)"
    using I(5) marked by (simp_all add: bk_books_def)
  show "br_published s = br_consumed s" by (rule flags_equal [OF books(1) led(2)])
  show "br_pushed s = br_popped s" using books(2) led(3) by simp
  show "br_pushed s = of_nat (length (bs_in (br_q s)))"
    using books(2) sent_log_length [OF I(1) log] num marked by simp
qed

lemma bk_main_step_inv:
  assumes inv: "bk_run_inv c f s" and step: "bk_main_step c s t"
  shows "bk_run_inv c f t"
proof -
  note I = bk_run_invD [OF inv]
  have keep: "bk_run_inv c f t"
    if t: "br_q t = br_q s" "br_remaining t = br_remaining s" "br_producer t = br_producer s" "br_consumer t = br_consumer s"
      "br_local t = br_local s" "br_published t = br_published s" "br_pushed t = br_pushed s" "br_consumed t = br_consumed s"
      "br_popped t = br_popped s" "br_failures t = f"
      and r: "\<And>r printed. br_result t = Some (r, printed) \<Longrightarrow> r = (\<not> fr_failed f) \<and>
        (\<forall>p < unat (cfg_producers c). br_producer s p = Bp_end) \<and> (\<forall>k < unat (cfg_consumers c). br_consumer s k = Bc_end)" for t
  proof -
    have "bk_hand c t = bk_hand c s" "bk_next t = bk_next s" "bk_active t = bk_active s"
      unfolding bk_hand_def bk_next_def bk_active_def t(1,3,4,5) by (rule refl)+
    then have "bk_threads c t" "bk_closing c t" "bk_books c t"
      using I(3-5) t by (simp_all add: bk_threads_def bk_closing_def bk_books_def)
    then show ?thesis using I(1,2) t r by (simp add: bk_run_inv_def)
  qed
  from step show ?thesis
  proof cases
    case bm_start
    then show ?thesis using I(6,7) by (intro keep) auto
  next
    case bm_finish
    note e = bk_settled [OF inv bm_finish(3,4)]
    then show ?thesis
      using bm_finish I(6) by (intro keep) (auto simp: bk_finish_def compare_equal Let_def)
  qed
qed

lemma bk_run_inv_init:
  assumes chk: "check_config c = None" and init: "bk_run_init c f s"
  shows "bk_run_inv c f s"
proof -
  have q: "bq_sys_init (ucast (cfg_capacity c)) (br_q s)"
    and s: "s = \<lparr>br_q = br_q s, br_start = False, br_remaining = cfg_producers c, br_pushed = 0, br_popped = 0,
       br_full_retries = 0, br_published = membership c, br_consumed = membership c, br_failures = f,
       br_local = (\<lambda>_. 1), br_producer = (\<lambda>_. Bp_wait), br_consumer = (\<lambda>_. Bc_wait), br_result = None\<rparr>"
    using init unfolding bk_run_init_def by blast+
  have f: "br_remaining s = cfg_producers c" "br_pushed s = 0" "br_popped s = 0" "br_published s = membership c"
      "br_consumed s = membership c" "br_failures s = f" "br_local s = (\<lambda>_. 1)" "br_producer s = (\<lambda>_. Bp_wait)"
      "br_consumer s = (\<lambda>_. Bc_wait)" "br_result s = None"
    by (subst s; simp)+
  have q': "bs_pc (br_q s) = (\<lambda>_. B_idle)" "bs_in (br_q s) = []" "bs_out (br_q s) = []" "\<not> bq_closed (bs_q (br_q s))"
    using q by (auto simp: bq_sys_init_def bq_make_def split: if_splits)
  have P: "0 < unat (cfg_producers c)" by (rule checked_bounds(3) [OF chk])
  have hand: "bk_hand c s = (\<lambda>_. None)" by (simp add: bk_hand_def f q' fun_eq_iff)
  have none: "numbers c (\<lambda>p. unat (br_local s p)) = {}" "numbers c (bk_next s) = {}"
    by (intro numbers_start; simp add: f bk_next_def)+
  have "bk_books c s"
    unfolding bk_books_def hand q' f(2-5) none sent_log_def
    using ledger_start flags_start [OF chk] checked_bounds(1) [OF chk]
    by (auto simp: f bk_next_def intro!: exI [of _ "{}"])
  moreover have "bk_closing c s"
    using P q' by (auto simp: bk_closing_def f bk_active_def)
  ultimately show ?thesis
    using chk bs_inv_init [OF q] by (simp add: bk_run_inv_def bk_threads_def f q')
qed

interpretation bk_stress: invariant_system
  "\<lambda>s. check_config c = None \<and> bk_run_init c f s" "bk_run_step c" "bk_run_inv c f"
  for c f
  by unfold_locales
    (auto simp: bk_run_step_def bk_progress_step_def
      intro: bk_run_inv_init bk_producer_step_inv bk_consumer_step_inv bk_spurious_step_inv bk_main_step_inv)

section \<open>The run is never stuck\<close>

lemma notify_one_possible: "\<exists>g. notify_one wake f g"
  unfolding notify_one_def by blast

lemma bq_pop_enabled:
  assumes "bs_pc q t = B_pop \<or> (\<exists>x. bs_pc q t = B_pop_notify x)"
  shows "\<exists>q'. bq_step t q q'"
proof -
  consider "bs_pc q t = B_pop" "bq_pop (bs_q q) = None" | q1 where "bs_pc q t = B_pop" "bq_pop (bs_q q) = Some (None, q1)"
    | x q1 where "bs_pc q t = B_pop" "bq_pop (bs_q q) = Some (Some x, q1)" | x where "bs_pc q t = B_pop_notify x"
    using assms by (metis not_Some_eq surj_pair)
  then show ?thesis
    using notify_one_possible [of wake_push "bs_pc q"] by cases (blast intro: bq_step.intros)+
qed

lemma bk_producer_enabled:
  assumes inv: "bk_run_inv c f s" and p: "p < unat (cfg_producers c)" "br_start s" "br_producer s p \<noteq> Bp_end"
  shows "\<exists>t. bk_producer_step c p s t \<and> bp_rank (br_producer t p) (bs_pc (br_q t) p) < bp_rank (br_producer s p) (bs_pc (br_q s) p)"
    (is "\<exists>t. _ \<and> ?less t")
proof -
  have ok: "bp_ok (br_producer s p) (bs_pc (br_q s) p)" using bk_run_invD(3) [OF inv] p by (simp add: bk_threads_def)
  have go: ?thesis if "bk_producer_step c p s t" "?less t" for t using that by blast
  show ?thesis
  proof (cases "br_producer s p")
    case Bp_wait
    then show ?thesis using p by (intro go [OF bp_start]) auto
  next
    case Bp_loop
    then show ?thesis by (intro go [OF bp_leave]) auto
  next
    case Bp_push
    then obtain st where st: "bs_pc (br_q s) p = B_done (R_status st)" using ok by auto
    show ?thesis by (rule go [OF bp_result [OF Bp_push st bq_step.return [OF st]]]) (simp add: Bp_push bk_on_push_def Let_def)
  next
    case Bp_exit
    then show ?thesis by (intro go [OF bp_exit]) auto
  next
    case Bp_close
    then have "bs_pc (br_q s) p = B_idle" using ok by simp
    then show ?thesis using Bp_close by (intro go [OF bp_close [OF Bp_close bq_step.close_begin]]) auto
  next
    case Bp_closing
    then consider "bs_pc (br_q s) p = B_close_not_empty" | "bs_pc (br_q s) p = B_close_not_full" | "bs_pc (br_q s) p = B_done R_unit"
      using ok by auto
    then show ?thesis
    proof cases
      case 1
      then show ?thesis using Bp_closing by (intro go [OF bp_closing [OF Bp_closing _ bq_step.close_not_empty]]) auto
    next
      case 2
      then show ?thesis using Bp_closing by (intro go [OF bp_closing [OF Bp_closing _ bq_step.close_not_full]]) auto
    next
      case 3
      then show ?thesis using Bp_closing by (intro go [OF bp_closed [OF Bp_closing 3 bq_step.return [OF 3]]]) auto
    qed
  qed (use p in simp)
qed

lemma bk_consumer_enabled:
  assumes inv: "bk_run_inv c f s" and k: "k < unat (cfg_consumers c)" "br_start s" "br_consumer s k \<noteq> Bc_end"
    and awake: "bs_pc (br_q s) (consumer_tid c k) \<noteq> B_pop_wait"
  shows "\<exists>t. bk_consumer_step c k s t"
proof -
  let ?u = "consumer_tid c k"
  have ok: "bc_ok (br_consumer s k) (bs_pc (br_q s) ?u)" using bk_run_invD(3) [OF inv] k by (simp add: bk_threads_def)
  show ?thesis
  proof (cases "br_consumer s k")
    case Bc_loop
    then show ?thesis using ok bk_consumer_step.bc_call [OF Bc_loop bq_step.call_pop] by fastforce
  next
    case Bc_pop
    then consider "bs_pc (br_q s) ?u = B_pop \<or> (\<exists>x. bs_pc (br_q s) ?u = B_pop_notify x)" "\<And>r. bs_pc (br_q s) ?u \<noteq> B_done r"
      | y where "bs_pc (br_q s) ?u = B_done (R_item y)"
      using ok awake by auto
    then show ?thesis
    proof cases
      case 1
      then show ?thesis using bq_pop_enabled [OF 1(1)] bk_consumer_step.bc_inside [OF Bc_pop awake] by blast
    next
      case (2 y)
      then show ?thesis
        using bq_step.return [OF 2] bk_consumer_step.bc_payload [OF Bc_pop] bk_consumer_step.bc_end [OF Bc_pop]
        by (cases y) blast+
    qed
  next
    case (Bc_item x)
    then show ?thesis using bk_consumer_step.bc_item by blast
  qed (use k bk_consumer_step.bc_start in blast)+
qed

text \<open>Once the producers have ended the queue is closed and no consumer waits.\<close>

lemma bk_all_awake:
  assumes inv: "bk_run_inv c f s" and ended: "\<And>p. p < unat (cfg_producers c) \<Longrightarrow> br_producer s p = Bp_end"
  shows "bq_closed (bs_q (br_q s))" "k < unat (cfg_consumers c) \<Longrightarrow> bs_pc (br_q s) (consumer_tid c k) \<noteq> B_pop_wait"
proof -
  note I = bk_run_invD [OF inv]
  have "{p. p < unat (cfg_producers c) \<and> bk_active s p} = {}" using ended by (auto simp: bk_active_def)
  then have "unat (br_remaining s) = 0" using I(4) unfolding bk_closing_def by simp
  then have "br_remaining s = 0" by (simp add: word_unat_eq_iff)
  then show closed: "bq_closed (bs_q (br_q s))" using I(4) ended unfolding bk_closing_def by auto
  show "bs_pc (br_q s) (consumer_tid c k) \<noteq> B_pop_wait"
  proof
    assume "bs_pc (br_q s) (consumer_tid c k) = B_pop_wait"
    then obtain t where t: "bs_pc (br_q s) t = B_close_not_empty"
      using I(2) closed by (auto simp: bs_inv_def pop_wakeups_def wakeups_def)
    consider "t < unat (cfg_producers c)" | j where "j < unat (cfg_consumers c)" "t = consumer_tid c j"
      | "unat (cfg_producers c) + unat (cfg_consumers c) \<le> t"
      unfolding consumer_tid_def by (metis add_less_cancel_left le_Suc_ex not_le)
    then show False
    proof cases
      case 1
      then show False using I(3) t ended unfolding bk_threads_def by fastforce
    next
      case (2 j)
      then have "bc_ok (br_consumer s j) B_close_not_empty" using I(3) t unfolding bk_threads_def by metis
      then show False by (cases "br_consumer s j") auto
    next
      case 3
      then show False using I(3) t unfolding bk_threads_def by simp
    qed
  qed
qed

lemma bk_consumer_rank:
  assumes inv: "bk_run_inv c f s" and k: "k < unat (cfg_consumers c)" and closed: "bq_closed (bs_q (br_q s))"
    and step: "bk_consumer_step c k s t"
  shows "bk_rank c t k < bk_rank c s k"
proof -
  have ok: "bc_ok (br_consumer s k) (bs_pc (br_q s) (consumer_tid c k))"
    using bk_run_invD(3) [OF inv] k by (simp add: bk_threads_def)
  from step show ?thesis
  proof cases
    case (bc_call q)
    from bc_call(3) have "bs_q q = bs_q (br_q s)" using bc_call(4) ok bc_call(2) by cases auto
    then show ?thesis using bc_call by (simp add: bk_rank_def)
  next
    case (bc_inside q)
    from bc_inside(5) show ?thesis using bc_inside ok closed
      by cases (auto simp: bk_rank_def bq_pop_def bq_can_pop_def notify_one_def split: list.splits if_splits)
  next
    case (bc_payload x q)
    from bc_payload(4) have "bs_q q = bs_q (br_q s)" using bc_payload(3) by cases auto
    then show ?thesis using bc_payload by (simp add: bk_rank_def)
  next
    case (bc_end q)
    from bc_end(4) have "bs_q q = bs_q (br_q s)" using bc_end(3) by cases auto
    then show ?thesis using bc_end by (simp add: bk_rank_def)
  next
    case (bc_item x operation)
    then show ?thesis by (auto simp: bk_rank_def bk_on_item_def Let_def split: prod.splits)
  qed (simp_all add: bk_rank_def)
qed

section \<open>Every run can be finished\<close>

lemma bk_producer_beside:
  assumes "(bk_producer_step c p)\<^sup>*\<^sup>* s t"
  shows "br_start t = br_start s \<and> br_result t = br_result s \<and> (\<forall>j. j \<noteq> p \<longrightarrow> br_producer t j = br_producer s j)"
  using assms
proof (induction rule: rtranclp_induct)
  case (step t u)
  from step(2) show ?case using step(3) by cases (auto simp: bk_on_push_def Let_def)
qed simp

lemma bk_consumer_beside:
  assumes "(bk_consumer_step c k)\<^sup>*\<^sup>* s t"
  shows "br_start t = br_start s \<and> br_result t = br_result s \<and> br_producer t = br_producer s \<and>
    (\<forall>j. j \<noteq> k \<longrightarrow> br_consumer t j = br_consumer s j)"
  using assms
proof (induction rule: rtranclp_induct)
  case (step t u)
  from step(2) show ?case using step(3) by cases (auto simp: bk_on_item_def Let_def split: prod.splits)
qed simp

lemma bk_producer_run:
  "(bk_producer_step c p)\<^sup>*\<^sup>* s t \<Longrightarrow> p < unat (cfg_producers c) \<Longrightarrow> (bk_progress_step c)\<^sup>*\<^sup>* s t"
  by (erule rtranclp_mono [THEN predicate2D, rotated]) (auto simp: bk_progress_step_def)

lemma bk_consumer_run:
  "(bk_consumer_step c k)\<^sup>*\<^sup>* s t \<Longrightarrow> k < unat (cfg_consumers c) \<Longrightarrow> (bk_progress_step c)\<^sup>*\<^sup>* s t"
  by (erule rtranclp_mono [THEN predicate2D, rotated]) (auto simp: bk_progress_step_def)

lemma bk_progress_inv:
  assumes "(bk_progress_step c)\<^sup>*\<^sup>* s t" "bk_run_inv c f s"
  shows "bk_run_inv c f t"
  using assms
proof (induction rule: rtranclp_induct)
  case (step t u)
  then show ?case
    using bk_producer_step_inv bk_consumer_step_inv bk_main_step_inv unfolding bk_progress_step_def by blast
qed

lemma bk_producer_ends:
  assumes "bk_run_inv c f s" "p < unat (cfg_producers c)" "br_start s"
  shows "\<exists>t. (bk_producer_step c p)\<^sup>*\<^sup>* s t \<and> br_producer t p = Bp_end"
  using assms
proof (induction "bp_rank (br_producer s p) (bs_pc (br_q s) p)" arbitrary: s rule: less_induct)
  case less
  show ?case
  proof (cases "br_producer s p = Bp_end")
    case False
    obtain t where t: "bk_producer_step c p s t" "bp_rank (br_producer t p) (bs_pc (br_q t) p) < bp_rank (br_producer s p) (bs_pc (br_q s) p)"
      using bk_producer_enabled [OF less(2-4) False] by blast
    have one: "(bk_producer_step c p)\<^sup>*\<^sup>* s t" using t(1) by blast
    obtain u where "(bk_producer_step c p)\<^sup>*\<^sup>* t u" "br_producer u p = Bp_end"
      using less(1) [OF t(2) bk_producer_step_inv [OF less(2,3) t(1)] less(3)] bk_producer_beside [OF one] less(4) by auto
    then show ?thesis using one by (meson rtranclp_trans)
  qed blast
qed

lemma bk_producers_end:
  assumes inv: "bk_run_inv c f s" and start: "br_start s" and n: "n \<le> unat (cfg_producers c)"
  shows "\<exists>t. (bk_progress_step c)\<^sup>*\<^sup>* s t \<and> br_start t \<and> (\<forall>p < n. br_producer t p = Bp_end)"
  using n
proof (induction n)
  case (Suc n)
  then obtain t where t: "(bk_progress_step c)\<^sup>*\<^sup>* s t" "br_start t" "\<forall>p < n. br_producer t p = Bp_end" by auto
  have n: "n < unat (cfg_producers c)" using Suc.prems by simp
  obtain u where u: "(bk_producer_step c n)\<^sup>*\<^sup>* t u" "br_producer u n = Bp_end"
    using bk_producer_ends [OF bk_progress_inv [OF t(1) inv] n t(2)] by blast
  have "\<forall>p < Suc n. br_producer u p = Bp_end" using bk_producer_beside [OF u(1)] t(3) u(2) by (metis less_Suc_eq)
  then show ?case using bk_producer_beside [OF u(1)] t(1,2) bk_producer_run [OF u(1) n] by (meson rtranclp_trans)
qed (use start in blast)

lemma bk_consumer_ends:
  assumes "bk_run_inv c f s" "k < unat (cfg_consumers c)" "br_start s"
    and "\<And>p. p < unat (cfg_producers c) \<Longrightarrow> br_producer s p = Bp_end"
  shows "\<exists>t. (bk_consumer_step c k)\<^sup>*\<^sup>* s t \<and> br_consumer t k = Bc_end"
  using assms
proof (induction "bk_rank c s k" arbitrary: s rule: less_induct)
  case less
  show ?case
  proof (cases "br_consumer s k = Bc_end")
    case False
    obtain t where t: "bk_consumer_step c k s t"
      using bk_consumer_enabled [OF less(2-4) False bk_all_awake(2) [OF less(2,5,3)]] by blast
    have one: "(bk_consumer_step c k)\<^sup>*\<^sup>* s t" using t(1) by blast
    obtain u where "(bk_consumer_step c k)\<^sup>*\<^sup>* t u" "br_consumer u k = Bc_end"
      using less(1) [OF bk_consumer_rank [OF less(2,3) bk_all_awake(1) [OF less(2,5)] t] bk_consumer_step_inv [OF less(2,3) t] less(3)]
        bk_consumer_beside [OF one] less(4,5) by auto
    then show ?thesis using one by (meson rtranclp_trans)
  qed blast
qed

lemma bk_consumers_end:
  assumes inv: "bk_run_inv c f s" and start: "br_start s" and n: "n \<le> unat (cfg_consumers c)"
    and ended: "\<And>p. p < unat (cfg_producers c) \<Longrightarrow> br_producer s p = Bp_end"
  shows "\<exists>t. (bk_progress_step c)\<^sup>*\<^sup>* s t \<and> br_start t \<and> br_producer t = br_producer s \<and> (\<forall>k < n. br_consumer t k = Bc_end)"
  using n
proof (induction n)
  case (Suc n)
  then obtain t where t: "(bk_progress_step c)\<^sup>*\<^sup>* s t" "br_start t" "br_producer t = br_producer s" "\<forall>k < n. br_consumer t k = Bc_end"
    by auto
  have n: "n < unat (cfg_consumers c)" using Suc.prems by simp
  obtain u where u: "(bk_consumer_step c n)\<^sup>*\<^sup>* t u" "br_consumer u n = Bc_end"
    using bk_consumer_ends [OF bk_progress_inv [OF t(1) inv] n t(2)] t(3) ended by auto
  have "\<forall>k < Suc n. br_consumer u k = Bc_end" using bk_consumer_beside [OF u(1)] t(4) u(2) by (metis less_Suc_eq)
  then show ?case using bk_consumer_beside [OF u(1)] t(1-3) bk_consumer_run [OF u(1) n] by (metis rtranclp_trans)
qed (use start in blast)

lemma bk_finish_result: "\<exists>r printed. br_result (bk_finish c s) = Some (r, printed)"
  by (cases "compare_membership ''blocking'' c (br_published s) (br_consumed s) (br_failures s)")
    (simp add: bk_finish_def Let_def)

lemma bk_can_finish:
  assumes inv: "bk_run_inv c f s"
  shows "\<exists>t r. (bk_progress_step c)\<^sup>*\<^sup>* s t \<and> br_result t = Some r"
proof -
  let ?R = "(bk_progress_step c)\<^sup>*\<^sup>*"
  obtain t where t: "?R s t" "br_start t"
  proof (cases "br_start s")
    case False
    have "bk_progress_step c s (s\<lparr>br_start := True\<rparr>)" using bm_start [OF False] by (auto simp: bk_progress_step_def)
    then show ?thesis using that by (metis bk_run.select_convs(2) bk_run.update_convs(2) bk_run.surjective r_into_rtranclp)
  qed (use that in blast)
  obtain u where u: "?R t u" "br_start u" "\<forall>p < unat (cfg_producers c). br_producer u p = Bp_end"
    using bk_producers_end [OF bk_progress_inv [OF t(1) inv] t(2) order.refl] by blast
  have su: "?R s u" using t(1) u(1) by simp
  obtain v where v: "?R u v" "br_start v" "br_producer v = br_producer u" "\<forall>k < unat (cfg_consumers c). br_consumer v k = Bc_end"
    using bk_consumers_end [OF bk_progress_inv [OF su inv] u(2) order.refl] u(3) by blast
  have sv: "?R s v" using su v(1) by simp
  show ?thesis
  proof (cases "br_result v")
    case None
    have "bk_progress_step c v (bk_finish c v)"
      using bm_finish [OF v(2)] v(3,4) u(3) None by (simp add: bk_progress_step_def)
    then show ?thesis using sv bk_finish_result [of c v] by (meson rtranclp.rtrancl_into_rtrancl)
  qed (use sv in blast)
qed

section \<open>Outcomes\<close>

lemma close_smoke_passes:
  assumes "timely 0" "timely 1"
  shows "close_smoke timely c f = Inr (True, f)"
  using assms
  by (simp add: close_smoke_def bq_make_def bq_pop_def bq_push_def bq_close_def bq_can_pop_def bq_can_push_def Let_def)

lemma bk_run_reach:
  assumes "check_config c = None" "bk_run_init c f s0" "(bk_run_step c)\<^sup>*\<^sup>* s0 s"
  shows "bk_run_inv c f s"
  using bk_stress.run_inv [OF assms(3)] bk_run_inv_init [OF assms(1,2)] by blast

lemma run_blocking_outcome:
  assumes "check_config c = None" "timely 0" "timely 1" "run_blocking timely c f passed f' printed"
  shows "f' = f \<and> passed = (\<not> fr_failed f)"
proof -
  obtain s0 s where s: "bk_run_init c f s0" "(bk_run_step c)\<^sup>*\<^sup>* s0 s" "br_result s = Some (passed, printed)"
      "br_failures s = f'"
    using assms(4) by (auto simp: run_blocking_def close_smoke_passes [OF assms(2,3)])
  note I = bk_run_invD [OF bk_run_reach [OF assms(1) s(1,2)]]
  show ?thesis using I(6) I(7) [OF s(3)] s(4) by simp
qed

lemma bk_init_possible:
  assumes "check_config c = None"
  shows "\<exists>s. bk_run_init c f s"
proof -
  have "(ucast (cfg_capacity c) :: u64) \<noteq> 0"
    using checked_bounds(9) [OF assms] unat_ucast_u32 [of "cfg_capacity c"] by (metis less_irrefl unsigned_0)
  then show ?thesis by (auto simp: bk_run_init_def bq_sys_init_def bq_make_def intro!: exI)
qed

lemma run_blocking_possible:
  assumes chk: "check_config c = None"
  shows "\<exists>s0 s printed. bk_run_init c f s0 \<and> (bk_run_step c)\<^sup>*\<^sup>* s0 s \<and>
    br_result s = Some (\<not> fr_failed f, printed) \<and> br_failures s = f"
proof -
  obtain s0 where s0: "bk_run_init c f s0" using bk_init_possible [OF chk] by blast
  have I0: "bk_run_inv c f s0" by (rule bk_run_inv_init [OF chk s0])
  obtain s r printed where s: "(bk_progress_step c)\<^sup>*\<^sup>* s0 s" "br_result s = Some (r, printed)"
    using bk_can_finish [OF I0] by force
  note I = bk_run_invD [OF bk_progress_inv [OF s(1) I0]]
  have "(bk_run_step c)\<^sup>*\<^sup>* s0 s"
    using s(1) by (rule rtranclp_mono [THEN predicate2D, rotated]) (auto simp: bk_run_step_def)
  then show ?thesis using s0 s(2) I(6) I(7) [OF s(2)] by blast
qed

section \<open>Properties\<close>

text \<open>
  C28: The blocking-queue stress run accepts the queue: for every accepted configuration, every
  schedule, every choice of notified or spuriously woken thread and every moment of the deadline, no
  failure is ever recorded, and a run without a result can be continued to one by steps that are not
  spurious wake-ups: all threads can end, because the last producer closes the queue. At the end
  the run reports success (unless a failure was on record before), every message published was
  consumed exactly once, and the totals agree. The preceding close test passes when the two woken
  calls return within their second.
\<close>

theorem stress_blocking_passes:
  assumes "check_config c = None" "bk_run_init c f s0" "(bk_run_step c)\<^sup>*\<^sup>* s0 s"
  shows "br_failures s = f \<and> (timely 0 \<and> timely 1 \<longrightarrow> close_smoke timely c f = Inr (True, f)) \<and>
    (case br_result s of
       None \<Rightarrow> \<exists>t r. (bk_progress_step c)\<^sup>*\<^sup>* s t \<and> br_result t = Some r
     | Some (passed, printed) \<Rightarrow> passed = (\<not> fr_failed f) \<and> br_published s = br_consumed s \<and>
         br_pushed s = br_popped s \<and> bs_out (br_q s) = bs_in (br_q s) \<and> distinct (bs_in (br_q s)))"
proof -
  have inv: "bk_run_inv c f s" by (rule bk_run_reach [OF assms])
  note I = bk_run_invD [OF inv]
  have "distinct (bs_in (br_q s))" using I(5) by (simp add: bk_books_def sent_log_def)
  moreover have "passed = (\<not> fr_failed f)" "br_published s = br_consumed s" "br_pushed s = br_popped s"
      "bs_out (br_q s) = bs_in (br_q s)"
    if "br_result s = Some (passed, printed)" for passed printed
    using I(7) [OF that] bk_settled [OF inv] by blast+
  ultimately show ?thesis
    using close_smoke_passes I(6) bk_can_finish [OF inv] by (auto split: option.split)
qed

theorem stress_blocking_passes_witness:
  "\<exists>s0 s printed. check_config default_config = None \<and> bk_run_init default_config None s0 \<and>
     (bk_run_step default_config)\<^sup>*\<^sup>* s0 s \<and> br_result s = Some (True, printed) \<and> br_published s = br_consumed s"
proof -
  have chk: "check_config default_config = None" by code_simp
  obtain s0 s printed where s: "bk_run_init default_config None s0" "(bk_run_step default_config)\<^sup>*\<^sup>* s0 s"
      "br_result s = Some (\<not> fr_failed None, printed)"
    using run_blocking_possible [OF chk, of None] by auto
  then show ?thesis using stress_blocking_passes [OF chk s(1,2)] chk by (fastforce simp: fr_failed_def)
qed

end
