(* ===== verification/Stress_Mpmc.thy ===== *)
theory Stress_Mpmc
  imports Mpmc_Concurrent Stress_Ledger
begin

text \<open>
  The MPMC stress run (\<open>run_mpmc\<close> of \<open>stress/queue_stress.cpp\<close>) on the interleaved queue of
  \<open>Mpmc_Concurrent\<close>. The clock may reach the deadline at any test of it and \<open>yield\<close> has no effect.
  The fetch-and-adds on \<open>pushed\<close>, \<open>popped\<close> and \<open>remaining_producers\<close> act on the newest value. A
  consumer's loads of \<open>remaining_producers\<close> and \<open>popped\<close> may return older values; once it has read
  0 from \<open>remaining_producers\<close> with acquire it synchronizes with every producer's decrement, so its
  load of \<open>pushed\<close> then returns the newest value. Processing one message touches shared state only
  in critical sections and is one step.
\<close>

section \<open>Definitions\<close>

datatype mp_pc = Mp_wait | Mp_loop | Mp_push | Mp_exit | Mp_end

datatype mc_pc = Mc_wait | Mc_loop | Mc_pop | Mc_item read_result "byte list" | Mc_empty | Mc_end

record mpmc_run =
  mr_q :: mpmc_sys
  mr_start :: bool
  mr_remaining :: u32
  mr_pushed :: u64
  mr_popped :: u64
  mr_full_retries :: u64
  mr_empty_retries :: u64
  mr_published :: "byte list"
  mr_consumed :: "byte list"
  mr_failures :: recorder
  mr_local :: "nat \<Rightarrow> u64"
  mr_last :: "nat \<Rightarrow> u64"
  mr_producer :: "nat \<Rightarrow> mp_pc"
  mr_consumer :: "nat \<Rightarrow> mc_pc"
  mr_result :: "(bool \<times> string) option"

definition mpmc_run_init :: "config \<Rightarrow> recorder \<Rightarrow> mpmc_run \<Rightarrow> bool" where
  "mpmc_run_init c failures s \<longleftrightarrow> mpmc_sys_init max_payload_size (ucast (cfg_capacity c)) (mr_q s) \<and>
     s = \<lparr>mr_q = mr_q s, mr_start = False, mr_remaining = cfg_producers c, mr_pushed = 0, mr_popped = 0,
       mr_full_retries = 0, mr_empty_retries = 0, mr_published = membership c, mr_consumed = membership c,
       mr_failures = failures, mr_local = (\<lambda>_. 1), mr_last = (\<lambda>_. 0), mr_producer = (\<lambda>_. Mp_wait),
       mr_consumer = (\<lambda>_. Mc_wait), mr_result = None\<rparr>"

subsection \<open>The threads\<close>

text \<open>What a producer does with the result of a push.\<close>

definition mpmc_on_push :: "config \<Rightarrow> nat \<Rightarrow> write_result \<Rightarrow> mpmc_run \<Rightarrow> mpmc_run" where
  "mpmc_on_push c p result s =
     (let global = global_sequence c (of_nat p) (mr_local s p) in
      if wr_status result = Success
      then s\<lparr>mr_published := (mr_published s)[unat global := 1], mr_pushed := mr_pushed s + 1,
             mr_local := (mr_local s)(p := mr_local s p + 1), mr_producer := (mr_producer s)(p := Mp_loop)\<rparr>
      else if wr_status result = Full
      then s\<lparr>mr_full_retries := mr_full_retries s + 1, mr_producer := (mr_producer s)(p := Mp_loop)\<rparr>
      else s\<lparr>mr_failures := fr_record (mr_failures s)
               (failure_of ''mpmc'' (cfg_seed c) global global (wr_sequence result) 0 0 ''unexpected producer status''),
             mr_producer := (mr_producer s)(p := Mp_exit)\<rparr>)"

text \<open>
  What a consumer does with the result of a pop: the first function ends the call, the second
  processes a message that it has counted.
\<close>

definition mpmc_on_pop :: "config \<Rightarrow> nat \<Rightarrow> u64 \<Rightarrow> read_result \<Rightarrow> byte list \<Rightarrow> mpmc_run \<Rightarrow> mpmc_run" where
  "mpmc_on_pop c k operation result payload s =
     (if rr_status result = Success
      then s\<lparr>mr_popped := mr_popped s + 1, mr_consumer := (mr_consumer s)(k := Mc_item result payload)\<rparr>
      else if rr_status result = Empty
      then s\<lparr>mr_empty_retries := mr_empty_retries s + 1, mr_consumer := (mr_consumer s)(k := Mc_empty)\<rparr>
      else s\<lparr>mr_failures := fr_record (mr_failures s)
               (failure_of ''mpmc'' (cfg_seed c) operation 0 (rr_sequence result) 0 0 ''unexpected consumer status''),
             mr_consumer := (mr_consumer s)(k := Mc_end)\<rparr>)"

definition mpmc_on_item :: "config \<Rightarrow> nat \<Rightarrow> read_result \<Rightarrow> byte list \<Rightarrow> mpmc_run \<Rightarrow> mpmc_run" where
  "mpmc_on_item c k result payload s =
     (let header = read_header payload;
          global = ph_global_sequence header;
          failures1 = (if rr_sequence result \<le> mr_last s k
            then fr_record (mr_failures s) (failure_of ''mpmc'' (cfg_seed c) (rr_sequence result) (mr_last s k + 1)
              (rr_sequence result) 0 (ph_checksum header) ''non-increasing queue sequence'')
            else mr_failures s);
          s1 = s\<lparr>mr_failures := failures1, mr_last := (mr_last s)(k := rr_sequence result),
                 mr_consumer := (mr_consumer s)(k := Mc_loop)\<rparr>
      in if \<not> in_range c header then s1
         else (case validate_payload ''mpmc'' c payload (ph_producer_id header) (ph_local_sequence header) global
                 (rr_sequence result) failures1 of
             (valid, failures2) \<Rightarrow>
               if \<not> valid then s1\<lparr>mr_failures := failures2\<rparr>
               else s1\<lparr>mr_failures := (if mr_consumed s ! unat global \<noteq> 0
                   then fr_record failures2 (failure_of ''mpmc'' (cfg_seed c) (rr_sequence result) global global
                     (ph_checksum header) (ph_checksum header) ''duplicate consumed message'')
                   else failures2),
                 mr_consumed := (mr_consumed s)[unat global := 1]\<rparr>))"

inductive mpmc_producer_step :: "config \<Rightarrow> nat \<Rightarrow> mpmc_run \<Rightarrow> mpmc_run \<Rightarrow> bool" for c p where
  mp_start: "mr_producer s p = Mp_wait \<Longrightarrow> mr_start s \<Longrightarrow>
    mpmc_producer_step c p s (s\<lparr>mr_producer := (mr_producer s)(p := Mp_loop)\<rparr>)"
| mp_leave: "mr_producer s p = Mp_loop \<Longrightarrow>
    mpmc_producer_step c p s (s\<lparr>mr_producer := (mr_producer s)(p := Mp_exit)\<rparr>)"
| mp_call: "mr_producer s p = Mp_loop \<Longrightarrow> mr_local s p \<le> cfg_iterations c \<Longrightarrow>
    payload = make_payload c (of_nat p) (mr_local s p) (global_sequence c (of_nat p) (mr_local s p)) \<Longrightarrow>
    mpmc_push_step max_payload_size (ucast (cfg_capacity c)) p (mr_q s) q \<Longrightarrow>
    ms_pc q p = (if max_payload_size < length payload then Push_done (write_res Message_too_large 0)
      else Push_seq payload position) \<Longrightarrow>
    mpmc_producer_step c p s (s\<lparr>mr_q := q, mr_producer := (mr_producer s)(p := Mp_push)\<rparr>)"
| mp_inside: "mr_producer s p = Mp_push \<Longrightarrow> (\<And>r. ms_pc (mr_q s) p \<noteq> Push_done r) \<Longrightarrow>
    mpmc_push_step max_payload_size (ucast (cfg_capacity c)) p (mr_q s) q \<Longrightarrow>
    mpmc_producer_step c p s (s\<lparr>mr_q := q\<rparr>)"
| mp_result: "mr_producer s p = Mp_push \<Longrightarrow> ms_pc (mr_q s) p = Push_done r \<Longrightarrow>
    mpmc_push_step max_payload_size (ucast (cfg_capacity c)) p (mr_q s) q \<Longrightarrow>
    mpmc_producer_step c p s (mpmc_on_push c p r (s\<lparr>mr_q := q\<rparr>))"
| mp_exit: "mr_producer s p = Mp_exit \<Longrightarrow>
    mpmc_producer_step c p s
      (s\<lparr>mr_remaining := mr_remaining s - 1, mr_producer := (mr_producer s)(p := Mp_end)\<rparr>)"

inductive mpmc_consumer_step :: "config \<Rightarrow> nat \<Rightarrow> mpmc_run \<Rightarrow> mpmc_run \<Rightarrow> bool" for c k where
  mc_start: "mr_consumer s k = Mc_wait \<Longrightarrow> mr_start s \<Longrightarrow>
    mpmc_consumer_step c k s (s\<lparr>mr_consumer := (mr_consumer s)(k := Mc_loop)\<rparr>)"
| mc_call: "mr_consumer s k = Mc_loop \<Longrightarrow>
    mpmc_pop_step (ucast (cfg_capacity c)) (consumer_tid c k) (mr_q s) q \<Longrightarrow>
    ms_pc q (consumer_tid c k) = Pop_seq (replicate (unat (cfg_payload_size c)) 0) position \<Longrightarrow>
    mpmc_consumer_step c k s (s\<lparr>mr_q := q, mr_consumer := (mr_consumer s)(k := Mc_pop)\<rparr>)"
| mc_inside: "mr_consumer s k = Mc_pop \<Longrightarrow> (\<And>r d. ms_pc (mr_q s) (consumer_tid c k) \<noteq> Pop_done r d) \<Longrightarrow>
    mpmc_pop_step (ucast (cfg_capacity c)) (consumer_tid c k) (mr_q s) q \<Longrightarrow>
    mpmc_consumer_step c k s (s\<lparr>mr_q := q\<rparr>)"
| mc_result: "mr_consumer s k = Mc_pop \<Longrightarrow> ms_pc (mr_q s) (consumer_tid c k) = Pop_done r payload \<Longrightarrow>
    mpmc_pop_step (ucast (cfg_capacity c)) (consumer_tid c k) (mr_q s) q \<Longrightarrow> popped \<le> mr_popped s \<Longrightarrow>
    mpmc_consumer_step c k s (mpmc_on_pop c k popped r payload (s\<lparr>mr_q := q\<rparr>))"
| mc_item: "mr_consumer s k = Mc_item r payload \<Longrightarrow>
    mpmc_consumer_step c k s (mpmc_on_item c k r payload s)"
| mc_again: "mr_consumer s k = Mc_empty \<Longrightarrow>
    mpmc_consumer_step c k s (s\<lparr>mr_consumer := (mr_consumer s)(k := Mc_loop)\<rparr>)"
| mc_drained: "mr_consumer s k = Mc_empty \<Longrightarrow> mr_remaining s = 0 \<Longrightarrow>
    popped \<le> mr_popped s \<Longrightarrow> mr_pushed s \<le> popped \<Longrightarrow>
    mpmc_consumer_step c k s (s\<lparr>mr_consumer := (mr_consumer s)(k := Mc_end)\<rparr>)"

subsection \<open>The run\<close>

definition mpmc_report :: "config \<Rightarrow> u64 \<Rightarrow> mpmc_run \<Rightarrow> string" where
  "mpmc_report c missing s = ''stress_result queue=mpmc seed='' @ dec (unat (cfg_seed c)) @
     '' pushed='' @ dec (unat (mr_pushed s)) @ '' popped='' @ dec (unat (mr_popped s)) @
     '' full_retries='' @ dec (unat (mr_full_retries s)) @ '' empty_retries='' @ dec (unat (mr_empty_retries s)) @
     '' missing='' @ dec (unat missing) @
     '' validation_failures='' @ dec (if fr_failed (mr_failures s) then 1 else 0) @ [CHR 0x0A]"

definition mpmc_finish :: "config \<Rightarrow> mpmc_run \<Rightarrow> mpmc_run" where
  "mpmc_finish c s =
     (case compare_membership ''mpmc'' c (mr_published s) (mr_consumed s) (mr_failures s) of (missing, failures) \<Rightarrow>
      let failures' = (if mr_pushed s \<noteq> mr_popped s \<or> missing \<noteq> 0
            then fr_record failures (failure_of ''mpmc'' (cfg_seed c) (mr_popped s) (mr_pushed s) (mr_popped s) 0 0
              ''pushed and popped totals differ after drain'')
            else failures);
          s' = s\<lparr>mr_failures := failures'\<rparr>
      in s'\<lparr>mr_result := Some (\<not> fr_failed failures', mpmc_report c missing s')\<rparr>)"

inductive mpmc_main_step :: "config \<Rightarrow> mpmc_run \<Rightarrow> mpmc_run \<Rightarrow> bool" for c where
  mm_start: "\<not> mr_start s \<Longrightarrow> mpmc_main_step c s (s\<lparr>mr_start := True\<rparr>)"
| mm_finish: "mr_start s \<Longrightarrow> (\<And>p. p < unat (cfg_producers c) \<Longrightarrow> mr_producer s p = Mp_end) \<Longrightarrow>
    (\<And>k. k < unat (cfg_consumers c) \<Longrightarrow> mr_consumer s k = Mc_end) \<Longrightarrow> mr_result s = None \<Longrightarrow>
    mpmc_main_step c s (mpmc_finish c s)"

definition mpmc_run_step :: "config \<Rightarrow> mpmc_run \<Rightarrow> mpmc_run \<Rightarrow> bool" where
  "mpmc_run_step c s t \<longleftrightarrow> (\<exists>p < unat (cfg_producers c). mpmc_producer_step c p s t) \<or>
     (\<exists>k < unat (cfg_consumers c). mpmc_consumer_step c k s t) \<or> mpmc_main_step c s t"

definition run_mpmc :: "config \<Rightarrow> recorder \<Rightarrow> bool \<Rightarrow> recorder \<Rightarrow> string \<Rightarrow> bool" where
  "run_mpmc c failures passed failures' printed \<longleftrightarrow> (\<exists>s0 s. mpmc_run_init c failures s0 \<and>
     (mpmc_run_step c)\<^sup>*\<^sup>* s0 s \<and> mr_result s = Some (passed, printed) \<and> mr_failures s = failures')"

subsection \<open>Invariant\<close>

fun push_of :: "byte list \<Rightarrow> mpmc_pc \<Rightarrow> bool" where
  "push_of x (Push_seq y position) \<longleftrightarrow> y = x"
| "push_of x (Push_cas y position) \<longleftrightarrow> y = x"
| "push_of x (Push_reload y) \<longleftrightarrow> y = x"
| "push_of x (Push_write y position ws) \<longleftrightarrow> y = x"
| "push_of x (Push_done r) \<longleftrightarrow> wr_status r = Success \<or> wr_status r = Full"
| "push_of x _ \<longleftrightarrow> False"

fun pop_of :: "nat \<Rightarrow> mpmc_pc \<Rightarrow> bool" where
  "pop_of n (Pop_seq d position) \<longleftrightarrow> length d = n"
| "pop_of n (Pop_cas d position) \<longleftrightarrow> length d = n"
| "pop_of n (Pop_reload d) \<longleftrightarrow> length d = n"
| "pop_of n (Pop_read d position r) \<longleftrightarrow> length d = n"
| "pop_of n (Pop_done r d) \<longleftrightarrow> rr_status r = Success \<or> rr_status r = Empty"
| "pop_of n _ \<longleftrightarrow> False"

text \<open>A push has claimed its position; the sequence and message that a pop has claimed.\<close>

fun push_claimed :: "mpmc_pc \<Rightarrow> bool" where
  "push_claimed (Push_write y position ws) \<longleftrightarrow> True"
| "push_claimed (Push_done r) \<longleftrightarrow> wr_status r = Success"
| "push_claimed _ \<longleftrightarrow> False"

fun pop_claimed :: "byte list list \<Rightarrow> mpmc_pc \<Rightarrow> (u64 \<times> byte list) option" where
  "pop_claimed log (Pop_read d position r) = Some (position + 1, log ! unat position)"
| "pop_claimed log (Pop_done r d) = (if rr_status r = Success then Some (rr_sequence r, d) else None)"
| "pop_claimed log _ = None"

fun item_claimed :: "mc_pc \<Rightarrow> (u64 \<times> byte list) option" where
  "item_claimed (Mc_item r d) = Some (rr_sequence r, d)"
| "item_claimed _ = None"

fun mp_ok :: "byte list \<Rightarrow> mp_pc \<Rightarrow> mpmc_pc \<Rightarrow> bool" where
  "mp_ok x Mp_push pc \<longleftrightarrow> push_of x pc"
| "mp_ok x _ pc \<longleftrightarrow> pc = M_idle"

fun mc_ok :: "nat \<Rightarrow> mc_pc \<Rightarrow> mpmc_pc \<Rightarrow> bool" where
  "mc_ok n Mc_pop pc \<longleftrightarrow> pop_of n pc"
| "mc_ok n _ pc \<longleftrightarrow> pc = M_idle"

definition mp_message :: "config \<Rightarrow> mpmc_run \<Rightarrow> nat \<Rightarrow> byte list" where
  "mp_message c s p = message c (number c p (unat (mr_local s p)))"

definition mp_threads :: "config \<Rightarrow> mpmc_run \<Rightarrow> bool" where
  "mp_threads c s \<longleftrightarrow>
     (\<forall>p < unat (cfg_producers c). mp_ok (mp_message c s p) (mr_producer s p) (ms_pc (mr_q s) p)) \<and>
     (\<forall>k < unat (cfg_consumers c). mc_ok (unat (cfg_payload_size c)) (mr_consumer s k) (ms_pc (mr_q s) (consumer_tid c k))) \<and>
     (\<forall>t \<ge> unat (cfg_producers c) + unat (cfg_consumers c). ms_pc (mr_q s) t = M_idle) \<and>
     (\<forall>k \<ge> unat (cfg_consumers c). mr_consumer s k = Mc_wait)"

text \<open>The local sequence a producer will use next, counting a position it has claimed.\<close>

definition mp_next :: "mpmc_run \<Rightarrow> nat \<Rightarrow> nat" where
  "mp_next s p = unat (mr_local s p) + (if push_claimed (ms_pc (mr_q s) p) then 1 else 0)"

definition mp_sent :: "config \<Rightarrow> mpmc_run \<Rightarrow> bool" where
  "mp_sent c s \<longleftrightarrow>
     (\<forall>p < unat (cfg_producers c). 0 < unat (mr_local s p) \<and> mp_next s p \<le> Suc (unat (cfg_iterations c)) \<and>
        (mr_producer s p = Mp_push \<longrightarrow> mr_local s p \<le> cfg_iterations c)) \<and>
     sent_log c (mp_next s) (ms_log (mr_q s)) \<and>
     flags c (numbers c (\<lambda>p. unat (mr_local s p))) (mr_published s) \<and>
     mr_pushed s = of_nat (card (numbers c (\<lambda>p. unat (mr_local s p))))"

text \<open>
  The messages whose positions consumers have claimed: those not yet counted in \<open>popped\<close> are inside
  a call, those not yet marked in \<open>consumed\<close> are there or in the hands of a consumer.
\<close>

definition mp_taken :: "mpmc_run \<Rightarrow> byte list set" where
  "mp_taken s = set (take (dequeued (mr_q s)) (ms_log (mr_q s)))"

definition mp_inside :: "mpmc_run \<Rightarrow> nat \<Rightarrow> (u64 \<times> byte list) option" where
  "mp_inside s t = pop_claimed (ms_log (mr_q s)) (ms_pc (mr_q s) t)"

definition mp_hand :: "config \<Rightarrow> mpmc_run \<Rightarrow> nat \<Rightarrow> (u64 \<times> byte list) option" where
  "mp_hand c s t = (case mp_inside s t of
     Some y \<Rightarrow> Some y
   | None \<Rightarrow> if unat (cfg_producers c) \<le> t then item_claimed (mr_consumer s (t - unat (cfg_producers c))) else None)"

definition mp_received :: "config \<Rightarrow> mpmc_run \<Rightarrow> bool" where
  "mp_received c s \<longleftrightarrow>
     (\<exists>counted. ledger c (mp_taken s) (\<lambda>t. map_option snd (mp_inside s t)) counted \<and> mr_popped s = of_nat (card counted)) \<and>
     (\<exists>marked. ledger c (mp_taken s) (\<lambda>t. map_option snd (mp_hand c s t)) marked \<and> flags c marked (mr_consumed s)) \<and>
     (\<forall>k < unat (cfg_consumers c). unat (mr_last s k) \<le> dequeued (mr_q s) \<and>
        (\<forall>sq x. mp_hand c s (consumer_tid c k) = Some (sq, x) \<longrightarrow>
           mr_last s k < sq \<and> unat sq \<le> dequeued (mr_q s)))"

definition mp_left :: "config \<Rightarrow> mpmc_run \<Rightarrow> bool" where
  "mp_left c s \<longleftrightarrow> unat (mr_remaining s) = card {p. p < unat (cfg_producers c) \<and> mr_producer s p \<noteq> Mp_end} \<and>
     (\<forall>k < unat (cfg_consumers c). mr_consumer s k = Mc_end \<longrightarrow> mr_remaining s = 0 \<and> mr_pushed s \<le> mr_popped s)"

definition mpmc_run_inv :: "config \<Rightarrow> recorder \<Rightarrow> mpmc_run \<Rightarrow> bool" where
  "mpmc_run_inv c f s \<longleftrightarrow> check_config c = None \<and> ms_inv max_payload_size (ucast (cfg_capacity c)) (mr_q s) \<and>
     mp_threads c s \<and> mp_sent c s \<and> mp_received c s \<and> mp_left c s \<and> mr_failures s = f \<and>
     (\<forall>r printed. mr_result s = Some (r, printed) \<longrightarrow> r = (\<not> fr_failed f) \<and>
        (\<forall>p < unat (cfg_producers c). mr_producer s p = Mp_end) \<and> (\<forall>k < unat (cfg_consumers c). mr_consumer s k = Mc_end))"

subsection \<open>How far a thread is from leaving its loop, or from the head of it\<close>

definition mp_rank :: "mpmc_run \<Rightarrow> nat \<Rightarrow> nat" where
  "mp_rank s p = (case mr_producer s p of
     Mp_wait \<Rightarrow> 3 | Mp_loop \<Rightarrow> 2 | Mp_exit \<Rightarrow> 1 | Mp_end \<Rightarrow> 0
   | Mp_push \<Rightarrow> 3 + push_rank (mr_q s) (ms_pc (mr_q s) p))"

definition mc_rank :: "config \<Rightarrow> mpmc_run \<Rightarrow> nat \<Rightarrow> nat" where
  "mc_rank c s k = (case mr_consumer s k of
     Mc_loop \<Rightarrow> 0 | Mc_end \<Rightarrow> 0 | Mc_wait \<Rightarrow> 1 | Mc_item r d \<Rightarrow> 1 | Mc_empty \<Rightarrow> 1
   | Mc_pop \<Rightarrow> 2 + pop_rank max_payload_size (mr_q s) (ms_pc (mr_q s) (consumer_tid c k)))"

text \<open>Started, all producers gone, every consumer at the head of its loop or gone.\<close>

definition mp_resting :: "config \<Rightarrow> mpmc_run \<Rightarrow> bool" where
  "mp_resting c s \<longleftrightarrow> mr_start s \<and> mr_result s = None \<and> (\<forall>p < unat (cfg_producers c). mr_producer s p = Mp_end) \<and>
     (\<forall>k < unat (cfg_consumers c). mr_consumer s k = Mc_loop \<or> mr_consumer s k = Mc_end)"

section \<open>Steps of the queue\<close>

lemma push_frame:
  assumes "mpmc_push_step N cap tid s t"
  shows "ms_deq t = ms_deq s" "u \<noteq> tid \<Longrightarrow> ms_pc t u = ms_pc s u" "enqueued t \<le> Suc (enqueued s)"
    "\<exists>ys. ms_log t = ms_log s @ ys"
  using assms by (cases; auto simp: enqueued_def)+

lemma pop_frame:
  assumes "mpmc_pop_step cap tid s t"
  shows "ms_log t = ms_log s" "u \<noteq> tid \<Longrightarrow> ms_pc t u = ms_pc s u"
  using assms by (cases; auto)+

lemma push_inside:
  assumes "mpmc_push_step N cap tid s t" "push_of x (ms_pc s tid)" "\<And>r. ms_pc s tid \<noteq> Push_done r"
  shows "push_of x (ms_pc t tid)"
    "ms_log t = ms_log s \<and> push_claimed (ms_pc t tid) = push_claimed (ms_pc s tid) \<or>
     ms_log t = ms_log s @ [x] \<and> \<not> push_claimed (ms_pc s tid) \<and> push_claimed (ms_pc t tid)"
  using assms by (cases; auto)+

lemma push_returned:
  "mpmc_push_step N cap tid s t \<Longrightarrow> ms_pc s tid = Push_done r \<Longrightarrow> t = s\<lparr>ms_pc := (ms_pc s)(tid := M_idle)\<rparr>"
  by (erule mpmc_push_step.cases) auto

lemma push_called:
  "mpmc_push_step N cap tid s t \<Longrightarrow> ms_pc s tid = M_idle \<Longrightarrow> t = s\<lparr>ms_pc := (ms_pc s)(tid := ms_pc t tid)\<rparr>"
  by (erule mpmc_push_step.cases) auto

lemma pop_returned:
  "mpmc_pop_step cap tid s t \<Longrightarrow> ms_pc s tid = Pop_done r d \<Longrightarrow> t = s\<lparr>ms_pc := (ms_pc s)(tid := M_idle)\<rparr>"
  by (erule mpmc_pop_step.cases) auto

lemma pop_called:
  "mpmc_pop_step cap tid s t \<Longrightarrow> ms_pc s tid = M_idle \<Longrightarrow> t = s\<lparr>ms_pc := (ms_pc s)(tid := ms_pc t tid)\<rparr>"
  by (erule mpmc_pop_step.cases) auto

text \<open>A pop either keeps its claim or claims the oldest message.\<close>

lemma pop_inside:
  assumes step: "mpmc_pop_step cap tid s t" and inv: "ms_inv N cap s"
    and pc: "pop_of n (ms_pc s tid)" "\<And>r d. ms_pc s tid \<noteq> Pop_done r d"
    and len: "\<And>x. x \<in> set (ms_log s) \<Longrightarrow> length x = n"
  shows "pop_of n (ms_pc t tid)"
    "dequeued t = dequeued s \<and> pop_claimed (ms_log s) (ms_pc t tid) = pop_claimed (ms_log s) (ms_pc s tid) \<or>
     dequeued t = Suc (dequeued s) \<and> dequeued s < length (ms_log s) \<and> pop_claimed (ms_log s) (ms_pc s tid) = None \<and>
     pop_claimed (ms_log s) (ms_pc t tid) = Some (of_nat (Suc (dequeued s)), ms_log s ! dequeued s)"
proof -
  note cnt = ms_invE(1) [OF inv]
  have "pop_of n (ms_pc t tid) \<and>
    (dequeued t = dequeued s \<and> pop_claimed (ms_log s) (ms_pc t tid) = pop_claimed (ms_log s) (ms_pc s tid) \<or>
     dequeued t = Suc (dequeued s) \<and> dequeued s < length (ms_log s) \<and> pop_claimed (ms_log s) (ms_pc s tid) = None \<and>
     pop_claimed (ms_log s) (ms_pc t tid) = Some (of_nat (Suc (dequeued s)), ms_log s ! dequeued s))"
    using step
  proof cases
    case (pop_claim dest position)
    have pos: "unat position = dequeued s" using pop_claim unat_dequeued [OF cnt] by simp
    have "dequeued s < seq_at cap s (dequeued s)" using ms_invE(5) [OF inv, of tid] pop_claim pos by simp
    then have "dequeued s < enqueued s" using pop_claimable [OF ms_invE(1,2) [OF inv]] by blast
    moreover have "length (ms_log s) = enqueued s" using cnt by (simp add: mm_counters_def)
    moreover have "position = of_nat (dequeued s)" unfolding pos [symmetric] by simp
    moreover have "dequeued t = Suc (dequeued s)"
      using pop_claim(1) counter_lengths(2) [OF cnt] by (simp add: dequeued_def)
    ultimately show ?thesis using pop_claim pc(1) pos by (simp add: add.commute)
  next
    case (pop_release dest position res d i)
    have own: "popping s tid (unat position)" using pop_release by (simp add: popping_def)
    have "unat position < length (ms_log s)"
      using popping_owner(1) [OF inv own] cnt by (simp add: mm_counters_def)
    then have "length (ms_log s ! unat position) = n" using len by simp
    moreover have "fm_reading (ms_log s ! unat position) (position + 1) dest (Read_done res d)"
      using ms_invE(5) [OF inv, of tid] pop_release by simp
    ultimately have "res = read_res Success n (position + 1)" "d = ms_log s ! unat position"
      using pop_release(2) pc(1) by (simp_all add: copy_n_def)
    then show ?thesis using pop_release by simp
  qed (use pc in auto)
  then show "pop_of n (ms_pc t tid)"
    "dequeued t = dequeued s \<and> pop_claimed (ms_log s) (ms_pc t tid) = pop_claimed (ms_log s) (ms_pc s tid) \<or>
     dequeued t = Suc (dequeued s) \<and> dequeued s < length (ms_log s) \<and> pop_claimed (ms_log s) (ms_pc s tid) = None \<and>
     pop_claimed (ms_log s) (ms_pc t tid) = Some (of_nat (Suc (dequeued s)), ms_log s ! dequeued s)"
    by blast+
qed

lemma pop_claimed_append:
  assumes "ms_inv N cap s" "ms_log t = ms_log s @ ys" "ms_pc t u = ms_pc s u"
  shows "pop_claimed (ms_log t) (ms_pc t u) = pop_claimed (ms_log s) (ms_pc s u)"
proof (cases "ms_pc s u")
  case (Pop_read d position r)
  then have "popping s u (unat position)" by (simp add: popping_def)
  then have "unat position < dequeued s" by (rule popping_owner(1) [OF assms(1)])
  then have "unat position < length (ms_log s)" using ms_invE(1) [OF assms(1)] by (simp add: mm_counters_def)
  then show ?thesis using Pop_read assms by (simp add: nth_append)
qed (use assms in simp_all)

lemma pop_claimed_producer: "mp_ok x m pc \<Longrightarrow> pop_claimed log pc = None"
  by (cases m; cases pc) auto

section \<open>The invariant, part by part\<close>

lemma mpmc_run_invD:
  assumes "mpmc_run_inv c f s"
  shows "check_config c = None" "ms_inv max_payload_size (ucast (cfg_capacity c)) (mr_q s)" "mp_threads c s"
    "mp_sent c s" "mp_received c s" "mp_left c s" "mr_failures s = f"
    "mr_result s = Some (r, printed) \<Longrightarrow> r = (\<not> fr_failed f) \<and>
      (\<forall>p < unat (cfg_producers c). mr_producer s p = Mp_end) \<and> (\<forall>k < unat (cfg_consumers c). mr_consumer s k = Mc_end)"
  using assms unfolding mpmc_run_inv_def by blast+

lemma mp_threadsD:
  assumes "mp_threads c s"
  shows "p < unat (cfg_producers c) \<Longrightarrow> mp_ok (mp_message c s p) (mr_producer s p) (ms_pc (mr_q s) p)"
    "k < unat (cfg_consumers c) \<Longrightarrow> mc_ok (unat (cfg_payload_size c)) (mr_consumer s k) (ms_pc (mr_q s) (consumer_tid c k))"
    "unat (cfg_producers c) + unat (cfg_consumers c) \<le> t \<Longrightarrow> ms_pc (mr_q s) t = M_idle"
    "unat (cfg_consumers c) \<le> k \<Longrightarrow> mr_consumer s k = Mc_wait"
  using assms unfolding mp_threads_def by blast+

lemma mp_sent_same:
  assumes "mp_sent c s" "ms_log (mr_q t) = ms_log (mr_q s)" "mr_local t = mr_local s" "mr_published t = mr_published s"
    "mr_pushed t = mr_pushed s"
    and nxt: "\<And>p. p < unat (cfg_producers c) \<Longrightarrow> mp_next t p = mp_next s p"
    and push: "\<And>p. p < unat (cfg_producers c) \<Longrightarrow> mr_producer t p = Mp_push \<Longrightarrow>
      mr_producer s p = Mp_push \<or> mr_local s p \<le> cfg_iterations c"
  shows "mp_sent c t"
  using assms(1-5) nxt push sent_log_cong [of c "mp_next t" "mp_next s", OF nxt] unfolding mp_sent_def by auto

lemma mp_log_length:
  assumes "mpmc_run_inv c f s"
  shows "x \<in> set (ms_log (mr_q s)) \<Longrightarrow> length x = unat (cfg_payload_size c)" "enqueued (mr_q s) \<le> slots c"
proof -
  note I = mpmc_run_invD [OF assms]
  have log: "sent_log c (mp_next s) (ms_log (mr_q s))" using I(4) by (simp add: mp_sent_def)
  show "length x = unat (cfg_payload_size c)" if "x \<in> set (ms_log (mr_q s))"
    using sent_logD [OF log] that length_message [OF I(1)] by auto
  have "card (numbers c (mp_next s)) \<le> card {1..slots c}"
    by (rule card_mono) (use numbers_bounds in auto)
  then show "enqueued (mr_q s) \<le> slots c"
    using ms_invE(1) [OF I(2)] sent_log_length [OF I(1) log] by (simp add: mm_counters_def)
qed

section \<open>Steps of a producer\<close>

lemma mp_threads_producer:
  assumes thr: "mp_threads c s" and p: "p < unat (cfg_producers c)"
    and q: "\<And>u. u \<noteq> p \<Longrightarrow> ms_pc (mr_q t) u = ms_pc (mr_q s) u"
    and t: "mr_producer t = (mr_producer s)(p := m)" "mr_consumer t = mr_consumer s" "\<And>u. u \<noteq> p \<Longrightarrow> mr_local t u = mr_local s u"
      "mp_ok (mp_message c t p) m (ms_pc (mr_q t) p)"
  shows "mp_threads c t"
proof -
  have "mp_ok (mp_message c t p') (mr_producer t p') (ms_pc (mr_q t) p')" if "p' < unat (cfg_producers c)" for p'
    using mp_threadsD(1) [OF thr that] t q by (cases "p' = p") (auto simp: mp_message_def)
  moreover have "ms_pc (mr_q t) (consumer_tid c k) = ms_pc (mr_q s) (consumer_tid c k)" for k
    using q consumer_tid_not_producer [OF p] by simp
  moreover have "ms_pc (mr_q t) u = M_idle" if "unat (cfg_producers c) + unat (cfg_consumers c) \<le> u" for u
    using mp_threadsD(3) [OF thr that] q that p by simp
  ultimately show ?thesis using thr t(2) unfolding mp_threads_def by simp
qed

lemma mp_received_producer:
  assumes inv: "mpmc_run_inv c f s" and p: "p < unat (cfg_producers c)"
    and q: "dequeued (mr_q t) = dequeued (mr_q s)" "ms_log (mr_q t) = ms_log (mr_q s) @ ys"
      "\<And>u. u \<noteq> p \<Longrightarrow> ms_pc (mr_q t) u = ms_pc (mr_q s) u" "mp_ok x m (ms_pc (mr_q t) p)"
    and t: "mr_consumer t = mr_consumer s" "mr_last t = mr_last s" "mr_popped t = mr_popped s" "mr_consumed t = mr_consumed s"
  shows "mp_received c t"
proof -
  note I = mpmc_run_invD [OF inv]
  have "mp_inside t u = mp_inside s u" for u
    using pop_claimed_append [OF I(2) q(2)] q(3,4) mp_threadsD(1) [OF I(3) p] pop_claimed_producer
    by (cases "u = p") (auto simp: mp_inside_def)
  then have inside: "mp_inside t = mp_inside s" by blast
  have hand: "mp_hand c t = mp_hand c s" unfolding mp_hand_def inside t(1) ..
  have "dequeued (mr_q s) \<le> length (ms_log (mr_q s))" using ms_invE(1) [OF I(2)] by (simp add: mm_counters_def)
  then have taken: "mp_taken t = mp_taken s" unfolding mp_taken_def q(1,2) by simp
  show ?thesis using I(5) unfolding mp_received_def inside hand taken q(1) t(2-4) .
qed

lemma mp_active:
  assumes inv: "mpmc_run_inv c f s" and p: "p < unat (cfg_producers c)" "mr_producer s p \<noteq> Mp_end"
  shows "mr_remaining s \<noteq> 0" "k < unat (cfg_consumers c) \<Longrightarrow> mr_consumer s k \<noteq> Mc_end" "mr_result s \<noteq> Some (r, printed)"
proof -
  note I = mpmc_run_invD [OF inv]
  have "p \<in> {p. p < unat (cfg_producers c) \<and> mr_producer s p \<noteq> Mp_end}" using p by simp
  then have "0 < card {p. p < unat (cfg_producers c) \<and> mr_producer s p \<noteq> Mp_end}" by (subst card_gt_0_iff) auto
  then have "0 < unat (mr_remaining s)" using I(6) unfolding mp_left_def by simp
  then show rem: "mr_remaining s \<noteq> 0" by auto
  show "mr_consumer s k \<noteq> Mc_end" if "k < unat (cfg_consumers c)" using I(6) rem that unfolding mp_left_def by blast
  show "mr_result s \<noteq> Some (r, printed)" using I(8) p by blast
qed

lemma mp_lifetime:
  assumes inv: "mpmc_run_inv c f s" and "enqueued q \<le> Suc (enqueued (mr_q s))"
  shows "mpmc_lifetime (ucast (cfg_capacity c)) q"
proof -
  have "unat (ucast (cfg_capacity c) :: u64) < 2 ^ 32"
    using unsigned_less [of "cfg_capacity c"] by (simp add: unsigned_ucast_eq take_bit_nat_eq_self)
  then show ?thesis
    using assms(2) mp_log_length(2) [OF inv] unat_total_slots(3) [OF mpmc_run_invD(1) [OF inv]]
    by (simp add: mpmc_lifetime_def)
qed

lemma mp_producer_inv:
  assumes inv: "mpmc_run_inv c f s" and p: "p < unat (cfg_producers c)" "mr_producer s p \<noteq> Mp_end"
    and q: "mr_q t = mr_q s \<or> mpmc_push_step max_payload_size (ucast (cfg_capacity c)) p (mr_q s) (mr_q t)"
    and t: "mr_producer t = (mr_producer s)(p := m)" "mr_consumer t = mr_consumer s" "\<And>u. u \<noteq> p \<Longrightarrow> mr_local t u = mr_local s u"
      "mr_last t = mr_last s" "mr_popped t = mr_popped s" "mr_consumed t = mr_consumed s"
      "mr_failures t = mr_failures s" "mr_result t = mr_result s" "mp_ok (mp_message c t p) m (ms_pc (mr_q t) p)"
    and sent: "mp_sent c t" and rem: "m \<noteq> Mp_end \<and> mr_remaining t = mr_remaining s \<or> mp_left c t"
  shows "mpmc_run_inv c f t"
proof -
  note I = mpmc_run_invD [OF inv]
  obtain ys where fr: "dequeued (mr_q t) = dequeued (mr_q s)" "ms_log (mr_q t) = ms_log (mr_q s) @ ys"
      "\<And>u. u \<noteq> p \<Longrightarrow> ms_pc (mr_q t) u = ms_pc (mr_q s) u" "enqueued (mr_q t) \<le> Suc (enqueued (mr_q s))"
    using q push_frame [of _ _ p "mr_q s" "mr_q t"] unfolding dequeued_def by (metis append_Nil2 le_SucI order_refl)
  have "ms_inv max_payload_size (ucast (cfg_capacity c)) (mr_q t)"
    using q I(2) ms_inv_push [OF _ I(2) mp_lifetime [OF inv fr(4)]] by auto
  moreover have "mp_threads c t" by (rule mp_threads_producer [OF I(3) p(1) fr(3) t(1-3,9)])
  moreover have "mp_received c t" by (rule mp_received_producer [OF inv p(1) fr(1-3) t(9,2,4-6)])
  moreover have "mp_left c t"
  proof (cases "mp_left c t")
    case False
    then have m: "m \<noteq> Mp_end" "mr_remaining t = mr_remaining s" using rem by auto
    then have "{p. p < unat (cfg_producers c) \<and> mr_producer t p \<noteq> Mp_end} = {p. p < unat (cfg_producers c) \<and> mr_producer s p \<noteq> Mp_end}"
      using p(2) t(1) by auto
    then show ?thesis using I(6) m(2) mp_active(2) [OF inv p] t(2) unfolding mp_left_def by simp
  qed simp
  ultimately show ?thesis
    using I(1,7) sent t(7,8) mp_active(3) [OF inv p] unfolding mpmc_run_inv_def by auto
qed

lemma mp_inside_inv:
  assumes inv: "mpmc_run_inv c f s" and p: "p < unat (cfg_producers c)" and pc: "mr_producer s p = Mp_push"
    "\<And>r. ms_pc (mr_q s) p \<noteq> Push_done r"
    and q: "mpmc_push_step max_payload_size (ucast (cfg_capacity c)) p (mr_q s) q"
  shows "mpmc_run_inv c f (s\<lparr>mr_q := q\<rparr>)"
proof -
  note I = mpmc_run_invD [OF inv]
  let ?t = "s\<lparr>mr_q := q\<rparr>" and ?l = "unat (mr_local s p)"
  have S: "0 < ?l" "?l \<le> unat (cfg_iterations c)" "sent_log c (mp_next s) (ms_log (mr_q s))"
    using I(4) p pc(1) by (auto simp: mp_sent_def word_le_nat_alt)
  have "push_of (mp_message c s p) (ms_pc (mr_q s) p)" using mp_threadsD(1) [OF I(3) p] pc(1) by simp
  note inside = push_inside [OF q this pc(2)]
  have other: "mp_next ?t u = mp_next s u" if "u \<noteq> p" for u using push_frame(2) [OF q that] by (simp add: mp_next_def)
  have "mp_sent c ?t"
  proof (cases "push_claimed (ms_pc q p) = push_claimed (ms_pc (mr_q s) p)")
    case True
    then have nxt: "mp_next ?t u = mp_next s u" for u using other by (cases "u = p") (simp_all add: mp_next_def)
    show ?thesis by (rule mp_sent_same [OF I(4) _ _ _ _ nxt]) (use inside(2) True in auto)
  next
    case False
    then have log: "ms_log q = ms_log (mr_q s) @ [mp_message c s p]" and claim: "mp_next s p = ?l" "mp_next ?t p = Suc ?l"
      using inside(2) by (auto simp: mp_next_def)
    have nxt: "mp_next ?t = (mp_next s)(p := Suc ?l)" using other claim(2) by auto
    have "sent_log c (mp_next ?t) (ms_log q)"
      unfolding nxt log mp_message_def by (rule sent_log_next [OF I(1) S(3) p claim(1) S(1,2)])
    then show ?thesis using I(4) S(2) unfolding mp_sent_def nxt by auto
  qed
  then show ?thesis
    using q inside(1) pc(1)
    by (intro mp_producer_inv [OF inv p, where m = Mp_push]) (auto simp: mp_message_def)
qed

lemma mp_result_inv:
  assumes inv: "mpmc_run_inv c f s" and p: "p < unat (cfg_producers c)" and pc: "mr_producer s p = Mp_push"
    "ms_pc (mr_q s) p = Push_done r"
    and q: "mpmc_push_step max_payload_size (ucast (cfg_capacity c)) p (mr_q s) q"
  shows "mpmc_run_inv c f (mpmc_on_push c p r (s\<lparr>mr_q := q\<rparr>))"
proof -
  note I = mpmc_run_invD [OF inv]
  let ?l = "unat (mr_local s p)"
  define t where "t = mpmc_on_push c p r (s\<lparr>mr_q := q\<rparr>)"
  have r: "wr_status r = Success \<or> wr_status r = Full" using mp_threadsD(1) [OF I(3) p] pc by simp
  have q': "q = (mr_q s)\<lparr>ms_pc := (ms_pc (mr_q s))(p := M_idle)\<rparr>" by (rule push_returned [OF q pc(2)])
  have S: "0 < ?l" "?l \<le> unat (cfg_iterations c)" "flags c (numbers c (\<lambda>p. unat (mr_local s p))) (mr_published s)"
      "mr_pushed s = of_nat (card (numbers c (\<lambda>p. unat (mr_local s p))))"
    using I(4) p pc(1) by (auto simp: mp_sent_def word_le_nat_alt)
  have loc: "unat (mr_local s p + 1) = Suc ?l"
    using S(2) checked_bounds(2) [OF I(1)] unat_Suc_word [of "mr_local s p"] by simp
  have T: "mr_q t = q" "mr_producer t = (mr_producer s)(p := Mp_loop)" "mr_consumer t = mr_consumer s"
      "\<And>u. u \<noteq> p \<Longrightarrow> mr_local t u = mr_local s u" "mr_last t = mr_last s" "mr_popped t = mr_popped s" "mr_consumed t = mr_consumed s"
      "mr_failures t = mr_failures s" "mr_result t = mr_result s" "mr_remaining t = mr_remaining s"
    using r by (auto simp: t_def mpmc_on_push_def Let_def)
  have "mp_sent c t"
  proof (cases "wr_status r = Success")
    case False
    then have f: "mr_local t = mr_local s" "mr_published t = mr_published s" "mr_pushed t = mr_pushed s"
      using r by (simp_all add: t_def mpmc_on_push_def Let_def)
    show ?thesis
      by (rule mp_sent_same [OF I(4) _ f]) (use pc False in \<open>auto simp: T(1,2) q' mp_next_def f split: if_splits\<close>)
  next
    case True
    then have f: "mr_local t = (mr_local s)(p := mr_local s p + 1)" "mr_pushed t = mr_pushed s + 1"
        "mr_published t = (mr_published s)[number c p ?l := 1]"
      using local_message(2) [OF I(1) p refl S(1,2)] by (simp_all add: t_def mpmc_on_push_def Let_def)
    have nxt: "mp_next t = mp_next s"
      using True pc(2) loc by (auto simp: mp_next_def f(1) T(1) q' fun_eq_iff)
    have locals: "(\<lambda>u. unat (mr_local t u)) = (\<lambda>u. unat (mr_local s u))(p := Suc ?l)" using f(1) loc by auto
    note num = numbers_next [of p c "\<lambda>u. unat (mr_local s u)" ?l, OF p refl S(1,2)]
    have "flags c (numbers c (\<lambda>u. unat (mr_local t u))) (mr_published t)"
      unfolding locals num(1) f(3) by (rule flags_set [OF S(3) number_bounds(2) [OF p S(1,2)]])
    moreover have "mr_pushed t = of_nat (card (numbers c (\<lambda>u. unat (mr_local t u))))"
      unfolding locals num(1) f(2) using S(4) num(2) by simp
    moreover have "ms_log (mr_q t) = ms_log (mr_q s)" by (simp add: T(1) q')
    moreover have "0 < unat (mr_local t u)" "mr_producer t u = Mp_push \<Longrightarrow> mr_local t u \<le> cfg_iterations c"
      if "u < unat (cfg_producers c)" for u
      using I(4) that loc by (auto simp: mp_sent_def f(1) T(2) split: if_splits)
    ultimately show ?thesis using I(4) unfolding mp_sent_def nxt by simp
  qed
  then show ?thesis
    unfolding t_def [symmetric] using q T(1) q' pc(1)
    by (intro mp_producer_inv [OF inv p _ _ T(2-9)]) (simp_all add: T(10))
qed

lemma mp_exit_inv:
  assumes inv: "mpmc_run_inv c f s" and p: "p < unat (cfg_producers c)" and pc: "mr_producer s p = Mp_exit"
  shows "mpmc_run_inv c f (s\<lparr>mr_remaining := mr_remaining s - 1, mr_producer := (mr_producer s)(p := Mp_end)\<rparr>)"
proof -
  note I = mpmc_run_invD [OF inv]
  let ?t = "s\<lparr>mr_remaining := mr_remaining s - 1, mr_producer := (mr_producer s)(p := Mp_end)\<rparr>"
  let ?A = "{p. p < unat (cfg_producers c) \<and> mr_producer s p \<noteq> Mp_end}"
  have "mr_producer s p \<noteq> Mp_end" using pc by simp
  note act = mp_active [OF inv p this]
  have "{p. p < unat (cfg_producers c) \<and> mr_producer ?t p \<noteq> Mp_end} = ?A - {p}" by auto
  moreover have "card (?A - {p}) = card ?A - 1" using p pc by (intro card_Diff_singleton) simp
  moreover have "unat (mr_remaining s - 1) = unat (mr_remaining s) - 1" using act(1) by (simp add: unat_minus_one)
  ultimately have "mp_left c ?t" using I(6) act(2) by (simp add: mp_left_def)
  moreover have "mp_sent c ?t"
    by (rule mp_sent_same [OF I(4)]) (auto simp: mp_next_def split: if_splits)
  moreover have "ms_pc (mr_q s) p = M_idle" using mp_threadsD(1) [OF I(3) p] pc by simp
  ultimately show ?thesis using pc by (intro mp_producer_inv [OF inv p, where m = Mp_end]) simp_all
qed

lemma mpmc_producer_step_inv:
  assumes inv: "mpmc_run_inv c f s" and p: "p < unat (cfg_producers c)" and step: "mpmc_producer_step c p s t"
  shows "mpmc_run_inv c f t"
proof -
  note I = mpmc_run_invD [OF inv]
  have ok: "mp_ok (mp_message c s p) (mr_producer s p) (ms_pc (mr_q s) p)" by (rule mp_threadsD(1) [OF I(3) p])
  from step show ?thesis
  proof cases
    case mp_start
    have "mp_sent c t" by (rule mp_sent_same [OF I(4)]) (auto simp: mp_start mp_next_def split: if_splits)
    then show ?thesis using mp_start ok
      by (intro mp_producer_inv [OF inv p, where m = Mp_loop]) simp_all
  next
    case mp_leave
    have "mp_sent c t" by (rule mp_sent_same [OF I(4)]) (auto simp: mp_leave mp_next_def split: if_splits)
    then show ?thesis using mp_leave ok
      by (intro mp_producer_inv [OF inv p, where m = Mp_exit]) simp_all
  next
    case (mp_call payload q position)
    have "0 < unat (mr_local s p)" using I(4) p by (simp add: mp_sent_def)
    then have x: "payload = mp_message c s p"
      unfolding mp_call(4) mp_message_def using mp_call(3) by (intro local_message(1) [OF I(1) p refl]) (simp_all add: word_le_nat_alt)
    then have "length payload \<le> max_payload_size"
      using length_message [OF I(1)] checked_bounds(8) [OF I(1)] by (simp add: mp_message_def max_payload_size_def)
    then have pc: "ms_pc q p = Push_seq payload position" using mp_call(6) by simp
    have idle: "ms_pc (mr_q s) p = M_idle" using ok mp_call(2) by simp
    note q = push_called [OF mp_call(5) idle, unfolded pc]
    have "ms_log q = ms_log (mr_q s)" by (subst q) simp
    moreover have "mp_next t u = mp_next s u" for u
      using push_frame(2) [OF mp_call(5)] pc idle by (cases "u = p") (simp_all add: mp_next_def mp_call(1))
    ultimately have "mp_sent c t"
      using mp_call(3) by (intro mp_sent_same [OF I(4)]) (auto simp: mp_call(1) split: if_splits)
    then show ?thesis using mp_call(1,2,5) pc x
      by (intro mp_producer_inv [OF inv p, where m = Mp_push]) (simp_all add: mp_message_def)
  next
    case (mp_inside q)
    then show ?thesis using mp_inside_inv [OF inv p] by simp
  next
    case (mp_result r q)
    then show ?thesis using mp_result_inv [OF inv p] by simp
  next
    case mp_exit
    then show ?thesis using mp_exit_inv [OF inv p] by simp
  qed
qed

section \<open>Steps of a consumer\<close>

lemma mp_hand_consumer:
  assumes q: "\<And>u. u \<noteq> consumer_tid c k \<Longrightarrow> ms_pc (mr_q t) u = ms_pc (mr_q s) u" "ms_log (mr_q t) = ms_log (mr_q s)"
    and t: "mr_consumer t = (mr_consumer s)(k := m)"
    and h: "pop_claimed (ms_log (mr_q s)) (ms_pc (mr_q t) (consumer_tid c k)) = h"
  shows "mp_inside t = (mp_inside s)(consumer_tid c k := h)"
    "mp_hand c t = (mp_hand c s)(consumer_tid c k := case h of Some y \<Rightarrow> Some y | None \<Rightarrow> item_claimed m)"
proof -
  show i: "mp_inside t = (mp_inside s)(consumer_tid c k := h)"
    using q h by (auto simp: mp_inside_def fun_eq_iff)
  show "mp_hand c t = (mp_hand c s)(consumer_tid c k := case h of Some y \<Rightarrow> Some y | None \<Rightarrow> item_claimed m)"
  proof
    fix u
    show "mp_hand c t u = ((mp_hand c s)(consumer_tid c k := case h of Some y \<Rightarrow> Some y | None \<Rightarrow> item_claimed m)) u"
    proof (cases "u = consumer_tid c k")
      case True
      then show ?thesis unfolding mp_hand_def i t by (simp add: consumer_tid_def split: option.split)
    next
      case False
      then have "mr_consumer t (u - unat (cfg_producers c)) = mr_consumer s (u - unat (cfg_producers c))"
        if "unat (cfg_producers c) \<le> u"
        using that t by (auto simp: consumer_tid_def)
      then show ?thesis using False unfolding mp_hand_def i by (simp split: option.split)
    qed
  qed
qed

lemma mp_hand_self:
  "mp_hand c s (consumer_tid c k) =
     (case pop_claimed (ms_log (mr_q s)) (ms_pc (mr_q s) (consumer_tid c k)) of Some y \<Rightarrow> Some y | None \<Rightarrow> item_claimed (mr_consumer s k))"
  by (simp add: mp_hand_def mp_inside_def consumer_tid_def split: option.split)

lemma map_option_upd: "(\<lambda>u. map_option g ((h(t := y)) u)) = (\<lambda>u. map_option g (h u))(t := map_option g y)"
  by auto

lemma mp_threads_consumer:
  assumes thr: "mp_threads c s" and k: "k < unat (cfg_consumers c)"
    and q: "\<And>u. u \<noteq> consumer_tid c k \<Longrightarrow> ms_pc (mr_q t) u = ms_pc (mr_q s) u"
    and t: "mr_producer t = mr_producer s" "mr_local t = mr_local s" "mr_consumer t = (mr_consumer s)(k := m)"
      "mc_ok (unat (cfg_payload_size c)) m (ms_pc (mr_q t) (consumer_tid c k))"
  shows "mp_threads c t"
proof -
  have "ms_pc (mr_q t) p = ms_pc (mr_q s) p" if "p < unat (cfg_producers c)" for p
    using q consumer_tid_not_producer [OF that, of k] by metis
  moreover have "mp_message c t = mp_message c s" by (simp add: mp_message_def t(2) fun_eq_iff)
  moreover have "mc_ok (unat (cfg_payload_size c)) (mr_consumer t j) (ms_pc (mr_q t) (consumer_tid c j))"
    if "j < unat (cfg_consumers c)" for j
    using mp_threadsD(2) [OF thr that] q t(3,4) by (cases "j = k") simp_all
  moreover have "ms_pc (mr_q t) u = M_idle" if "unat (cfg_producers c) + unat (cfg_consumers c) \<le> u" for u
    using mp_threadsD(3) [OF thr that] q that k by (simp add: consumer_tid_def)
  moreover have "mr_consumer t j = Mc_wait" if "unat (cfg_consumers c) \<le> j" for j
    using mp_threadsD(4) [OF thr that] that k t(3) by simp
  ultimately show ?thesis using mp_threadsD(1) [OF thr] t(1) unfolding mp_threads_def by simp
qed

lemma mp_consumer_inv:
  assumes inv: "mpmc_run_inv c f s" and k: "k < unat (cfg_consumers c)" "mr_consumer s k \<noteq> Mc_end"
    and q: "mr_q t = mr_q s \<or> mpmc_pop_step (ucast (cfg_capacity c)) (consumer_tid c k) (mr_q s) (mr_q t)"
    and t: "mr_producer t = mr_producer s" "mr_local t = mr_local s" "mr_consumer t = (mr_consumer s)(k := m)"
      "mr_published t = mr_published s" "mr_pushed t = mr_pushed s" "mr_remaining t = mr_remaining s"
      "mr_failures t = mr_failures s" "mr_result t = mr_result s"
      "mc_ok (unat (cfg_payload_size c)) m (ms_pc (mr_q t) (consumer_tid c k))"
    and rec: "mp_received c t" and pop: "mr_popped s \<le> mr_popped t"
    and fin: "m = Mc_end \<Longrightarrow> mr_remaining s = 0 \<and> mr_pushed s \<le> mr_popped t"
  shows "mpmc_run_inv c f t"
proof -
  note I = mpmc_run_invD [OF inv]
  have fr: "ms_log (mr_q t) = ms_log (mr_q s)" "\<And>u. u \<noteq> consumer_tid c k \<Longrightarrow> ms_pc (mr_q t) u = ms_pc (mr_q s) u"
    using q pop_frame [of _ "consumer_tid c k" "mr_q s" "mr_q t"] by auto
  have "ms_inv max_payload_size (ucast (cfg_capacity c)) (mr_q t)" using q I(2) ms_inv_pop [OF _ I(2)] by auto
  moreover have "mp_threads c t" by (rule mp_threads_consumer [OF I(3) k(1) fr(2) t(1-3,9)])
  moreover have "mp_sent c t"
  proof (rule mp_sent_same [OF I(4) fr(1) t(2,4,5)])
    show "mp_next t p = mp_next s p" if "p < unat (cfg_producers c)" for p
      using fr(2) consumer_tid_not_producer [OF that, of k] t(2) unfolding mp_next_def by metis
  qed (use t(1) in simp)
  moreover have "mp_left c t"
  proof -
    have "mr_remaining s = 0 \<and> mr_pushed s \<le> mr_popped t" if "j < unat (cfg_consumers c)" "mr_consumer t j = Mc_end" for j
      using I(6) fin that t(3) pop unfolding mp_left_def by (cases "j = k") (auto intro: order_trans)
    then show ?thesis using I(6) unfolding mp_left_def t(1,5,6) by blast
  qed
  moreover have "mr_result s \<noteq> Some (r, printed)" for r printed using I(8) k by blast
  ultimately show ?thesis using I(1,7) rec t(7,8) unfolding mpmc_run_inv_def by auto
qed

text \<open>A step that neither claims, counts nor marks a message.\<close>

lemma mp_received_quiet:
  assumes rec: "mp_received c s" and q: "\<And>u. u \<noteq> consumer_tid c k \<Longrightarrow> ms_pc (mr_q t) u = ms_pc (mr_q s) u"
      "ms_log (mr_q t) = ms_log (mr_q s)" "dequeued (mr_q t) = dequeued (mr_q s)"
    and claim: "pop_claimed (ms_log (mr_q s)) (ms_pc (mr_q t) (consumer_tid c k)) =
        pop_claimed (ms_log (mr_q s)) (ms_pc (mr_q s) (consumer_tid c k))"
      "item_claimed m = item_claimed (mr_consumer s k)"
    and t: "mr_consumer t = (mr_consumer s)(k := m)" "mr_last t = mr_last s" "mr_popped t = mr_popped s" "mr_consumed t = mr_consumed s"
  shows "mp_received c t"
proof -
  note h = mp_hand_consumer [OF q(1,2) t(1) claim(1)]
  have inside: "mp_inside t = mp_inside s" using h(1) by (auto simp: mp_inside_def)
  have hand: "mp_hand c t = mp_hand c s"
    using h(2) fun_upd_triv [of "mp_hand c s" "consumer_tid c k"] unfolding mp_hand_self [of c s k] claim(2) by (rule trans)
  have taken: "mp_taken t = mp_taken s" by (simp add: mp_taken_def q)
  show ?thesis using rec unfolding mp_received_def inside hand taken q(3) t(2-4) .
qed

lemma mp_consumer_quiet:
  assumes inv: "mpmc_run_inv c f s" and k: "k < unat (cfg_consumers c)" "mr_consumer s k \<noteq> Mc_end"
    and q: "mr_q t = mr_q s \<or> mpmc_pop_step (ucast (cfg_capacity c)) (consumer_tid c k) (mr_q s) (mr_q t)"
      "dequeued (mr_q t) = dequeued (mr_q s)"
    and t: "t = s\<lparr>mr_q := mr_q t, mr_empty_retries := n, mr_consumer := (mr_consumer s)(k := m)\<rparr>"
      "mc_ok (unat (cfg_payload_size c)) m (ms_pc (mr_q t) (consumer_tid c k))"
    and claim: "pop_claimed (ms_log (mr_q s)) (ms_pc (mr_q t) (consumer_tid c k)) =
        pop_claimed (ms_log (mr_q s)) (ms_pc (mr_q s) (consumer_tid c k))"
      "item_claimed m = item_claimed (mr_consumer s k)"
    and fin: "m = Mc_end \<Longrightarrow> mr_remaining s = 0 \<and> mr_pushed s \<le> mr_popped s"
  shows "mpmc_run_inv c f t"
proof -
  have T: "mr_producer t = mr_producer s" "mr_local t = mr_local s" "mr_consumer t = (mr_consumer s)(k := m)"
      "mr_published t = mr_published s" "mr_pushed t = mr_pushed s" "mr_remaining t = mr_remaining s"
      "mr_failures t = mr_failures s" "mr_result t = mr_result s"
      "mr_last t = mr_last s" "mr_popped t = mr_popped s" "mr_consumed t = mr_consumed s"
    by (subst t(1); simp)+
  have fr: "\<And>u. u \<noteq> consumer_tid c k \<Longrightarrow> ms_pc (mr_q t) u = ms_pc (mr_q s) u" "ms_log (mr_q t) = ms_log (mr_q s)"
    using q(1) pop_frame [of _ "consumer_tid c k" "mr_q s" "mr_q t"] by auto
  have "mp_received c t" by (rule mp_received_quiet [OF mpmc_run_invD(5) [OF inv] fr q(2) claim T(3,9-11)])
  then show ?thesis using fin T(10) by (intro mp_consumer_inv [OF inv k q(1) T(1-8) t(2)]) simp_all
qed

lemma mp_inside_pop_inv:
  assumes inv: "mpmc_run_inv c f s" and k: "k < unat (cfg_consumers c)" and pc: "mr_consumer s k = Mc_pop"
      "\<And>r d. ms_pc (mr_q s) (consumer_tid c k) \<noteq> Pop_done r d"
    and q: "mpmc_pop_step (ucast (cfg_capacity c)) (consumer_tid c k) (mr_q s) q"
  shows "mpmc_run_inv c f (s\<lparr>mr_q := q\<rparr>)"
proof -
  note I = mpmc_run_invD [OF inv]
  let ?t = "s\<lparr>mr_q := q\<rparr>" and ?u = "consumer_tid c k" and ?log = "ms_log (mr_q s)" and ?d = "dequeued (mr_q s)"
  have "pop_of (unat (cfg_payload_size c)) (ms_pc (mr_q s) ?u)" using mp_threadsD(2) [OF I(3) k] pc(1) by simp
  note inside = pop_inside [OF q I(2) this pc(2) mp_log_length(1) [OF inv], simplified]
  note fr = pop_frame [OF q]
  have cons: "mr_consumer ?t = (mr_consumer s)(k := Mc_pop)" using pc(1) by auto
  show ?thesis
  proof (cases "dequeued q = ?d")
    case True
    have t: "?t = s\<lparr>mr_q := mr_q ?t, mr_empty_retries := mr_empty_retries s, mr_consumer := (mr_consumer s)(k := Mc_pop)\<rparr>"
      unfolding fun_upd_idem [of "mr_consumer s" k Mc_pop, OF pc(1)] by simp
    show ?thesis
      by (rule mp_consumer_quiet [OF inv k _ _ _ t]) (use pc q True inside in auto)
  next
    case False
    then have claim: "dequeued q = Suc ?d" "?d < length ?log" "pop_claimed ?log (ms_pc (mr_q s) ?u) = None"
        "pop_claimed ?log (ms_pc q ?u) = Some (of_nat (Suc ?d), ?log ! ?d)"
      using inside(2) by auto
    let ?x = "?log ! ?d"
    note h = mp_hand_consumer [of c k ?t s, OF _ _ cons, simplified, OF fr(2,1) claim(4), simplified]
    have none: "mp_inside s ?u = None" "mp_hand c s ?u = None"
      using claim(3) pc(1) by (simp_all add: mp_hand_self mp_inside_def)
    have log: "sent_log c (mp_next s) ?log" using I(4) by (simp add: mp_sent_def)
    have taken: "mp_taken ?t = insert ?x (mp_taken s)"
      using claim(1,2) fr(1) by (simp add: mp_taken_def take_Suc_conv_app_nth)
    have fresh: "?x \<notin> mp_taken s"
      using log claim(2) by (auto simp: sent_log_def mp_taken_def in_set_conv_nth nth_eq_iff_index_eq)
    have msg: "?x \<in> message c ` {1..slots c}" using sent_logD [OF log] claim(2) nth_mem by blast
    have small: "unat (of_nat (Suc ?d) :: u64) = Suc ?d"
      using claim(2) mp_log_length(2) [OF inv] unat_total_slots(3) [OF I(1)] ms_invE(1) [OF I(2)]
      by (intro unat_of_nat_64) (simp add: mm_counters_def)
    then have small': "unat (1 + of_nat ?d :: u64) = Suc ?d" by (simp only: of_nat_Suc)
    have "ledger c (mp_taken ?t) (\<lambda>u. map_option snd (mp_inside ?t u)) counted"
      if "ledger c (mp_taken s) (\<lambda>u. map_option snd (mp_inside s u)) counted" for counted
      using ledger_take [OF I(1) that msg fresh, of ?u] none(1) unfolding taken h(1) map_option_upd by simp
    moreover have "ledger c (mp_taken ?t) (\<lambda>u. map_option snd (mp_hand c ?t u)) marked"
      if "ledger c (mp_taken s) (\<lambda>u. map_option snd (mp_hand c s u)) marked" for marked
      using ledger_take [OF I(1) that msg fresh, of ?u] none(2) unfolding taken h(2) map_option_upd by simp
    moreover have "unat (mr_last s j) \<le> dequeued q \<and> (\<forall>sq x. mp_hand c ?t (consumer_tid c j) = Some (sq, x) \<longrightarrow>
        mr_last s j < sq \<and> unat sq \<le> dequeued q)" if "j < unat (cfg_consumers c)" for j
      using I(5) that claim(1) unfolding mp_received_def h(2)
      by (cases "j = k") (auto simp: word_less_nat_alt le_SucI small')
    ultimately have "mp_received c ?t" using I(5) unfolding mp_received_def by fastforce
    then show ?thesis
      using q inside(1) pc by (intro mp_consumer_inv [OF inv k _ _ _ _ cons]) simp_all
  qed
qed

lemma mp_counted_inv:
  assumes inv: "mpmc_run_inv c f s" and k: "k < unat (cfg_consumers c)" and pc: "mr_consumer s k = Mc_pop"
      "ms_pc (mr_q s) (consumer_tid c k) = Pop_done r x" "rr_status r = Success"
    and q: "mpmc_pop_step (ucast (cfg_capacity c)) (consumer_tid c k) (mr_q s) q"
  shows "mpmc_run_inv c f (s\<lparr>mr_q := q, mr_popped := mr_popped s + 1, mr_consumer := (mr_consumer s)(k := Mc_item r x)\<rparr>)"
proof -
  note I = mpmc_run_invD [OF inv]
  let ?t = "s\<lparr>mr_q := q, mr_popped := mr_popped s + 1, mr_consumer := (mr_consumer s)(k := Mc_item r x)\<rparr>"
  let ?u = "consumer_tid c k"
  have q': "q = (mr_q s)\<lparr>ms_pc := (ms_pc (mr_q s))(?u := M_idle)\<rparr>" by (rule pop_returned [OF q pc(2)])
  have "pop_claimed (ms_log (mr_q s)) (ms_pc (mr_q ?t) ?u) = None" by (simp add: q')
  note h = mp_hand_consumer [of c k ?t s "Mc_item r x", OF _ _ _ this, simplified]
  have inside: "mp_inside ?t = (mp_inside s)(?u := None)" using h(1) by (simp add: q')
  have held: "mp_inside s ?u = Some (rr_sequence r, x)" "mp_hand c s ?u = Some (rr_sequence r, x)"
    using pc by (simp_all add: mp_inside_def mp_hand_self)
  have hand: "mp_hand c ?t = mp_hand c s"
    using h(2) held(2) by (simp add: q' fun_upd_idem)
  have same: "mp_taken ?t = mp_taken s" "dequeued (mr_q ?t) = dequeued (mr_q s)" by (simp_all add: mp_taken_def q')
  obtain counted where led: "ledger c (mp_taken s) (\<lambda>u. map_option snd (mp_inside s u)) counted" "mr_popped s = of_nat (card counted)"
    using I(5) unfolding mp_received_def by blast
  note L = ledger_mark [OF I(1) led(1), of ?u x]
  have led': "ledger c (mp_taken s) (\<lambda>u. map_option snd (mp_inside ?t u)) (insert (number_of x) counted)"
    using L held(1) unfolding inside map_option_upd by simp
  have new: "number_of x \<notin> counted" using ledgerD(3) [OF led(1), of ?u x] held(1) by simp
  have card: "mr_popped s + 1 = of_nat (card (insert (number_of x) counted))"
    using led(2) new ledger_bound(1) [OF I(1) led(1)] by simp
  have "Suc (card counted) \<le> slots c"
    using ledger_bound [OF I(1) led'] new by simp
  then have "mr_popped s \<le> mr_popped s + 1"
    using unat_total_slots(3) [OF I(1)] unat_Suc_word [of "mr_popped s"] led(2) unat_of_nat_64 [of "card counted"]
    by (simp add: word_le_nat_alt)
  moreover have "mp_received c ?t"
    using I(5) led' card unfolding mp_received_def hand same by auto
  ultimately show ?thesis
    using q pc by (intro mp_consumer_inv [OF inv k, where m = "Mc_item r x"]) (simp_all add: q')
qed

lemma mp_item_inv:
  assumes inv: "mpmc_run_inv c f s" and k: "k < unat (cfg_consumers c)" and pc: "mr_consumer s k = Mc_item r x"
  shows "mpmc_run_inv c f (mpmc_on_item c k r x s)"
proof -
  note I = mpmc_run_invD [OF inv]
  let ?u = "consumer_tid c k"
  define t where "t = mpmc_on_item c k r x s"
  have idle: "ms_pc (mr_q s) ?u = M_idle" using mp_threadsD(2) [OF I(3) k] pc by simp
  then have held: "mp_inside s ?u = None" "mp_hand c s ?u = Some (rr_sequence r, x)"
    using pc by (simp_all add: mp_hand_self mp_inside_def)
  obtain marked where led: "ledger c (mp_taken s) (\<lambda>u. map_option snd (mp_hand c s u)) marked" "flags c marked (mr_consumed s)"
    using I(5) unfolding mp_received_def by blast
  have order: "mr_last s k < rr_sequence r" "unat (rr_sequence r) \<le> dequeued (mr_q s)"
    using I(5) k held(2) unfolding mp_received_def by blast+
  note L = ledgerD [OF led(1)]
  obtain g where g: "g \<in> {1..slots c}" "x = message c g" using L(1) L(2) [of ?u x] held(2) by auto
  have ng: "number_of x = g" using g number_of_message [OF I(1)] by simp
  note rx = message_received [OF I(1) g(1), folded g(2)]
  have ug: "unat (of_nat g :: u64) = g" using g unat_total_slots(3) [OF I(1)] by (intro unat_of_nat_64) simp
  have zero: "mr_consumed s ! g = 0" using flags_nth [OF led(2)] g(1) L(3) [of ?u x] held(2) ng by simp
  have t: "t = s\<lparr>mr_last := (mr_last s)(k := rr_sequence r), mr_consumer := (mr_consumer s)(k := Mc_loop),
      mr_consumed := (mr_consumed s)[g := 1]\<rparr>"
    unfolding t_def mpmc_on_item_def Let_def using rx zero order(1) by (simp add: ug not_le)
  note h = mp_hand_consumer [of c k t s Mc_loop None]
  have inside: "mp_inside t = mp_inside s" using h(1) held(1) idle by (simp add: t fun_upd_idem)
  have hand: "mp_hand c t = (mp_hand c s)(?u := None)" using h(2) idle by (simp add: t)
  have same: "mp_taken t = mp_taken s" "dequeued (mr_q t) = dequeued (mr_q s)" "mr_popped t = mr_popped s"
    by (simp_all add: mp_taken_def t)
  have "ledger c (mp_taken s) (\<lambda>u. map_option snd (mp_hand c t u)) (insert g marked)"
    using ledger_mark [OF I(1) led(1), of ?u x] held(2) ng unfolding hand map_option_upd by simp
  moreover have "flags c (insert g marked) (mr_consumed t)" using flags_set [OF led(2), of g] g(1) by (simp add: t)
  moreover have "unat (mr_last t j) \<le> dequeued (mr_q s) \<and> (\<forall>sq x. mp_hand c t (consumer_tid c j) = Some (sq, x) \<longrightarrow>
      mr_last t j < sq \<and> unat sq \<le> dequeued (mr_q s))" if "j < unat (cfg_consumers c)" for j
    using I(5) that order(2) unfolding mp_received_def hand by (cases "j = k") (simp_all add: t)
  ultimately have "mp_received c t" using I(5) unfolding mp_received_def inside same by blast
  then show ?thesis
    unfolding t_def [symmetric] using pc idle
    by (intro mp_consumer_inv [OF inv k, where m = Mc_loop]) (simp_all add: t)
qed

lemma mpmc_consumer_step_inv:
  assumes inv: "mpmc_run_inv c f s" and k: "k < unat (cfg_consumers c)" and step: "mpmc_consumer_step c k s t"
  shows "mpmc_run_inv c f t"
proof -
  let ?u = "consumer_tid c k"
  have ok: "mc_ok (unat (cfg_payload_size c)) (mr_consumer s k) (ms_pc (mr_q s) ?u)"
    by (rule mp_threadsD(2) [OF mpmc_run_invD(3) [OF inv] k])
  from step show ?thesis
  proof cases
    case mc_start
    then show ?thesis using ok
      by (intro mp_consumer_quiet [OF inv k, where m = Mc_loop and n = "mr_empty_retries s"]) simp_all
  next
    case (mc_call q position)
    then have idle: "ms_pc (mr_q s) ?u = M_idle" using ok by simp
    have "dequeued q = dequeued (mr_q s)" by (subst pop_called [OF mc_call(3) idle]) simp
    then show ?thesis using mc_call idle
      by (intro mp_consumer_quiet [OF inv k, where m = Mc_pop and n = "mr_empty_retries s"]) simp_all
  next
    case (mc_inside q)
    then show ?thesis using mp_inside_pop_inv [OF inv k] by simp
  next
    case (mc_result r payload q popped)
    note q = pop_returned [OF mc_result(4,3)]
    consider "rr_status r = Success" | "rr_status r = Empty" using ok mc_result(2,3) by auto
    then show ?thesis
    proof cases
      case 1
      then show ?thesis using mp_counted_inv [OF inv k mc_result(2,3) 1 mc_result(4)] mc_result(1) by (simp add: mpmc_on_pop_def)
    next
      case 2
      then show ?thesis using mc_result q
        by (intro mp_consumer_quiet [OF inv k, where m = Mc_empty and n = "mr_empty_retries s + 1"]) (simp_all add: mpmc_on_pop_def)
    qed
  next
    case (mc_item r payload)
    then show ?thesis using mp_item_inv [OF inv k] by simp
  next
    case mc_again
    then show ?thesis using ok
      by (intro mp_consumer_quiet [OF inv k, where m = Mc_loop and n = "mr_empty_retries s"]) simp_all
  next
    case (mc_drained popped)
    then show ?thesis using ok
      by (intro mp_consumer_quiet [OF inv k, where m = Mc_end and n = "mr_empty_retries s"]) simp_all
  qed
qed

section \<open>The end of the run\<close>

text \<open>When no message is between the queue and the books, the books agree with the queue.\<close>

lemma mp_idle:
  assumes inv: "mpmc_run_inv c f s"
    and rest: "\<And>p. p < unat (cfg_producers c) \<Longrightarrow> mr_producer s p = Mp_end"
      "\<And>k. k < unat (cfg_consumers c) \<Longrightarrow> mr_consumer s k = Mc_loop \<or> mr_consumer s k = Mc_end"
  shows "ms_pc (mr_q s) t = M_idle" "item_claimed (mr_consumer s k) = None" "quiescent (mr_q s)"
proof -
  note thr = mp_threadsD [OF mpmc_run_invD(3) [OF inv]]
  show idle: "ms_pc (mr_q s) t = M_idle" for t
  proof -
    consider "t < unat (cfg_producers c)" | k where "k < unat (cfg_consumers c)" "t = consumer_tid c k"
      | "unat (cfg_producers c) + unat (cfg_consumers c) \<le> t"
      unfolding consumer_tid_def by (metis add_less_cancel_left le_Suc_ex not_le)
    then show ?thesis
    proof cases
      case 1
      then show ?thesis using thr(1) rest(1) by fastforce
    next
      case (2 k)
      then show ?thesis using thr(2) [OF 2(1)] rest(2) [OF 2(1)] by auto
    next
      case 3
      then show ?thesis by (rule thr(3))
    qed
  qed
  show "item_claimed (mr_consumer s k) = None"
    using rest(2) [of k] thr(4) [of k] by (cases "k < unat (cfg_consumers c)") auto
  show "quiescent (mr_q s)" by (simp add: quiescent_def idle)
qed

lemma mp_quiet:
  assumes inv: "mpmc_run_inv c f s"
    and rest: "\<And>p. p < unat (cfg_producers c) \<Longrightarrow> mr_producer s p = Mp_end"
      "\<And>k. k < unat (cfg_consumers c) \<Longrightarrow> mr_consumer s k = Mc_loop \<or> mr_consumer s k = Mc_end"
  shows "mr_pushed s = of_nat (enqueued (mr_q s))" "mr_popped s = of_nat (dequeued (mr_q s))"
    "mr_pushed s \<le> mr_popped s \<longleftrightarrow> dequeued (mr_q s) = enqueued (mr_q s)"
    "dequeued (mr_q s) = enqueued (mr_q s) \<Longrightarrow> mr_published s = mr_consumed s"
proof -
  note I = mpmc_run_invD [OF inv]
  let ?log = "ms_log (mr_q s)" and ?S = "numbers c (mp_next s)"
  have none: "mp_inside s = (\<lambda>_. None)" "mp_hand c s = (\<lambda>_. None)"
    using mp_idle(2) [OF inv rest] by (auto simp: mp_inside_def mp_hand_def mp_idle(1) [OF inv rest])
  have nxt: "mp_next s = (\<lambda>p. unat (mr_local s p))" by (simp add: mp_next_def mp_idle(1) [OF inv rest] fun_eq_iff)
  have S: "sent_log c (mp_next s) ?log" "flags c ?S (mr_published s)" "mr_pushed s = of_nat (card ?S)"
    using I(4) unfolding mp_sent_def nxt by blast+
  have len: "length ?log = card ?S" "length ?log = enqueued (mr_q s)" "dequeued (mr_q s) \<le> enqueued (mr_q s)"
    using sent_log_length [OF I(1) S(1)] ms_invE(1) [OF I(2)] by (simp_all add: mm_counters_def)
  obtain counted marked where led: "ledger c (mp_taken s) (\<lambda>_. None) counted" "mr_popped s = of_nat (card counted)"
      "ledger c (mp_taken s) (\<lambda>_. None) marked" "flags c marked (mr_consumed s)"
    using I(5) unfolding mp_received_def none by auto
  have all: "counted = number_of ` mp_taken s" "marked = number_of ` mp_taken s"
    using ledger_settled led(1,3) by blast+
  have "card counted = card (mp_taken s)"
    unfolding all(1) using inj_on_subset [OF number_of_inj [OF I(1)] ledgerD(1) [OF led(1)]] by (rule card_image)
  also have "\<dots> = dequeued (mr_q s)"
    using S(1) len distinct_card [of "take (dequeued (mr_q s)) ?log"] by (simp add: mp_taken_def sent_log_def)
  finally show popped: "mr_popped s = of_nat (dequeued (mr_q s))" using led(2) by simp
  show pushed: "mr_pushed s = of_nat (enqueued (mr_q s))" using S(3) len by simp
  have "unat (of_nat (enqueued (mr_q s)) :: u64) = enqueued (mr_q s)" "unat (of_nat (dequeued (mr_q s)) :: u64) = dequeued (mr_q s)"
    using mp_log_length(2) [OF inv] len(3) unat_total_slots(3) [OF I(1)] by (auto intro!: unat_of_nat_64)
  then show "mr_pushed s \<le> mr_popped s \<longleftrightarrow> dequeued (mr_q s) = enqueued (mr_q s)"
    using len(3) unfolding popped pushed word_le_nat_alt by auto
  show "mr_published s = mr_consumed s" if "dequeued (mr_q s) = enqueued (mr_q s)"
    using flags_equal [OF S(2)] led(4) all(2) that len sent_log_numbers [OF I(1) S(1)] by (simp add: mp_taken_def)
qed

lemma mp_settled:
  assumes inv: "mpmc_run_inv c f s"
    and ended: "\<And>p. p < unat (cfg_producers c) \<Longrightarrow> mr_producer s p = Mp_end"
      "\<And>k. k < unat (cfg_consumers c) \<Longrightarrow> mr_consumer s k = Mc_end"
  shows "mr_published s = mr_consumed s" "mr_pushed s = mr_popped s" "dequeued (mr_q s) = enqueued (mr_q s)"
proof -
  have "mr_pushed s \<le> mr_popped s"
    using mpmc_run_invD(6) [OF inv] ended(2) checked_bounds(5) [OF mpmc_run_invD(1) [OF inv]] unfolding mp_left_def by blast
  moreover note q = mp_quiet [OF inv ended(1)]
  ultimately show all: "dequeued (mr_q s) = enqueued (mr_q s)" using ended(2) by blast
  show "mr_published s = mr_consumed s" using q(4) all ended(2) by blast
  show "mr_pushed s = mr_popped s" using q(1,2) all ended(2) by simp
qed

lemma mpmc_main_step_inv:
  assumes inv: "mpmc_run_inv c f s" and step: "mpmc_main_step c s t"
  shows "mpmc_run_inv c f t"
proof -
  note I = mpmc_run_invD [OF inv]
  have keep: "mpmc_run_inv c f t"
    if t: "mr_q t = mr_q s" "mr_remaining t = mr_remaining s" "mr_producer t = mr_producer s" "mr_consumer t = mr_consumer s"
      "mr_local t = mr_local s" "mr_last t = mr_last s" "mr_published t = mr_published s" "mr_pushed t = mr_pushed s"
      "mr_consumed t = mr_consumed s" "mr_popped t = mr_popped s" "mr_failures t = f"
      and r: "\<And>r printed. mr_result t = Some (r, printed) \<Longrightarrow> r = (\<not> fr_failed f) \<and>
        (\<forall>p < unat (cfg_producers c). mr_producer s p = Mp_end) \<and> (\<forall>k < unat (cfg_consumers c). mr_consumer s k = Mc_end)" for t
  proof -
    have "mp_hand c t = mp_hand c s" "mp_inside t = mp_inside s" "mp_taken t = mp_taken s" "mp_next t = mp_next s"
        "mp_message c t = mp_message c s"
      unfolding mp_hand_def mp_inside_def mp_taken_def mp_next_def mp_message_def t(1,4,5) by (rule refl)+
    then have "mp_threads c t" "mp_sent c t" "mp_received c t" "mp_left c t"
      using I(3-6) t by (simp_all add: mp_threads_def mp_sent_def mp_received_def mp_left_def)
    then show ?thesis using I(1,2) t r by (simp add: mpmc_run_inv_def)
  qed
  from step show ?thesis
  proof cases
    case mm_start
    then show ?thesis using I(7,8) by (intro keep) auto
  next
    case mm_finish
    note e = mp_settled [OF inv mm_finish(3,4)]
    then show ?thesis
      using mm_finish I(7) by (intro keep) (auto simp: mpmc_finish_def compare_equal Let_def)
  qed
qed

lemma mpmc_run_inv_init:
  assumes chk: "check_config c = None" and init: "mpmc_run_init c f s"
  shows "mpmc_run_inv c f s"
proof -
  have q: "mpmc_sys_init max_payload_size (ucast (cfg_capacity c)) (mr_q s)"
    and s: "s = \<lparr>mr_q = mr_q s, mr_start = False, mr_remaining = cfg_producers c, mr_pushed = 0, mr_popped = 0,
       mr_full_retries = 0, mr_empty_retries = 0, mr_published = membership c, mr_consumed = membership c,
       mr_failures = f, mr_local = (\<lambda>_. 1), mr_last = (\<lambda>_. 0), mr_producer = (\<lambda>_. Mp_wait),
       mr_consumer = (\<lambda>_. Mc_wait), mr_result = None\<rparr>"
    using init unfolding mpmc_run_init_def by blast+
  have f: "mr_remaining s = cfg_producers c" "mr_pushed s = 0" "mr_popped s = 0" "mr_published s = membership c"
      "mr_consumed s = membership c" "mr_failures s = f" "mr_local s = (\<lambda>_. 1)" "mr_last s = (\<lambda>_. 0)"
      "mr_producer s = (\<lambda>_. Mp_wait)" "mr_consumer s = (\<lambda>_. Mc_wait)" "mr_result s = None"
    by (subst s; simp)+
  have q': "ms_pc (mr_q s) = (\<lambda>_. M_idle)" "ms_log (mr_q s) = []" using q by (auto simp: mpmc_sys_init_def)
  have none: "mp_inside s = (\<lambda>_. None)" "mp_hand c s = (\<lambda>_. None)" "mp_taken s = {}"
    by (auto simp: mp_inside_def mp_hand_def mp_taken_def q' f)
  have num: "numbers c (\<lambda>p. unat (mr_local s p)) = {}" "numbers c (mp_next s) = {}"
    by (intro numbers_start; simp add: f mp_next_def q')+
  have "mp_sent c s"
    unfolding mp_sent_def q' f(2,4) num sent_log_def
    using flags_start [OF chk] checked_bounds(1) [OF chk] by (auto simp: f mp_next_def q')
  moreover have "mp_received c s"
    unfolding mp_received_def none f(3,5,8) using ledger_start flags_start [OF chk]
    by (auto intro!: exI [of _ "{}"])
  moreover have "mp_threads c s" "mp_left c s" by (simp_all add: mp_threads_def mp_left_def f q')
  ultimately show ?thesis using chk ms_inv_init [OF q] by (simp add: mpmc_run_inv_def f)
qed

interpretation mp_stress: invariant_system
  "\<lambda>s. check_config c = None \<and> mpmc_run_init c f s" "mpmc_run_step c" "mpmc_run_inv c f"
  for c f
  by unfold_locales
    (auto simp: mpmc_run_step_def
      intro: mpmc_run_inv_init mpmc_producer_step_inv mpmc_consumer_step_inv mpmc_main_step_inv)

section \<open>Every run can be brought to its end\<close>

lemma mp_run_inv: "mpmc_run_inv c f s \<Longrightarrow> (mpmc_run_step c)\<^sup>*\<^sup>* s t \<Longrightarrow> mpmc_run_inv c f t"
  by (rule mp_stress.run_inv)

lemma mp_run_first: "mpmc_run_step c s t \<Longrightarrow> (mpmc_run_step c)\<^sup>*\<^sup>* t u \<Longrightarrow> (mpmc_run_step c)\<^sup>*\<^sup>* s u"
  by (rule converse_rtranclp_into_rtranclp)

lemma mp_run_consumer: "mpmc_consumer_step c k s t \<Longrightarrow> k < unat (cfg_consumers c) \<Longrightarrow> mpmc_run_step c s t"
  unfolding mpmc_run_step_def by blast

lemma push_of_in: "push_of x pc \<Longrightarrow> in_push pc \<or> (\<exists>r. pc = Push_done r)"
  by (cases pc) (auto simp: in_push_def)

lemma pop_of_in: "pop_of n pc \<Longrightarrow> in_pop pc \<or> (\<exists>r d. pc = Pop_done r d)"
  by (cases pc) (auto simp: in_pop_def)

lemma producer_helpful:
  assumes inv: "mpmc_run_inv c f s" and p: "p < unat (cfg_producers c)" "mr_start s" "mr_producer s p \<noteq> Mp_end"
  shows "\<exists>t. mpmc_producer_step c p s t \<and> mp_rank t p < mp_rank s p \<and> mr_start t \<and> mr_result t = mr_result s \<and>
    (\<forall>u. u \<noteq> p \<longrightarrow> mr_producer t u = mr_producer s u)"
proof -
  note I = mpmc_run_invD [OF inv]
  have go: ?thesis if "mpmc_producer_step c p s t" "mp_rank t p < mp_rank s p" "mr_start t" "mr_result t = mr_result s"
    "\<And>u. u \<noteq> p \<Longrightarrow> mr_producer t u = mr_producer s u" for t
    using that by blast
  show ?thesis
  proof (cases "mr_producer s p")
    case Mp_wait
    show ?thesis by (rule go [OF mpmc_producer_step.mp_start [OF Mp_wait p(2)]]) (simp_all add: mp_rank_def Mp_wait p(2))
  next
    case Mp_loop
    show ?thesis by (rule go [OF mpmc_producer_step.mp_leave [OF Mp_loop]]) (simp_all add: mp_rank_def Mp_loop p(2))
  next
    case Mp_exit
    show ?thesis by (rule go [OF mpmc_producer_step.mp_exit [OF Mp_exit]]) (simp_all add: mp_rank_def Mp_exit p(2))
  next
    case Mp_push
    have of: "push_of (mp_message c s p) (ms_pc (mr_q s) p)" using mp_threadsD(1) [OF I(3) p(1)] Mp_push by simp
    show ?thesis
    proof (cases "\<exists>r. ms_pc (mr_q s) p = Push_done r")
      case True
      then obtain r where r: "ms_pc (mr_q s) p = Push_done r" by blast
      then have "wr_status r = Success \<or> wr_status r = Full" using of by simp
      then show ?thesis
        by (intro go [OF mpmc_producer_step.mp_result [OF Mp_push r mpmc_push_step.push_return [OF r]]])
          (auto simp: mp_rank_def Mp_push p(2) mpmc_on_push_def Let_def)
    next
      case False
      then obtain q where q: "mpmc_push_step max_payload_size (ucast (cfg_capacity c)) p (mr_q s) q"
          "push_rank q (ms_pc q p) < push_rank (mr_q s) (ms_pc (mr_q s) p)"
        using push_helpful [OF I(2)] push_of_in [OF of] by blast
      show ?thesis
        by (rule go [OF mpmc_producer_step.mp_inside [OF Mp_push _ q(1)]]) (use False q(2) in \<open>simp_all add: mp_rank_def Mp_push p(2)\<close>)
    qed
  qed (use p in simp)
qed

lemma mp_producer_ends:
  assumes "mpmc_run_inv c f s" "p < unat (cfg_producers c)" "mr_start s"
  shows "\<exists>t. (mpmc_run_step c)\<^sup>*\<^sup>* s t \<and> mr_start t \<and> mr_result t = mr_result s \<and> mr_producer t p = Mp_end \<and>
    (\<forall>u. u \<noteq> p \<longrightarrow> mr_producer t u = mr_producer s u)"
  using assms
proof (induction "mp_rank s p" arbitrary: s rule: less_induct)
  case less
  show ?case
  proof (cases "mr_producer s p = Mp_end")
    case True
    then show ?thesis using less.prems(3) by blast
  next
    case False
    obtain t where t: "mpmc_producer_step c p s t" "mp_rank t p < mp_rank s p" "mr_start t" "mr_result t = mr_result s"
        "\<And>u. u \<noteq> p \<Longrightarrow> mr_producer t u = mr_producer s u"
      using producer_helpful [OF less.prems False] by blast
    have step: "mpmc_run_step c s t" using t(1) less.prems(2) unfolding mpmc_run_step_def by blast
    show ?thesis
      using less.hyps [OF t(2) mpmc_producer_step_inv [OF less.prems(1,2) t(1)] less.prems(2) t(3)] t(4,5)
        mp_run_first [OF step] by metis
  qed
qed

lemma producers_end:
  assumes "mpmc_run_inv c f s" "mr_start s" "n \<le> unat (cfg_producers c)"
  shows "\<exists>t. (mpmc_run_step c)\<^sup>*\<^sup>* s t \<and> mr_start t \<and> mr_result t = mr_result s \<and> (\<forall>p < n. mr_producer t p = Mp_end)"
  using assms(3)
proof (induction n)
  case 0
  then show ?case using assms(2) by blast
next
  case (Suc n)
  then obtain t where t: "(mpmc_run_step c)\<^sup>*\<^sup>* s t" "mr_start t" "mr_result t = mr_result s" "\<And>p. p < n \<Longrightarrow> mr_producer t p = Mp_end"
    by auto
  obtain u where u: "(mpmc_run_step c)\<^sup>*\<^sup>* t u" "mr_start u" "mr_result u = mr_result t" "mr_producer u n = Mp_end"
      "\<And>p. p \<noteq> n \<Longrightarrow> mr_producer u p = mr_producer t p"
    using mp_producer_ends [OF mp_run_inv [OF assms(1) t(1)] _ t(2), of n] Suc.prems by auto
  show ?case
    using rtranclp_trans [OF t(1) u(1)] u(2-5) t(3,4) by (intro exI [of _ u]) (auto simp: less_Suc_eq)
qed

lemma consumer_helpful:
  assumes inv: "mpmc_run_inv c f s" and k: "k < unat (cfg_consumers c)" "mr_start s" "mr_consumer s k \<noteq> Mc_loop" "mr_consumer s k \<noteq> Mc_end"
  shows "\<exists>t. mpmc_consumer_step c k s t \<and> mc_rank c t k < mc_rank c s k \<and> mr_start t \<and> mr_result t = mr_result s \<and>
    mr_producer t = mr_producer s \<and> (\<forall>u. u \<noteq> k \<longrightarrow> mr_consumer t u = mr_consumer s u)"
proof -
  note I = mpmc_run_invD [OF inv]
  let ?u = "consumer_tid c k"
  have go: ?thesis if "mpmc_consumer_step c k s t" "mc_rank c t k < mc_rank c s k" "mr_start t" "mr_result t = mr_result s"
    "mr_producer t = mr_producer s" "\<And>u. u \<noteq> k \<Longrightarrow> mr_consumer t u = mr_consumer s u" for t
    using that by blast
  show ?thesis
  proof (cases "mr_consumer s k")
    case Mc_wait
    show ?thesis by (rule go [OF mpmc_consumer_step.mc_start [OF Mc_wait k(2)]]) (simp_all add: mc_rank_def Mc_wait k(2))
  next
    case Mc_empty
    show ?thesis by (rule go [OF mpmc_consumer_step.mc_again [OF Mc_empty]]) (simp_all add: mc_rank_def Mc_empty k(2))
  next
    case (Mc_item r d)
    have f: "mr_consumer (mpmc_on_item c k r d s) = (mr_consumer s)(k := Mc_loop)"
        "mr_start (mpmc_on_item c k r d s) = mr_start s" "mr_result (mpmc_on_item c k r d s) = mr_result s"
        "mr_producer (mpmc_on_item c k r d s) = mr_producer s"
      by (simp_all add: mpmc_on_item_def Let_def split: prod.split)
    show ?thesis by (rule go [OF mpmc_consumer_step.mc_item [OF Mc_item]]) (simp_all add: mc_rank_def Mc_item k(2) f)
  next
    case Mc_pop
    have of: "pop_of (unat (cfg_payload_size c)) (ms_pc (mr_q s) ?u)" using mp_threadsD(2) [OF I(3) k(1)] Mc_pop by simp
    show ?thesis
    proof (cases "\<exists>r d. ms_pc (mr_q s) ?u = Pop_done r d")
      case True
      then obtain r d where r: "ms_pc (mr_q s) ?u = Pop_done r d" by blast
      then have "rr_status r = Success \<or> rr_status r = Empty" using of by simp
      then show ?thesis
        by (intro go [OF mpmc_consumer_step.mc_result [OF Mc_pop r mpmc_pop_step.pop_return [OF r] order_refl]])
          (auto simp: mc_rank_def Mc_pop k(2) mpmc_on_pop_def)
    next
      case False
      then obtain q where q: "mpmc_pop_step (ucast (cfg_capacity c)) ?u (mr_q s) q"
          "pop_rank max_payload_size q (ms_pc q ?u) < pop_rank max_payload_size (mr_q s) (ms_pc (mr_q s) ?u)"
        using pop_helpful [OF I(2)] pop_of_in [OF of] by blast
      show ?thesis
        by (rule go [OF mpmc_consumer_step.mc_inside [OF Mc_pop _ q(1)]]) (use False q(2) in \<open>simp_all add: mc_rank_def Mc_pop k(2)\<close>)
    qed
  qed (use k in simp_all)
qed

lemma consumer_step_queue:
  assumes "mpmc_consumer_step c k s t"
  shows "ms_log (mr_q t) = ms_log (mr_q s)" "dequeued (mr_q s) \<le> dequeued (mr_q t)"
proof -
  have q: "mr_q (mpmc_on_pop c k op r x u) = mr_q u" "mr_q (mpmc_on_item c k r x u) = mr_q u" for op r x u
    by (simp_all add: mpmc_on_pop_def mpmc_on_item_def Let_def split: prod.split)
  have pop: "ms_log q' = ms_log q \<and> dequeued q \<le> dequeued q'" if "mpmc_pop_step cap tid q q'" for cap tid q q'
    using that by cases (simp_all add: dequeued_def)
  show "ms_log (mr_q t) = ms_log (mr_q s)" "dequeued (mr_q s) \<le> dequeued (mr_q t)"
    using assms by (cases; auto simp: q dest: pop)+
qed

lemma consumer_rests:
  assumes "mpmc_run_inv c f s" "k < unat (cfg_consumers c)" "mr_start s"
  shows "\<exists>t. (mpmc_run_step c)\<^sup>*\<^sup>* s t \<and> mr_start t \<and> mr_result t = mr_result s \<and> mr_producer t = mr_producer s \<and>
    (mr_consumer t k = Mc_loop \<or> mr_consumer t k = Mc_end) \<and> (\<forall>u. u \<noteq> k \<longrightarrow> mr_consumer t u = mr_consumer s u) \<and>
    ms_log (mr_q t) = ms_log (mr_q s) \<and> dequeued (mr_q s) \<le> dequeued (mr_q t)"
  using assms
proof (induction "mc_rank c s k" arbitrary: s rule: less_induct)
  case less
  show ?case
  proof (cases "mr_consumer s k = Mc_loop \<or> mr_consumer s k = Mc_end")
    case True
    then show ?thesis using less.prems(3) by blast
  next
    case False
    then obtain t where t: "mpmc_consumer_step c k s t" "mc_rank c t k < mc_rank c s k" "mr_start t" "mr_result t = mr_result s"
        "mr_producer t = mr_producer s" "\<And>u. u \<noteq> k \<Longrightarrow> mr_consumer t u = mr_consumer s u"
      using consumer_helpful [OF less.prems] by blast
    have step: "mpmc_run_step c s t" using t(1) less.prems(2) unfolding mpmc_run_step_def by blast
    obtain u where u: "(mpmc_run_step c)\<^sup>*\<^sup>* t u" "mr_start u" "mr_result u = mr_result t" "mr_producer u = mr_producer t"
        "mr_consumer u k = Mc_loop \<or> mr_consumer u k = Mc_end" "\<And>j. j \<noteq> k \<Longrightarrow> mr_consumer u j = mr_consumer t j"
        "ms_log (mr_q u) = ms_log (mr_q t)" "dequeued (mr_q t) \<le> dequeued (mr_q u)"
      using less.hyps [OF t(2) mpmc_consumer_step_inv [OF less.prems(1,2) t(1)] less.prems(2) t(3)] by blast
    show ?thesis
      using mp_run_first [OF step u(1)] u(2-8) t(4-6) consumer_step_queue [OF t(1)]
      by (intro exI [of _ u]) auto
  qed
qed

lemma consumers_rest:
  assumes "mpmc_run_inv c f s" "mr_start s" "n \<le> unat (cfg_consumers c)"
  shows "\<exists>t. (mpmc_run_step c)\<^sup>*\<^sup>* s t \<and> mr_start t \<and> mr_result t = mr_result s \<and> mr_producer t = mr_producer s \<and>
    (\<forall>k < n. mr_consumer t k = Mc_loop \<or> mr_consumer t k = Mc_end) \<and>
    ms_log (mr_q t) = ms_log (mr_q s) \<and> dequeued (mr_q s) \<le> dequeued (mr_q t)"
  using assms(3)
proof (induction n)
  case 0
  then show ?case using assms(2) by blast
next
  case (Suc n)
  then obtain t where t: "(mpmc_run_step c)\<^sup>*\<^sup>* s t" "mr_start t" "mr_result t = mr_result s" "mr_producer t = mr_producer s"
      "\<And>k. k < n \<Longrightarrow> mr_consumer t k = Mc_loop \<or> mr_consumer t k = Mc_end"
      "ms_log (mr_q t) = ms_log (mr_q s)" "dequeued (mr_q s) \<le> dequeued (mr_q t)"
    by auto
  obtain u where u: "(mpmc_run_step c)\<^sup>*\<^sup>* t u" "mr_start u" "mr_result u = mr_result t" "mr_producer u = mr_producer t"
      "mr_consumer u n = Mc_loop \<or> mr_consumer u n = Mc_end" "\<And>k. k \<noteq> n \<Longrightarrow> mr_consumer u k = mr_consumer t k"
      "ms_log (mr_q u) = ms_log (mr_q t)" "dequeued (mr_q t) \<le> dequeued (mr_q u)"
    using consumer_rests [OF mp_run_inv [OF assms(1) t(1)] _ t(2), of n] Suc.prems by auto
  show ?case
    using rtranclp_trans [OF t(1) u(1)] u(2-8) t(3-7) by (intro exI [of _ u]) (auto simp: less_Suc_eq)
qed

lemma mp_restingD:
  assumes "mp_resting c s"
  shows "mr_start s" "mr_result s = None" "p < unat (cfg_producers c) \<Longrightarrow> mr_producer s p = Mp_end"
    "k < unat (cfg_consumers c) \<Longrightarrow> mr_consumer s k = Mc_loop \<or> mr_consumer s k = Mc_end"
  using assms unfolding mp_resting_def by blast+

lemma mp_can_rest:
  assumes inv: "mpmc_run_inv c f s" and s: "mr_result s = None"
  shows "\<exists>t. (mpmc_run_step c)\<^sup>*\<^sup>* s t \<and> mp_resting c t"
proof -
  have "\<exists>t. (mpmc_run_step c)\<^sup>*\<^sup>* s t \<and> mr_start t \<and> mr_result t = None"
  proof (cases "mr_start s")
    case False
    then have "mpmc_run_step c s (s\<lparr>mr_start := True\<rparr>)"
      using mpmc_main_step.mm_start unfolding mpmc_run_step_def by blast
    then show ?thesis using s by (intro exI [of _ "s\<lparr>mr_start := True\<rparr>"]) auto
  qed (use s in blast)
  then obtain t where t: "(mpmc_run_step c)\<^sup>*\<^sup>* s t" "mr_start t" "mr_result t = None" by blast
  obtain u where u: "(mpmc_run_step c)\<^sup>*\<^sup>* t u" "mr_start u" "mr_result u = mr_result t"
      "\<forall>p < unat (cfg_producers c). mr_producer u p = Mp_end"
    using producers_end [OF mp_run_inv [OF inv t(1)] t(2) order_refl] by blast
  note tu = rtranclp_trans [OF t(1) u(1)]
  obtain v where v: "(mpmc_run_step c)\<^sup>*\<^sup>* u v" "mr_start v" "mr_result v = mr_result u" "mr_producer v = mr_producer u"
      "\<forall>k < unat (cfg_consumers c). mr_consumer v k = Mc_loop \<or> mr_consumer v k = Mc_end"
    using consumers_rest [OF mp_run_inv [OF inv tu] u(2) order_refl] by blast
  show ?thesis
    using rtranclp_trans [OF tu v(1)] v(2-5) u(3,4) t(3) unfolding mp_resting_def by (intro exI [of _ v]) simp
qed

text \<open>A consumer at the head of its loop begins a pop with the newest position.\<close>

lemma mp_pop_begins:
  assumes inv: "mpmc_run_inv c f s" and rest: "mp_resting c s" and k: "k < unat (cfg_consumers c)" "mr_consumer s k = Mc_loop"
  defines "d \<equiv> replicate (unat (cfg_payload_size c)) 0" and "u \<equiv> consumer_tid c k" and "p \<equiv> last (ms_deq (mr_q s))"
    and "cap \<equiv> ucast (cfg_capacity c) :: u64"
  defines "t \<equiv> s\<lparr>mr_q := (mr_q s)\<lparr>ms_pc := (ms_pc (mr_q s))(u := Pop_seq d p)\<rparr>, mr_consumer := (mr_consumer s)(k := Mc_pop)\<rparr>"
  shows "mpmc_run_step c s t" "unat p = dequeued (mr_q s)" "unat (p + 1) = Suc (dequeued (mr_q s))"
    "last (ms_seq (mr_q s) ! cell_index cap p) \<in> set (ms_seq (mr_q s) ! cell_index cap p)"
    "unat (last (ms_seq (mr_q s) ! cell_index cap p)) =
       (if dequeued (mr_q s) < enqueued (mr_q s) then Suc (dequeued (mr_q s)) else dequeued (mr_q s))"
proof -
  note I = mpmc_run_invD [OF inv]
  note ms = I(2) [folded cap_def] and R = mp_restingD [OF rest]
  note cnt = ms_invE(1) [OF ms] and cells = ms_invE(2) [OF ms]
  note mem = mm_last_mem [OF cnt cells]
  have idle: "ms_pc (mr_q s) u = M_idle" and quiet: "quiescent (mr_q s)"
    using mp_idle(1,3) [OF inv] R(3,4) by blast+
  have q: "mpmc_pop_step cap u (mr_q s) ((mr_q s)\<lparr>ms_pc := (ms_pc (mr_q s))(u := Pop_seq d p)\<rparr>)"
    unfolding p_def by (rule mpmc_pop_step.pop_load [OF idle mem(2)])
  have "mpmc_consumer_step c k s t"
    unfolding t_def by (rule mpmc_consumer_step.mc_call [OF k(2) q [unfolded cap_def u_def], folded u_def]) (simp add: d_def u_def)
  then show "mpmc_run_step c s t" using k(1) unfolding mpmc_run_step_def by blast
  show up: "unat p = dequeued (mr_q s)" using unat_dequeued [OF cnt] by (simp add: p_def)
  then show "unat (p + 1) = Suc (dequeued (mr_q s))"
    using cnt mm_cap_ge_2 [OF cnt] unat_Suc_word [of p] by (simp add: mm_counters_def mpmc_lifetime_def)
  have i: "cell_index cap p = dequeued (mr_q s) mod unat cap" using cell_index_mod [OF cnt] up by simp
  then show "last (ms_seq (mr_q s) ! cell_index cap p) \<in> set (ms_seq (mr_q s) ! cell_index cap p)" using mem(3) by simp
  have "dequeued (mr_q s) \<le> enqueued (mr_q s)" using cnt by (simp add: mm_counters_def)
  then show "unat (last (ms_seq (mr_q s) ! cell_index cap p)) =
      (if dequeued (mr_q s) < enqueued (mr_q s) then Suc (dequeued (mr_q s)) else dequeued (mr_q s))"
    using quiescent_published [OF ms quiet, of "dequeued (mr_q s)"] quiescent_free [OF ms quiet, of "dequeued (mr_q s)"]
      mm_cap_ge_2 [OF cnt] unfolding i seq_at_def by auto
qed

lemma mp_pop_goes_on:
  assumes "mpmc_pop_step (ucast (cfg_capacity c)) (consumer_tid c k) q q'" "\<And>r d. ms_pc q (consumer_tid c k) \<noteq> Pop_done r d"
  shows "mpmc_consumer_step c k (s\<lparr>mr_q := q, mr_consumer := (mr_consumer s)(k := Mc_pop)\<rparr>)
    (s\<lparr>mr_q := q', mr_consumer := (mr_consumer s)(k := Mc_pop)\<rparr>)"
proof -
  let ?s = "s\<lparr>mr_q := q, mr_consumer := (mr_consumer s)(k := Mc_pop)\<rparr>"
  have "mpmc_consumer_step c k ?s (?s\<lparr>mr_q := q'\<rparr>)" by (rule mpmc_consumer_step.mc_inside) (use assms in simp_all)
  moreover have "?s\<lparr>mr_q := q'\<rparr> = s\<lparr>mr_q := q', mr_consumer := (mr_consumer s)(k := Mc_pop)\<rparr>" by simp
  ultimately show ?thesis by (simp only:)
qed

lemma mp_drain_one:
  assumes inv: "mpmc_run_inv c f s" and rest: "mp_resting c s" and some: "dequeued (mr_q s) < enqueued (mr_q s)"
  shows "\<exists>t. (mpmc_run_step c)\<^sup>*\<^sup>* s t \<and> mp_resting c t \<and>
    enqueued (mr_q t) - dequeued (mr_q t) < enqueued (mr_q s) - dequeued (mr_q s)"
proof -
  note I = mpmc_run_invD [OF inv] and R = mp_restingD [OF rest]
  let ?cap = "ucast (cfg_capacity c) :: u64" and ?u = "consumer_tid c 0" and ?p = "last (ms_deq (mr_q s))"
  let ?d = "replicate (unat (cfg_payload_size c)) 0 :: byte list"
  have k: "0 < unat (cfg_consumers c)" by (rule checked_bounds(5) [OF I(1)])
  have "mr_consumer s 0 \<noteq> Mc_end"
    using I(6) k mp_quiet(3) [OF inv R(3,4)] some unfolding mp_left_def by auto
  then have loop: "mr_consumer s 0 = Mc_loop" using R(4) [OF k] by simp
  note B = mp_pop_begins [OF inv rest k loop]
  let ?q1 = "(mr_q s)\<lparr>ms_pc := (ms_pc (mr_q s))(?u := Pop_seq ?d ?p)\<rparr>"
  let ?q2 = "(mr_q s)\<lparr>ms_pc := (ms_pc (mr_q s))(?u := Pop_cas ?d ?p)\<rparr>"
  let ?q3 = "(mr_q s)\<lparr>ms_deq := ms_deq (mr_q s) @ [?p + 1], ms_pc := (ms_pc (mr_q s))(?u := Pop_read ?d ?p (Read_size ?d))\<rparr>"
  let ?t = "\<lambda>q. s\<lparr>mr_q := q, mr_consumer := (mr_consumer s)(0 := Mc_pop)\<rparr>"
  have "last (ms_seq (mr_q s) ! cell_index ?cap ?p) = ?p + 1" using B(3,5) some by (simp add: word_unat_eq_iff)
  then have "mpmc_pop_step ?cap ?u ?q1 ?q2"
    using mpmc_pop_step.pop_ready [of ?q1 ?u ?d ?p "?p + 1" ?cap] B(4) by simp
  then have 2: "mpmc_consumer_step c 0 (?t ?q1) (?t ?q2)"
    using mp_pop_goes_on [of c 0 ?q1 ?q2 s] by simp
  have "mpmc_pop_step ?cap ?u ?q2 ?q3"
    using mpmc_pop_step.pop_claim [of ?q2 ?u ?d ?p ?cap] by simp
  then have 3: "mpmc_consumer_step c 0 (?t ?q2) (?t ?q3)"
    using mp_pop_goes_on [of c 0 ?q2 ?q3 s] by simp
  have run: "(mpmc_run_step c)\<^sup>*\<^sup>* s (?t ?q3)"
    using mp_run_first [OF B(1) mp_run_first [OF mp_run_consumer [OF 2 k] r_into_rtranclp [of "mpmc_run_step c", OF mp_run_consumer [OF 3 k]]]] .
  obtain v where v: "(mpmc_run_step c)\<^sup>*\<^sup>* (?t ?q3) v" "mr_start v" "mr_result v = None" "mr_producer v = mr_producer s"
      "\<forall>k < unat (cfg_consumers c). mr_consumer v k = Mc_loop \<or> mr_consumer v k = Mc_end"
      "ms_log (mr_q v) = ms_log (mr_q s)" "dequeued ?q3 \<le> dequeued (mr_q v)"
    using consumers_rest [OF mp_run_inv [OF inv run] _ order_refl] R(1,2) by auto
  have len: "length (ms_log (mr_q x)) = enqueued (mr_q x)" if "mpmc_run_inv c f x" for x
    using ms_invE(1) [OF mpmc_run_invD(2) [OF that]] by (simp add: mm_counters_def)
  have "enqueued (mr_q v) = enqueued (mr_q s)"
    using len [OF inv] len [OF mp_run_inv [OF inv rtranclp_trans [OF run v(1)]]] v(6) by simp
  moreover have "dequeued ?q3 = Suc (dequeued (mr_q s))"
    using counter_lengths(2) [OF ms_invE(1) [OF I(2)]] by (simp add: dequeued_def)
  ultimately show ?thesis
    using rtranclp_trans [OF run v(1)] v(2-5,7) some R(3) unfolding mp_resting_def by (intro exI [of _ v]) auto
qed

lemma mp_drain:
  assumes "mpmc_run_inv c f s" "mp_resting c s"
  shows "\<exists>t. (mpmc_run_step c)\<^sup>*\<^sup>* s t \<and> mp_resting c t \<and> dequeued (mr_q t) = enqueued (mr_q t)"
  using assms
proof (induction "enqueued (mr_q s) - dequeued (mr_q s)" arbitrary: s rule: less_induct)
  case less
  have le: "dequeued (mr_q s) \<le> enqueued (mr_q s)"
    using ms_invE(1) [OF mpmc_run_invD(2) [OF less.prems(1)]] by (simp add: mm_counters_def)
  show ?case
  proof (cases "dequeued (mr_q s) = enqueued (mr_q s)")
    case True
    then show ?thesis using less.prems by blast
  next
    case False
    then obtain t where t: "(mpmc_run_step c)\<^sup>*\<^sup>* s t" "mp_resting c t"
        "enqueued (mr_q t) - dequeued (mr_q t) < enqueued (mr_q s) - dequeued (mr_q s)"
      using mp_drain_one [OF less.prems] le by auto
    show ?thesis
      using less.hyps [OF t(3) mp_run_inv [OF less.prems(1) t(1)] t(2)] rtranclp_trans [OF t(1)] by blast
  qed
qed

lemma mp_end_one:
  assumes inv: "mpmc_run_inv c f s" and rest: "mp_resting c s" and none: "dequeued (mr_q s) = enqueued (mr_q s)"
    and k: "k < unat (cfg_consumers c)"
  shows "\<exists>t. (mpmc_run_step c)\<^sup>*\<^sup>* s t \<and> mp_resting c t \<and> dequeued (mr_q t) = enqueued (mr_q t) \<and>
    mr_consumer t = (mr_consumer s)(k := Mc_end)"
proof (cases "mr_consumer s k = Mc_end")
  case True
  then show ?thesis using rest none by (intro exI [of _ s]) (auto simp: fun_upd_idem)
next
  case False
  note I = mpmc_run_invD [OF inv] and R = mp_restingD [OF rest]
  let ?cap = "ucast (cfg_capacity c) :: u64" and ?u = "consumer_tid c k" and ?p = "last (ms_deq (mr_q s))"
  let ?d = "replicate (unat (cfg_payload_size c)) 0 :: byte list"
  have loop: "mr_consumer s k = Mc_loop" using R(4) [OF k] False by simp
  note B = mp_pop_begins [OF inv rest k loop]
  let ?q1 = "(mr_q s)\<lparr>ms_pc := (ms_pc (mr_q s))(?u := Pop_seq ?d ?p)\<rparr>"
  let ?e = "Pop_done (read_res Empty 0 0) ?d"
  let ?q2 = "(mr_q s)\<lparr>ms_pc := (ms_pc (mr_q s))(?u := ?e)\<rparr>"
  let ?q3 = "(mr_q s)\<lparr>ms_pc := (ms_pc (mr_q s))(?u := M_idle)\<rparr>"
  let ?t = "\<lambda>q. s\<lparr>mr_q := q, mr_consumer := (mr_consumer s)(k := Mc_pop)\<rparr>"
  let ?s3 = "s\<lparr>mr_q := ?q3, mr_empty_retries := mr_empty_retries s + 1, mr_consumer := (mr_consumer s)(k := Mc_empty)\<rparr>"
  let ?s4 = "s\<lparr>mr_q := ?q3, mr_empty_retries := mr_empty_retries s + 1, mr_consumer := (mr_consumer s)(k := Mc_end)\<rparr>"
  have "last (ms_seq (mr_q s) ! cell_index ?cap ?p) < ?p + 1" using B(3,5) none by (simp add: word_less_nat_alt)
  then have "mpmc_pop_step ?cap ?u ?q1 ?q2"
    using mpmc_pop_step.pop_empty [of ?q1 ?u ?d ?p _ ?cap] B(4) by simp
  then have 2: "mpmc_consumer_step c k (?t ?q1) (?t ?q2)"
    using mp_pop_goes_on [of c k ?q1 ?q2 s] by simp
  have "mpmc_pop_step ?cap ?u ?q2 ?q3"
    using mpmc_pop_step.pop_return [of ?q2 ?u "read_res Empty 0 0" ?d ?cap] by simp
  then have 3: "mpmc_consumer_step c k (?t ?q2) ?s3"
    using mpmc_consumer_step.mc_result [of "?t ?q2" k c "read_res Empty 0 0" ?d ?q3 0] by (simp add: mpmc_on_pop_def)
  have "{p. p < unat (cfg_producers c) \<and> mr_producer s p \<noteq> Mp_end} = {}" using R(3) by auto
  then have "unat (mr_remaining s) = 0" using I(6) unfolding mp_left_def by simp
  then have "mr_remaining s = 0" by (simp add: word_unat_eq_iff)
  moreover have "mr_pushed s \<le> mr_popped s" using mp_quiet(3) [OF inv R(3,4)] none by simp
  ultimately have 4: "mpmc_consumer_step c k ?s3 ?s4"
    using mpmc_consumer_step.mc_drained [of ?s3 k "mr_popped s" c] by simp
  have "(mpmc_run_step c)\<^sup>*\<^sup>* s ?s4"
    using mp_run_first [OF B(1) mp_run_first [OF mp_run_consumer [OF 2 k] mp_run_first [OF mp_run_consumer [OF 3 k]
          r_into_rtranclp [of "mpmc_run_step c", OF mp_run_consumer [OF 4 k]]]]] .
  moreover have "mp_resting c ?s4" using rest unfolding mp_resting_def by auto
  ultimately show ?thesis using none by (intro exI [of _ ?s4]) simp
qed

lemma mp_end_all:
  assumes inv: "mpmc_run_inv c f s" and rest: "mp_resting c s" and none: "dequeued (mr_q s) = enqueued (mr_q s)"
    and n: "n \<le> unat (cfg_consumers c)"
  shows "\<exists>t. (mpmc_run_step c)\<^sup>*\<^sup>* s t \<and> mp_resting c t \<and> dequeued (mr_q t) = enqueued (mr_q t) \<and>
    (\<forall>k < n. mr_consumer t k = Mc_end)"
  using n
proof (induction n)
  case 0
  then show ?case using rest none by blast
next
  case (Suc n)
  then obtain t where t: "(mpmc_run_step c)\<^sup>*\<^sup>* s t" "mp_resting c t" "dequeued (mr_q t) = enqueued (mr_q t)"
      "\<And>k. k < n \<Longrightarrow> mr_consumer t k = Mc_end"
    by auto
  obtain u where u: "(mpmc_run_step c)\<^sup>*\<^sup>* t u" "mp_resting c u" "dequeued (mr_q u) = enqueued (mr_q u)"
      "mr_consumer u = (mr_consumer t)(n := Mc_end)"
    using mp_end_one [OF mp_run_inv [OF inv t(1)] t(2,3), of n] Suc.prems by auto
  show ?case using rtranclp_trans [OF t(1) u(1)] u(2-4) t(4) by (intro exI [of _ u]) (auto simp: less_Suc_eq)
qed

lemma mp_can_finish:
  assumes inv: "mpmc_run_inv c f s" and s: "mr_result s = None"
  shows "\<exists>t r. (mpmc_run_step c)\<^sup>*\<^sup>* s t \<and> mr_result t = Some r"
proof -
  obtain t where t: "(mpmc_run_step c)\<^sup>*\<^sup>* s t" "mp_resting c t" using mp_can_rest [OF assms] by blast
  obtain u where u: "(mpmc_run_step c)\<^sup>*\<^sup>* t u" "mp_resting c u" "dequeued (mr_q u) = enqueued (mr_q u)"
    using mp_drain [OF mp_run_inv [OF inv t(1)] t(2)] by blast
  note su = rtranclp_trans [OF t(1) u(1)]
  obtain v where v: "(mpmc_run_step c)\<^sup>*\<^sup>* u v" "mp_resting c v" "\<And>k. k < unat (cfg_consumers c) \<Longrightarrow> mr_consumer v k = Mc_end"
    using mp_end_all [OF mp_run_inv [OF inv su] u(2,3) order_refl] by blast
  note R = mp_restingD [OF v(2)]
  have "mpmc_main_step c v (mpmc_finish c v)" by (rule mpmc_main_step.mm_finish [OF R(1,3) v(3) R(2)])
  then have "mpmc_run_step c v (mpmc_finish c v)" unfolding mpmc_run_step_def by blast
  moreover have "\<exists>r. mr_result (mpmc_finish c v) = Some r"
    by (cases "compare_membership ''mpmc'' c (mr_published v) (mr_consumed v) (mr_failures v)") (simp add: mpmc_finish_def Let_def)
  ultimately show ?thesis
    using rtranclp.rtrancl_into_rtrancl [OF rtranclp_trans [OF su v(1)]] by metis
qed

section \<open>The outcome of the run\<close>

lemma mpmc_run_reach:
  assumes "check_config c = None" "mpmc_run_init c f s0" "(mpmc_run_step c)\<^sup>*\<^sup>* s0 s"
  shows "mpmc_run_inv c f s"
  by (rule mp_run_inv [OF mpmc_run_inv_init [OF assms(1,2)] assms(3)])

lemma run_mpmc_outcome:
  assumes "check_config c = None" "run_mpmc c f passed f' printed"
  shows "f' = f \<and> passed = (\<not> fr_failed f)"
proof -
  obtain s0 s where s: "mpmc_run_init c f s0" "(mpmc_run_step c)\<^sup>*\<^sup>* s0 s" "mr_result s = Some (passed, printed)"
      "mr_failures s = f'"
    using assms(2) unfolding run_mpmc_def by blast
  note I = mpmc_run_invD [OF mpmc_run_reach [OF assms(1) s(1,2)]]
  show ?thesis using I(7) I(8) [OF s(3)] s(4) by simp
qed

lemma run_mpmc_possible:
  assumes chk: "check_config c = None" and cap: "mpmc_validate_capacity (ucast (cfg_capacity c)) = Inr (ucast (cfg_capacity c))"
  shows "\<exists>s0 s printed. mpmc_run_init c f s0 \<and> (mpmc_run_step c)\<^sup>*\<^sup>* s0 s \<and>
    mr_result s = Some (\<not> fr_failed f, printed) \<and> mr_failures s = f"
proof -
  obtain q where q: "mpmc_sys_init max_payload_size (ucast (cfg_capacity c)) q" using cap by (auto simp: mpmc_sys_init_def)
  let ?s0 = "\<lparr>mr_q = q, mr_start = False, mr_remaining = cfg_producers c, mr_pushed = 0, mr_popped = 0,
       mr_full_retries = 0, mr_empty_retries = 0, mr_published = membership c, mr_consumed = membership c,
       mr_failures = f, mr_local = (\<lambda>_. 1), mr_last = (\<lambda>_. 0), mr_producer = (\<lambda>_. Mp_wait),
       mr_consumer = (\<lambda>_. Mc_wait), mr_result = None\<rparr>"
  have init: "mpmc_run_init c f ?s0" using q by (simp add: mpmc_run_init_def)
  obtain s r printed where s: "(mpmc_run_step c)\<^sup>*\<^sup>* ?s0 s" "mr_result s = Some (r, printed)"
    using mp_can_finish [OF mpmc_run_inv_init [OF chk init]] by auto
  note I = mpmc_run_invD [OF mpmc_run_reach [OF chk init s(1)]]
  show ?thesis using init s I(7) I(8) [OF s(2)] by blast
qed

section \<open>Properties\<close>

text \<open>
  C29: The MPMC stress run accepts the queue: for every accepted configuration, every schedule of
  its threads, every stale value the relaxed loads may return and every moment of the deadline, no
  failure is ever recorded; in particular the queue sequences each consumer sees increase. As long
  as the run has no result, it can be continued to one: the consumers' exit test is no trap. At the
  end the run reports success (unless a failure was on record before), every message published was
  consumed exactly once, the queue is empty and the totals agree.
\<close>

theorem stress_mpmc_passes:
  assumes "check_config c = None" "mpmc_run_init c f s0" "(mpmc_run_step c)\<^sup>*\<^sup>* s0 s"
  shows "mr_failures s = f \<and>
    (case mr_result s of
       None \<Rightarrow> \<exists>t r. (mpmc_run_step c)\<^sup>*\<^sup>* s t \<and> mr_result t = Some r
     | Some (passed, printed) \<Rightarrow> passed = (\<not> fr_failed f) \<and> mr_published s = mr_consumed s \<and>
         mr_pushed s = mr_popped s \<and> dequeued (mr_q s) = enqueued (mr_q s))"
proof -
  have inv: "mpmc_run_inv c f s" by (rule mpmc_run_reach [OF assms])
  note I = mpmc_run_invD [OF inv]
  have "passed = (\<not> fr_failed f)" "mr_published s = mr_consumed s" "mr_pushed s = mr_popped s"
      "dequeued (mr_q s) = enqueued (mr_q s)"
    if "mr_result s = Some (passed, printed)" for passed printed
    using I(8) [OF that] mp_settled [OF inv] by blast+
  then show ?thesis using I(7) mp_can_finish [OF inv] by (simp split: option.split)
qed

theorem stress_mpmc_passes_witness:
  "\<exists>s0 s printed. check_config default_config = None \<and> mpmc_run_init default_config None s0 \<and>
     (mpmc_run_step default_config)\<^sup>*\<^sup>* s0 s \<and> mr_result s = Some (True, printed) \<and> mr_published s = mr_consumed s"
proof -
  have chk: "check_config default_config = None" by code_simp
  have "mpmc_validate_capacity (ucast (cfg_capacity default_config)) = Inr (ucast (cfg_capacity default_config))"
    by code_simp
  then obtain s0 s printed where s: "mpmc_run_init default_config None s0" "(mpmc_run_step default_config)\<^sup>*\<^sup>* s0 s"
      "mr_result s = Some (\<not> fr_failed None, printed)"
    using run_mpmc_possible [OF chk, of None] by auto
  then show ?thesis using stress_mpmc_passes [OF chk s(1,2)] chk by (fastforce simp: fr_failed_def)
qed

end
