(* ===== verification/Stress_Multicast.thy ===== *)
theory Stress_Multicast
  imports Contracts Stress_Payload
begin

text \<open>
  The multicast stress run (\<open>run_spmc_multicast\<close> of \<open>stress/queue_stress.cpp\<close>), for any queue: the
  template parameter \<open>Queue\<close> is a record of the operations the run calls, each as the steps a thread
  takes in it. \<open>co_publish\<close> is the first step of \<open>try_publish\<close>, \<open>co_writes\<close> every further one, and
  \<open>co_written\<close> the result it is about to return; \<open>co_read\<close>, \<open>co_reads\<close>, \<open>co_got\<close> are the same for
  the \<open>try_read\<close> of consumer \<open>k\<close>. \<open>co_published k v\<close> is a call of \<open>published_sequence\<close> by consumer
  \<open>k\<close> that returns \<open>v\<close>, and \<open>co_acquire k\<close> is what the acquire load of the producer's release store
  to \<open>producer_done\<close> makes visible to it.

  The clock may reach the deadline at any test of it and \<open>yield\<close> has no effect. A load of
  \<open>producer_done\<close> may return false after the store, until it has returned true once. \<open>cr_lagged\<close> is a
  ghost: whether a consumer was ever told that it lagged or was overwritten. The locale
  \<open>cast_service\<close> says what the run relies on; its lemmas are the correctness of the run.
\<close>

section \<open>Definitions\<close>

record 'q cast_ops =
  co_init :: "u64 \<Rightarrow> 'q \<Rightarrow> bool"
  co_register :: "nat \<Rightarrow> 'q \<Rightarrow> 'q \<Rightarrow> bool"
  co_publish :: "byte list \<Rightarrow> 'q \<Rightarrow> 'q \<Rightarrow> bool"
  co_writes :: "'q \<Rightarrow> 'q \<Rightarrow> bool"
  co_written :: "'q \<Rightarrow> write_result option"
  co_write_end :: "'q \<Rightarrow> 'q"
  co_read :: "nat \<Rightarrow> byte list \<Rightarrow> 'q \<Rightarrow> 'q \<Rightarrow> bool"
  co_reads :: "nat \<Rightarrow> 'q \<Rightarrow> 'q \<Rightarrow> bool"
  co_got :: "'q \<Rightarrow> nat \<Rightarrow> (read_result \<times> byte list) option"
  co_read_end :: "nat \<Rightarrow> 'q \<Rightarrow> 'q"
  co_next :: "'q \<Rightarrow> nat \<Rightarrow> u64"
  co_published :: "nat \<Rightarrow> u64 \<Rightarrow> 'q \<Rightarrow> 'q \<Rightarrow> bool"
  co_acquire :: "nat \<Rightarrow> 'q \<Rightarrow> 'q"
  co_final :: "'q \<Rightarrow> u64"

record multicast_metrics =
  mt_reads :: u64
  mt_lag_events :: u64
  mt_last_sequence :: u64
  mt_seen :: "byte list"

subsection \<open>The threads\<close>

datatype cp_pc = Cp_none | Cp_wait | Cp_loop | Cp_publish | Cp_exit | Cp_end

datatype cc_pc = Cc_none | Cc_wait | Cc_loop | Cc_check | Cc_body | Cc_read | Cc_end

record 'q multicast_run =
  cr_q :: 'q
  cr_registered :: nat
  cr_start :: bool
  cr_done :: bool
  cr_sequence :: u64
  cr_producer :: cp_pc
  cr_consumer :: "nat \<Rightarrow> cc_pc"
  cr_saw :: "nat \<Rightarrow> bool"
  cr_metrics :: "nat \<Rightarrow> multicast_metrics"
  cr_lagged :: "nat \<Rightarrow> bool"
  cr_failures :: recorder
  cr_result :: "(bool \<times> string) option"

definition metrics_init :: multicast_metrics where
  "metrics_init = \<lparr>mt_reads = 0, mt_lag_events = 0, mt_last_sequence = 0, mt_seen = []\<rparr>"

definition cast_run_init :: "'q cast_ops \<Rightarrow> config \<Rightarrow> recorder \<Rightarrow> 'q multicast_run \<Rightarrow> bool" where
  "cast_run_init Q c failures s \<longleftrightarrow> co_init Q (ucast (cfg_capacity c)) (cr_q s) \<and>
     s = \<lparr>cr_q = cr_q s, cr_registered = 0, cr_start = False, cr_done = False, cr_sequence = 1,
       cr_producer = Cp_none, cr_consumer = (\<lambda>_. Cc_none), cr_saw = (\<lambda>_. False),
       cr_metrics = (\<lambda>_. metrics_init), cr_lagged = (\<lambda>_. False), cr_failures = failures, cr_result = None\<rparr>"

text \<open>What the producer does with the result of a publication, and a consumer with that of a read.\<close>

definition cast_on_publish :: "string \<Rightarrow> config \<Rightarrow> write_result \<Rightarrow> 'q multicast_run \<Rightarrow> 'q multicast_run" where
  "cast_on_publish label c result s =
     (if wr_status result \<noteq> Success \<or> wr_sequence result \<noteq> cr_sequence s
      then s\<lparr>cr_failures := fr_record (cr_failures s) (failure_of label (cfg_seed c) (cr_sequence s) (cr_sequence s)
               (wr_sequence result) 0 0 ''publication failed or sequence mismatched''),
             cr_producer := Cp_exit\<rparr>
      else s\<lparr>cr_sequence := cr_sequence s + 1, cr_producer := Cp_loop\<rparr>)"

definition cast_on_read ::
    "string \<Rightarrow> config \<Rightarrow> nat \<Rightarrow> read_result \<Rightarrow> byte list \<Rightarrow> 'q multicast_run \<Rightarrow> 'q multicast_run" where
  "cast_on_read label c k result payload s =
     (let m = cr_metrics s k;
          sequence = rr_sequence result;
          s1 = s\<lparr>cr_consumer := (cr_consumer s)(k := Cc_loop)\<rparr>
      in if rr_status result = Success
         then if sequence = 0 \<or> sequence > cfg_iterations c \<or> sequence \<le> mt_last_sequence m
              then s1\<lparr>cr_failures := fr_record (cr_failures s) (failure_of label (cfg_seed c) sequence
                     (mt_last_sequence m + 1) sequence 0 0 ''impossible or non-increasing sequence'')\<rparr>
              else (case validate_payload label c payload 0 sequence sequence sequence (cr_failures s) of
                  (valid, failures) \<Rightarrow>
                    if \<not> valid then s1\<lparr>cr_failures := failures\<rparr>
                    else s1\<lparr>cr_failures := failures, cr_metrics := (cr_metrics s)(k :=
                      m\<lparr>mt_last_sequence := sequence, mt_seen := (mt_seen m)[unat sequence := 1],
                        mt_reads := mt_reads m + 1\<rparr>)\<rparr>)
         else if rr_status result = Consumer_lagged \<or> rr_status result = Overwritten
         then s1\<lparr>cr_metrics := (cr_metrics s)(k := m\<lparr>mt_lag_events := mt_lag_events m + 1\<rparr>),
                 cr_lagged := (cr_lagged s)(k := True)\<rparr>
         else if rr_status result = Empty then s1
         else s1\<lparr>cr_failures := fr_record (cr_failures s) (failure_of label (cfg_seed c) (mt_reads m) 0
                sequence 0 0 ''unexpected consumer status'')\<rparr>)"

inductive cast_producer_step :: "'q cast_ops \<Rightarrow> string \<Rightarrow> config \<Rightarrow> 'q multicast_run \<Rightarrow> 'q multicast_run \<Rightarrow> bool" for Q label c where
  cp_start: "cr_producer s = Cp_wait \<Longrightarrow> cr_start s \<Longrightarrow>
    cast_producer_step Q label c s (s\<lparr>cr_producer := Cp_loop\<rparr>)"
| cp_leave: "cr_producer s = Cp_loop \<Longrightarrow>
    cast_producer_step Q label c s (s\<lparr>cr_producer := Cp_exit\<rparr>)"
| cp_call: "cr_producer s = Cp_loop \<Longrightarrow> cr_sequence s \<le> cfg_iterations c \<Longrightarrow>
    co_publish Q (make_payload c 0 (cr_sequence s) (cr_sequence s)) (cr_q s) q \<Longrightarrow>
    cast_producer_step Q label c s (s\<lparr>cr_q := q, cr_producer := Cp_publish\<rparr>)"
| cp_inside: "cr_producer s = Cp_publish \<Longrightarrow> co_written Q (cr_q s) = None \<Longrightarrow> co_writes Q (cr_q s) q \<Longrightarrow>
    cast_producer_step Q label c s (s\<lparr>cr_q := q\<rparr>)"
| cp_result: "cr_producer s = Cp_publish \<Longrightarrow> co_written Q (cr_q s) = Some r \<Longrightarrow>
    cast_producer_step Q label c s (cast_on_publish label c r (s\<lparr>cr_q := co_write_end Q (cr_q s)\<rparr>))"
| cp_exit: "cr_producer s = Cp_exit \<Longrightarrow>
    cast_producer_step Q label c s (s\<lparr>cr_done := True, cr_producer := Cp_end\<rparr>)"

inductive cast_consumer_step ::
    "'q cast_ops \<Rightarrow> string \<Rightarrow> config \<Rightarrow> nat \<Rightarrow> 'q multicast_run \<Rightarrow> 'q multicast_run \<Rightarrow> bool" for Q label c k where
  cc_start: "cr_consumer s k = Cc_wait \<Longrightarrow> cr_start s \<Longrightarrow>
    cast_consumer_step Q label c k s (s\<lparr>cr_consumer := (cr_consumer s)(k := Cc_loop)\<rparr>)"
| cc_running: "cr_consumer s k = Cc_loop \<Longrightarrow> \<not> cr_saw s k \<Longrightarrow>
    cast_consumer_step Q label c k s (s\<lparr>cr_consumer := (cr_consumer s)(k := Cc_body)\<rparr>)"
| cc_done: "cr_consumer s k = Cc_loop \<Longrightarrow> cr_done s \<Longrightarrow>
    cast_consumer_step Q label c k s
      (s\<lparr>cr_q := co_acquire Q k (cr_q s), cr_saw := (cr_saw s)(k := True),
         cr_consumer := (cr_consumer s)(k := Cc_check)\<rparr>)"
| cc_more: "cr_consumer s k = Cc_check \<Longrightarrow> co_published Q k v (cr_q s) q \<Longrightarrow> co_next Q (cr_q s) k \<le> v \<Longrightarrow>
    cast_consumer_step Q label c k s (s\<lparr>cr_q := q, cr_consumer := (cr_consumer s)(k := Cc_body)\<rparr>)"
| cc_stop: "cr_consumer s k = Cc_check \<Longrightarrow> co_published Q k v (cr_q s) q \<Longrightarrow> v < co_next Q (cr_q s) k \<Longrightarrow>
    cast_consumer_step Q label c k s (s\<lparr>cr_q := q, cr_consumer := (cr_consumer s)(k := Cc_end)\<rparr>)"
| cc_call: "cr_consumer s k = Cc_body \<Longrightarrow>
    co_read Q k (replicate (unat (cfg_payload_size c)) 0) (cr_q s) q \<Longrightarrow>
    cast_consumer_step Q label c k s (s\<lparr>cr_q := q, cr_consumer := (cr_consumer s)(k := Cc_read)\<rparr>)"
| cc_inside: "cr_consumer s k = Cc_read \<Longrightarrow> co_got Q (cr_q s) k = None \<Longrightarrow> co_reads Q k (cr_q s) q \<Longrightarrow>
    cast_consumer_step Q label c k s (s\<lparr>cr_q := q\<rparr>)"
| cc_result: "cr_consumer s k = Cc_read \<Longrightarrow> co_got Q (cr_q s) k = Some (r, payload) \<Longrightarrow>
    cast_consumer_step Q label c k s (cast_on_read label c k r payload (s\<lparr>cr_q := co_read_end Q k (cr_q s)\<rparr>))"

subsection \<open>The run\<close>

definition cast_unique :: "config \<Rightarrow> u64 \<Rightarrow> (nat \<Rightarrow> multicast_metrics) \<Rightarrow> u64" where
  "cast_unique c published metrics =
     fold (\<lambda>sequence unique. unique +
         (if \<exists>k < unat (cfg_consumers c). mt_seen (metrics k) ! sequence \<noteq> 0 then 1 else 0))
       [1..<Suc (unat published)] 0"

definition cast_report :: "string \<Rightarrow> config \<Rightarrow> u64 \<Rightarrow> 'q multicast_run \<Rightarrow> string" where
  "cast_report label c published s =
     (let consumers = [0..<unat (cfg_consumers c)];
          aggregate_reads = fold (\<lambda>k n. n + mt_reads (cr_metrics s k)) consumers 0;
          lag_events = fold (\<lambda>k n. n + mt_lag_events (cr_metrics s k)) consumers 0
      in ''stress_result queue='' @ label @ '' seed='' @ dec (unat (cfg_seed c)) @
         '' published='' @ dec (unat published) @ '' aggregate_reads='' @ dec (unat aggregate_reads) @
         '' unique_verified='' @ dec (unat (cast_unique c published (cr_metrics s))) @
         '' lag_events='' @ dec (unat lag_events) @
         '' validation_failures='' @ dec (if fr_failed (cr_failures s) then 1 else 0) @ [CHR 0x0A])"

inductive cast_main_step :: "'q cast_ops \<Rightarrow> string \<Rightarrow> config \<Rightarrow> 'q multicast_run \<Rightarrow> 'q multicast_run \<Rightarrow> bool" for Q label c where
  cm_register: "cr_registered s = k \<Longrightarrow> k < unat (cfg_consumers c) \<Longrightarrow> co_register Q k (cr_q s) q \<Longrightarrow>
    cast_main_step Q label c s
      (s\<lparr>cr_q := q, cr_registered := Suc k,
         cr_metrics := (cr_metrics s)(k := (cr_metrics s k)\<lparr>mt_seen := replicate (unat (cfg_iterations c + 1)) 0\<rparr>),
         cr_consumer := (cr_consumer s)(k := Cc_wait)\<rparr>)"
| cm_producer: "cr_registered s = unat (cfg_consumers c) \<Longrightarrow> cr_producer s = Cp_none \<Longrightarrow>
    cast_main_step Q label c s (s\<lparr>cr_producer := Cp_wait\<rparr>)"
| cm_start: "cr_producer s \<noteq> Cp_none \<Longrightarrow> \<not> cr_start s \<Longrightarrow>
    cast_main_step Q label c s (s\<lparr>cr_start := True\<rparr>)"
| cm_finish: "cr_start s \<Longrightarrow> cr_producer s = Cp_end \<Longrightarrow>
    (\<And>k. k < unat (cfg_consumers c) \<Longrightarrow> cr_consumer s k = Cc_end) \<Longrightarrow> cr_result s = None \<Longrightarrow>
    cast_main_step Q label c s
      (s\<lparr>cr_result := Some (\<not> fr_failed (cr_failures s), cast_report label c (co_final Q (cr_q s)) s)\<rparr>)"

definition cast_run_step :: "'q cast_ops \<Rightarrow> string \<Rightarrow> config \<Rightarrow> 'q multicast_run \<Rightarrow> 'q multicast_run \<Rightarrow> bool" where
  "cast_run_step Q label c s t \<longleftrightarrow> cast_producer_step Q label c s t \<or>
     (\<exists>k < unat (cfg_consumers c). cast_consumer_step Q label c k s t) \<or> cast_main_step Q label c s t"

definition run_spmc_multicast ::
    "'q cast_ops \<Rightarrow> string \<Rightarrow> config \<Rightarrow> recorder \<Rightarrow> bool \<Rightarrow> recorder \<Rightarrow> string \<Rightarrow> bool" where
  "run_spmc_multicast Q label c failures passed failures' printed \<longleftrightarrow>
     (\<exists>s0 s. cast_run_init Q c failures s0 \<and> (cast_run_step Q label c)\<^sup>*\<^sup>* s0 s \<and>
        cr_result s = Some (passed, printed) \<and> cr_failures s = failures')"

subsection \<open>The contract of the queue\<close>

text \<open>
  How the run sees a consumer of the queue, and what a read may return: the history \<open>log\<close>, the
  cursor before and the destination determine the result and the cursor after.
\<close>

datatype read_mode = Unregistered | Ready | Reading "byte list"

definition read_outcome :: "byte list list \<Rightarrow> u64 \<Rightarrow> byte list \<Rightarrow> read_result \<Rightarrow> byte list \<Rightarrow> u64 \<Rightarrow> bool" where
  "read_outcome log n dest res d n' \<longleftrightarrow> unat n' \<le> Suc (length log) \<and>
     (case rr_status res of
        Success \<Rightarrow> 0 < unat n \<and> unat n \<le> length log \<and> rr_sequence res = n \<and> n' = n + 1 \<and>
          d = copy_n (length (log ! (unat n - 1))) (log ! (unat n - 1)) dest
      | Empty \<Rightarrow> n' = n
      | Consumer_lagged \<Rightarrow> n \<le> n'
      | Overwritten \<Rightarrow> n \<le> n'
      | Message_too_large \<Rightarrow> 0 < unat n \<and> unat n \<le> length log \<and> length dest < length (log ! (unat n - 1))
      | _ \<Rightarrow> False)"

record 'q cast_view =
  cv_log :: "'q \<Rightarrow> byte list list"
  cv_idle :: "'q \<Rightarrow> bool"
  cv_mode :: "'q \<Rightarrow> nat \<Rightarrow> read_mode"
  cv_current :: "'q \<Rightarrow> nat \<Rightarrow> bool"

text \<open>Nothing but consumer \<open>k\<close> changes; nothing of any consumer changes.\<close>

definition read_frame :: "'q cast_ops \<Rightarrow> 'q cast_view \<Rightarrow> nat \<Rightarrow> 'q \<Rightarrow> 'q \<Rightarrow> bool" where
  "read_frame Q V k q q' \<longleftrightarrow> cv_log V q' = cv_log V q \<and> cv_idle V q' = cv_idle V q \<and>
     (\<forall>j. j \<noteq> k \<longrightarrow> cv_mode V q' j = cv_mode V q j \<and> co_next Q q' j = co_next Q q j \<and> co_got Q q' j = co_got Q q j) \<and>
     (\<forall>j. cv_current V q j \<longrightarrow> cv_current V q' j)"

definition write_frame :: "'q cast_ops \<Rightarrow> 'q cast_view \<Rightarrow> 'q \<Rightarrow> 'q \<Rightarrow> bool" where
  "write_frame Q V q q' \<longleftrightarrow> cv_mode V q' = cv_mode V q \<and> co_next Q q' = co_next Q q \<and> co_got Q q' = co_got Q q"

text \<open>A read by consumer \<open>k\<close> into \<open>dest\<close> goes on, or has its result.\<close>

definition read_moves :: "'q cast_ops \<Rightarrow> 'q cast_view \<Rightarrow> nat \<Rightarrow> byte list \<Rightarrow> 'q \<Rightarrow> 'q \<Rightarrow> bool" where
  "read_moves Q V k dest q q' \<longleftrightarrow> read_frame Q V k q q' \<and> cv_mode V q' k = Reading dest \<and>
     (case co_got Q q' k of
        None \<Rightarrow> co_next Q q' k = co_next Q q k
      | Some (res, d) \<Rightarrow> read_outcome (cv_log V q) (co_next Q q k) dest res d (co_next Q q' k))"

locale cast_service =
  fixes Q :: "'q cast_ops" and V :: "'q cast_view" and qinv :: "'q \<Rightarrow> bool" and N :: nat
  assumes make: "co_init Q cap q \<Longrightarrow> qinv q \<and> cv_log V q = [] \<and> cv_idle V q \<and> (\<forall>k. cv_mode V q k = Unregistered)"
    and register: "qinv q \<Longrightarrow> cv_log V q = [] \<Longrightarrow> cv_mode V q k = Unregistered \<Longrightarrow> co_register Q k q q' \<Longrightarrow>
      qinv q' \<and> read_frame Q V k q q' \<and> cv_mode V q' k = Ready \<and> co_next Q q' k = 1"
    and publish: "qinv q \<Longrightarrow> cv_idle V q \<Longrightarrow> length x \<le> N \<Longrightarrow> Suc (length (cv_log V q)) < 2 ^ 63 \<Longrightarrow> co_publish Q x q q' \<Longrightarrow>
      qinv q' \<and> write_frame Q V q q' \<and> cv_log V q' = cv_log V q @ [x] \<and> \<not> cv_idle V q'"
    and writes: "qinv q \<Longrightarrow> \<not> cv_idle V q \<Longrightarrow> co_written Q q = None \<Longrightarrow> co_writes Q q q' \<Longrightarrow>
      qinv q' \<and> write_frame Q V q q' \<and> cv_log V q' = cv_log V q \<and> \<not> cv_idle V q'"
    and written: "qinv q \<Longrightarrow> \<not> cv_idle V q \<Longrightarrow> co_written Q q = Some r \<Longrightarrow> r = write_res Success (of_nat (length (cv_log V q)))"
    and write_end: "qinv q \<Longrightarrow> co_written Q q = Some r \<Longrightarrow> qinv (co_write_end Q q) \<and> write_frame Q V q (co_write_end Q q) \<and>
      cv_log V (co_write_end Q q) = cv_log V q \<and> cv_idle V (co_write_end Q q)"
    and ready: "qinv q \<Longrightarrow> cv_mode V q k = Ready \<Longrightarrow> co_got Q q k = None"
    and read: "qinv q \<Longrightarrow> cv_mode V q k = Ready \<Longrightarrow> co_read Q k dest q q' \<Longrightarrow> qinv q' \<and> read_moves Q V k dest q q'"
    and reads: "qinv q \<Longrightarrow> cv_mode V q k = Reading dest \<Longrightarrow> co_got Q q k = None \<Longrightarrow> co_reads Q k q q' \<Longrightarrow>
      qinv q' \<and> read_moves Q V k dest q q'"
    and read_end: "qinv q \<Longrightarrow> co_got Q q k = Some rd \<Longrightarrow> cv_mode V q k = Reading dest \<Longrightarrow>
      qinv (co_read_end Q k q) \<and> read_frame Q V k q (co_read_end Q k q) \<and> cv_mode V (co_read_end Q k q) k = Ready \<and>
      co_next Q (co_read_end Q k q) k = co_next Q q k"
    and published: "qinv q \<Longrightarrow> cv_mode V q k = Ready \<Longrightarrow> co_published Q k v q q' \<Longrightarrow>
      qinv q' \<and> read_frame Q V k q q' \<and> cv_mode V q' k = Ready \<and> co_next Q q' k = co_next Q q k \<and>
      (cv_idle V q \<and> cv_current V q k \<longrightarrow> v = of_nat (length (cv_log V q)))"
    and acquire: "qinv q \<Longrightarrow> cv_mode V q k = Ready \<Longrightarrow> qinv (co_acquire Q k q) \<and> read_frame Q V k q (co_acquire Q k q) \<and>
      cv_mode V (co_acquire Q k q) k = Ready \<and> co_next Q (co_acquire Q k q) k = co_next Q q k \<and>
      (cv_idle V q \<longrightarrow> cv_current V (co_acquire Q k q) k)"
    and final: "qinv q \<Longrightarrow> cv_idle V q \<Longrightarrow> co_final Q q = of_nat (length (cv_log V q))"

subsection \<open>Invariant\<close>

definition cast_log :: "config \<Rightarrow> nat \<Rightarrow> byte list list" where
  "cast_log c n = map (\<lambda>i. make_payload c 0 (of_nat i) (of_nat i)) [1..<Suc n]"

text \<open>The read in progress or finished of a consumer with these metrics, and its cursor.\<close>

definition metrics_ok ::
    "config \<Rightarrow> byte list list \<Rightarrow> multicast_metrics \<Rightarrow> bool \<Rightarrow> u64 \<Rightarrow> (read_result \<times> byte list) option \<Rightarrow> bool" where
  "metrics_ok c log m lagged n got \<longleftrightarrow> length (mt_seen m) = Suc (unat (cfg_iterations c)) \<and> mt_last_sequence m < n \<and>
     unat n \<le> Suc (length log) \<and>
     (\<not> lagged \<longrightarrow> mt_reads m = mt_last_sequence m \<and> mt_lag_events m = 0 \<and>
        (\<forall>i. 0 < i \<and> i \<le> unat (mt_last_sequence m) \<longrightarrow> mt_seen m ! i = 1)) \<and>
     (case got of
        None \<Rightarrow> \<not> lagged \<longrightarrow> n = mt_last_sequence m + 1
      | Some (res, d) \<Rightarrow>
          (case rr_status res of
             Success \<Rightarrow> 0 < unat (rr_sequence res) \<and> unat (rr_sequence res) \<le> length log \<and>
               mt_last_sequence m < rr_sequence res \<and> n = rr_sequence res + 1 \<and>
               d = log ! (unat (rr_sequence res) - 1) \<and>
               (\<not> lagged \<longrightarrow> rr_sequence res = mt_last_sequence m + 1)
           | Empty \<Rightarrow> \<not> lagged \<longrightarrow> n = mt_last_sequence m + 1
           | Consumer_lagged \<Rightarrow> True
           | Overwritten \<Rightarrow> True
           | _ \<Rightarrow> False))"

definition cast_producer_ok :: "'q cast_view \<Rightarrow> config \<Rightarrow> 'q multicast_run \<Rightarrow> bool" where
  "cast_producer_ok V c s \<longleftrightarrow>
     (let log = cv_log V (cr_q s); idle = cv_idle V (cr_q s) in
      log = cast_log c (length log) \<and> length log \<le> unat (cfg_iterations c) \<and> (cr_done s \<longleftrightarrow> cr_producer s = Cp_end) \<and>
      (case cr_producer s of
         Cp_none \<Rightarrow> log = [] \<and> idle \<and> cr_sequence s = 1
       | Cp_wait \<Rightarrow> log = [] \<and> idle \<and> cr_sequence s = 1
       | Cp_loop \<Rightarrow> idle \<and> cr_sequence s = of_nat (Suc (length log))
       | Cp_publish \<Rightarrow> \<not> idle \<and> cr_sequence s = of_nat (length log)
       | _ \<Rightarrow> idle))"

definition cast_phases :: "config \<Rightarrow> 'q multicast_run \<Rightarrow> bool" where
  "cast_phases c s \<longleftrightarrow> cr_registered s \<le> unat (cfg_consumers c) \<and>
     (cr_producer s \<noteq> Cp_none \<longrightarrow> cr_registered s = unat (cfg_consumers c)) \<and>
     (cr_start s \<longrightarrow> cr_producer s \<noteq> Cp_none)"

definition cast_consumer_ok :: "'q cast_ops \<Rightarrow> 'q cast_view \<Rightarrow> config \<Rightarrow> 'q multicast_run \<Rightarrow> nat \<Rightarrow> bool" where
  "cast_consumer_ok Q V c s k \<longleftrightarrow>
     (let q = cr_q s; pc = cr_consumer s k in
      if cr_registered s \<le> k
      then pc = Cc_none \<and> cv_mode V q k = Unregistered \<and> \<not> cr_saw s k \<and> \<not> cr_lagged s k \<and> cr_metrics s k = metrics_init
      else pc \<noteq> Cc_none \<and>
        cv_mode V q k = (if pc = Cc_read then Reading (replicate (unat (cfg_payload_size c)) 0) else Ready) \<and>
        metrics_ok c (cv_log V q) (cr_metrics s k) (cr_lagged s k) (co_next Q q k) (co_got Q q k) \<and>
        (cr_saw s k \<longrightarrow> cr_done s \<and> cv_current V q k) \<and> (pc = Cc_check \<or> pc = Cc_end \<longrightarrow> cr_saw s k) \<and>
        (pc = Cc_end \<longrightarrow> unat (co_next Q q k) = Suc (length (cv_log V q))))"

definition cast_run_inv ::
    "'q cast_ops \<Rightarrow> 'q cast_view \<Rightarrow> ('q \<Rightarrow> bool) \<Rightarrow> config \<Rightarrow> recorder \<Rightarrow> 'q multicast_run \<Rightarrow> bool" where
  "cast_run_inv Q V qinv c f s \<longleftrightarrow> check_config c = None \<and> qinv (cr_q s) \<and> cast_producer_ok V c s \<and> cast_phases c s \<and>
     (\<forall>k. cast_consumer_ok Q V c s k) \<and> cr_failures s = f \<and>
     (\<forall>r printed. cr_result s = Some (r, printed) \<longrightarrow> r = (\<not> fr_failed f) \<and> cr_producer s = Cp_end \<and>
        (\<forall>k < unat (cfg_consumers c). cr_consumer s k = Cc_end))"

section \<open>Payloads and metrics\<close>

lemma cast_run_invD:
  assumes "cast_run_inv Q V qinv c f s"
  shows "check_config c = None" "qinv (cr_q s)" "cast_producer_ok V c s" "cast_phases c s" "cast_consumer_ok Q V c s k"
    "cr_failures s = f"
    "cr_result s = Some (r, printed) \<Longrightarrow> r = (\<not> fr_failed f) \<and> cr_producer s = Cp_end \<and>
        (\<forall>k < unat (cfg_consumers c). cr_consumer s k = Cc_end)"
  using assms unfolding cast_run_inv_def by blast+

lemma length_cast_log [simp]: "length (cast_log c n) = n"
  by (simp add: cast_log_def)

lemma cast_log_nth: "i < n \<Longrightarrow> cast_log c n ! i = make_payload c 0 (of_nat (Suc i)) (of_nat (Suc i))"
  by (simp add: cast_log_def del: upt_Suc of_nat_Suc)

lemma cast_log_Suc: "cast_log c (Suc n) = cast_log c n @ [make_payload c 0 (of_nat (Suc n)) (of_nat (Suc n))]"
  by (simp add: cast_log_def del: of_nat_Suc)

lemma cast_log_payload:
  "check_config c = None \<Longrightarrow> x \<in> set (cast_log c n) \<Longrightarrow> length x = unat (cfg_payload_size c)"
  using length_make_payload [OF checked_bounds(7)] by (auto simp: cast_log_def simp del: upt_Suc)

lemma metrics_ok_append:
  assumes "metrics_ok c log m lagged n got"
  shows "metrics_ok c (log @ xs) m lagged n got"
proof (cases got)
  case None
  then show ?thesis using assms by (auto simp: metrics_ok_def)
next
  case (Some rd)
  have "(log @ xs) ! (unat v - 1) = log ! (unat v - 1)" if "0 < unat v" "unat v \<le> length log" for v :: u64
    using that by (intro nth_append_left) simp
  then show ?thesis using assms Some by (auto simp: metrics_ok_def split: queue_status.splits prod.splits)
qed

text \<open>A read turns a cursor with no result into one with a result, for messages that fit.\<close>

lemma metrics_read:
  assumes ok: "metrics_ok c log m lagged n None" and out: "read_outcome log n dest res d n'"
    and fit: "\<And>x. x \<in> set log \<Longrightarrow> length x = length dest" and life: "length log < 2 ^ 63"
  shows "metrics_ok c log m lagged n' (Some (res, d))"
proof -
  have n: "mt_last_sequence m < n" "unat n \<le> Suc (length log)" "\<not> lagged \<Longrightarrow> n = mt_last_sequence m + 1"
      "unat n' \<le> Suc (length log)"
    using ok out by (auto simp: metrics_ok_def read_outcome_def)
  have up: "n < n + 1" using n(2) life unat_Suc_word [of n] by (simp add: word_less_nat_alt)
  have copy: "copy_n (length (log ! i)) (log ! i) dest = log ! i" if "i < length log" for i
    using fit [of "log ! i"] that by (simp add: copy_n_def)
  show ?thesis
  proof (cases "rr_status res")
    case Success
    then have r: "0 < unat n" "unat n \<le> length log" "rr_sequence res = n" "n' = n + 1"
        "d = copy_n (length (log ! (unat n - 1))) (log ! (unat n - 1)) dest"
      using out by (simp_all add: read_outcome_def)
    have "d = log ! (unat n - 1)" using r(1,2,5) copy by simp
    moreover have "mt_last_sequence m < n'" using n(1) up r(4) by (simp add: less_trans [OF n(1)])
    ultimately show ?thesis using ok n r Success by (simp add: metrics_ok_def)
  next
    case Message_too_large
    then have "0 < unat n" "unat n \<le> length log" "length dest < length (log ! (unat n - 1))"
      using out by (simp_all add: read_outcome_def)
    then show ?thesis using fit [of "log ! (unat n - 1)"] by simp
  next
    case Empty
    then show ?thesis using ok out by (simp add: metrics_ok_def read_outcome_def)
  next
    case Consumer_lagged
    then show ?thesis using ok out n by (auto simp: metrics_ok_def read_outcome_def)
  next
    case Overwritten
    then show ?thesis using ok out n by (auto simp: metrics_ok_def read_outcome_def)
  qed (use out in \<open>simp_all add: read_outcome_def\<close>)
qed

text \<open>Processing a result records nothing and keeps the metrics.\<close>

lemma cast_on_read_ok:
  fixes s :: "'q multicast_run" and label :: string
  assumes chk: "check_config c = None" and log: "log = cast_log c (length log)" "length log \<le> unat (cfg_iterations c)"
    and ok: "metrics_ok c log (cr_metrics s k) (cr_lagged s k) n (Some (res, d))"
  defines "t \<equiv> cast_on_read label c k res d s"
  shows "cr_failures t = cr_failures s" "metrics_ok c log (cr_metrics t k) (cr_lagged t k) n None"
    "cr_consumer t = (cr_consumer s)(k := Cc_loop)" "j \<noteq> k \<Longrightarrow> cr_metrics t j = cr_metrics s j"
    "j \<noteq> k \<Longrightarrow> cr_lagged t j = cr_lagged s j" "cr_q t = cr_q s" "cr_registered t = cr_registered s" "cr_start t = cr_start s"
    "cr_done t = cr_done s" "cr_sequence t = cr_sequence s" "cr_producer t = cr_producer s" "cr_saw t = cr_saw s"
    "cr_result t = cr_result s"
proof -
  let ?m = "cr_metrics s k" and ?sq = "rr_sequence res"
  show "cr_consumer t = (cr_consumer s)(k := Cc_loop)" "j \<noteq> k \<Longrightarrow> cr_metrics t j = cr_metrics s j"
    "j \<noteq> k \<Longrightarrow> cr_lagged t j = cr_lagged s j" "cr_q t = cr_q s" "cr_registered t = cr_registered s" "cr_start t = cr_start s"
    "cr_done t = cr_done s" "cr_sequence t = cr_sequence s" "cr_producer t = cr_producer s" "cr_saw t = cr_saw s"
    "cr_result t = cr_result s"
    by (auto simp: t_def cast_on_read_def Let_def split: prod.split)
  have "cr_failures t = cr_failures s \<and> metrics_ok c log (cr_metrics t k) (cr_lagged t k) n None"
  proof (cases "rr_status res")
    case Success
    then have r: "0 < unat ?sq" "unat ?sq \<le> length log" "mt_last_sequence ?m < ?sq" "n = ?sq + 1" "d = log ! (unat ?sq - 1)"
        "\<not> cr_lagged s k \<Longrightarrow> ?sq = mt_last_sequence ?m + 1"
      using ok by (simp_all add: metrics_ok_def)
    have len: "length (mt_seen ?m) = Suc (unat (cfg_iterations c))" using ok by (simp add: metrics_ok_def)
    have "d = cast_log c (length log) ! (unat ?sq - 1)" using r(5) log(1) by simp
    also have "\<dots> = make_payload c 0 ?sq ?sq" using r(1,2) by (simp add: cast_log_nth)
    finally have d: "d = make_payload c 0 ?sq ?sq" .
    have guard: "\<not> (?sq = 0 \<or> cfg_iterations c < ?sq \<or> ?sq \<le> mt_last_sequence ?m)"
      using r(1-3) log(2) by (auto simp: word_less_nat_alt word_le_nat_alt)
    have t: "t = s\<lparr>cr_consumer := (cr_consumer s)(k := Cc_loop), cr_metrics := (cr_metrics s)(k :=
        ?m\<lparr>mt_last_sequence := ?sq, mt_seen := (mt_seen ?m)[unat ?sq := 1], mt_reads := mt_reads ?m + 1\<rparr>)\<rparr>"
      using Success guard by (simp add: t_def cast_on_read_def Let_def d)
    have small: "unat (cfg_iterations c) \<le> 10000000" by (rule checked_bounds(2) [OF chk])
    then have up: "unat (?sq + 1) = Suc (unat ?sq)" using r(2) log(2) unat_Suc_word [of ?sq] by simp
    have "(mt_seen ?m)[unat ?sq := 1] ! i = 1" if "\<not> cr_lagged s k" "0 < i" "i \<le> unat ?sq" for i
    proof (cases "i = unat ?sq")
      case True
      then show ?thesis using r(2) log(2) len by simp
    next
      case False
      have "unat (mt_last_sequence ?m) < unat ?sq" using r(3) by (simp add: word_less_nat_alt)
      then have "unat ?sq = Suc (unat (mt_last_sequence ?m))"
        using r(2) log(2) small unat_Suc_word [of "mt_last_sequence ?m"] unfolding r(6) [OF that(1)] by simp
      then have "i \<le> unat (mt_last_sequence ?m)" using False that(3) by simp
      then show ?thesis using ok that(1,2) False by (simp add: metrics_ok_def)
    qed
    then show ?thesis
      using ok r t up len by (auto simp: metrics_ok_def word_less_nat_alt)
  qed (use ok in \<open>auto simp: metrics_ok_def t_def cast_on_read_def Let_def\<close>)
  then show "cr_failures t = cr_failures s" "metrics_ok c log (cr_metrics t k) (cr_lagged t k) n None" by blast+
qed

section \<open>Steps keep the invariant\<close>

lemma consumer_ok_registered:
  assumes "cast_consumer_ok Q V c s k" "cr_consumer s k \<noteq> Cc_none"
  shows "k < cr_registered s"
    "cv_mode V (cr_q s) k = (if cr_consumer s k = Cc_read then Reading (replicate (unat (cfg_payload_size c)) 0) else Ready)"
    "metrics_ok c (cv_log V (cr_q s)) (cr_metrics s k) (cr_lagged s k) (co_next Q (cr_q s) k) (co_got Q (cr_q s) k)"
    "cr_saw s k \<Longrightarrow> cr_done s \<and> cv_current V (cr_q s) k" "cr_consumer s k = Cc_check \<Longrightarrow> cr_saw s k"
  using assms by (auto simp: cast_consumer_ok_def Let_def split: if_splits)

lemma consumer_ok_other:
  assumes "cast_consumer_ok Q V c s j" "read_frame Q V k (cr_q s) (cr_q t)" "j \<noteq> k"
    and "cr_consumer t j = cr_consumer s j" "cr_saw t j = cr_saw s j" "cr_metrics t j = cr_metrics s j" "cr_lagged t j = cr_lagged s j"
    and "cr_done t = cr_done s" "cr_registered t \<le> j \<longleftrightarrow> cr_registered s \<le> j"
  shows "cast_consumer_ok Q V c t j"
  using assms unfolding cast_consumer_ok_def read_frame_def Let_def by (auto split: if_splits)

lemma producer_ok_same:
  assumes "cast_producer_ok V c s" "cv_log V (cr_q t) = cv_log V (cr_q s)" "cv_idle V (cr_q t) = cv_idle V (cr_q s)"
    and "cr_producer t = cr_producer s" "cr_done t = cr_done s" "cr_sequence t = cr_sequence s"
  shows "cast_producer_ok V c t"
  using assms(1) unfolding cast_producer_ok_def assms(2-6) .

lemma cast_consumer_inv:
  assumes I: "cast_run_inv Q V qinv c f s" and k: "k < unat (cfg_consumers c)" "cr_consumer s k \<noteq> Cc_end"
    and q: "qinv (cr_q t)" "read_frame Q V k (cr_q s) (cr_q t)"
    and t: "cr_registered t = cr_registered s" "cr_start t = cr_start s" "cr_done t = cr_done s" "cr_sequence t = cr_sequence s"
      "cr_producer t = cr_producer s" "cr_failures t = cr_failures s" "cr_result t = cr_result s"
    and other: "\<And>j. j \<noteq> k \<Longrightarrow> cr_consumer t j = cr_consumer s j \<and> cr_saw t j = cr_saw s j \<and>
      cr_metrics t j = cr_metrics s j \<and> cr_lagged t j = cr_lagged s j"
    and self: "cast_consumer_ok Q V c t k"
  shows "cast_run_inv Q V qinv c f t"
proof -
  note D = cast_run_invD [OF I]
  have "cast_consumer_ok Q V c t j" for j
  proof (cases "j = k")
    case False
    then show ?thesis using consumer_ok_other [OF D(5) q(2) False] other [OF False] t(1,3) by simp
  qed (use self in simp)
  moreover have "cast_producer_ok V c t" using q(2) t by (intro producer_ok_same [OF D(3)]) (simp_all add: read_frame_def)
  moreover have "cr_result s \<noteq> Some (r, printed)" for r printed using D(7) k by blast
  ultimately show ?thesis using D(1,4,6) q(1) t unfolding cast_run_inv_def cast_phases_def by auto
qed

lemma cast_producer_inv:
  assumes I: "cast_run_inv Q V qinv c f s" and pc: "cr_producer s \<noteq> Cp_end"
    and q: "qinv (cr_q t)" "write_frame Q V (cr_q s) (cr_q t)" "cv_log V (cr_q t) = cv_log V (cr_q s) @ xs"
    and t: "cr_registered t = cr_registered s" "cr_start t = cr_start s" "cr_consumer t = cr_consumer s" "cr_saw t = cr_saw s"
      "cr_metrics t = cr_metrics s" "cr_lagged t = cr_lagged s" "cr_failures t = cr_failures s" "cr_result t = cr_result s"
      "cr_producer t = Cp_none \<longleftrightarrow> cr_producer s = Cp_none"
    and self: "cast_producer_ok V c t"
  shows "cast_run_inv Q V qinv c f t"
proof -
  note D = cast_run_invD [OF I]
  have "\<not> cr_done s" using D(3) pc by (simp add: cast_producer_ok_def Let_def)
  then have saw: "\<not> cr_saw s j" "cr_consumer s j \<noteq> Cc_end" for j
    using D(5) [of j] by (auto simp: cast_consumer_ok_def Let_def split: if_splits)
  have "cast_consumer_ok Q V c t j" for j
    using D(5) [of j] q(2) saw [of j] metrics_ok_append [of c "cv_log V (cr_q s)" _ _ _ _ xs]
    unfolding cast_consumer_ok_def write_frame_def q(3) t(1-6) Let_def by (simp split: if_splits)
  moreover have "cr_result s \<noteq> Some (r, printed)" for r printed using D(7) pc by blast
  ultimately show ?thesis using D(1,4,6) q(1) self t unfolding cast_run_inv_def cast_phases_def by auto
qed

context cast_service
begin

lemma producer_step_inv:
  assumes I: "cast_run_inv Q V qinv c f s" and N: "unat (cfg_payload_size c) \<le> N"
    and step: "cast_producer_step Q label c s t"
  shows "cast_run_inv Q V qinv c f t"
proof -
  note D = cast_run_invD [OF I]
  let ?log = "cv_log V (cr_q s)"
  have P: "?log = cast_log c (length ?log)" "length ?log \<le> unat (cfg_iterations c)" "cr_done s \<longleftrightarrow> cr_producer s = Cp_end"
    using D(3) by (simp_all add: cast_producer_ok_def Let_def)
  have small: "unat (cfg_iterations c) \<le> 10000000" by (rule checked_bounds(2) [OF D(1)])
  from step show ?thesis
  proof cases
    case cp_start
    then show ?thesis using D(2,3) by (intro cast_producer_inv [OF I, where xs = "[]"])
        (auto simp: write_frame_def cast_producer_ok_def Let_def)
  next
    case cp_leave
    then show ?thesis using D(2,3) by (intro cast_producer_inv [OF I, where xs = "[]"])
        (auto simp: write_frame_def cast_producer_ok_def Let_def)
  next
    case (cp_call q)
    let ?x = "make_payload c 0 (cr_sequence s) (cr_sequence s)"
    have idle: "cv_idle V (cr_q s)" and sq: "cr_sequence s = of_nat (Suc (length ?log))"
      using D(3) cp_call(2) by (simp_all add: cast_producer_ok_def Let_def)
    have "unat (cr_sequence s) = Suc (length ?log)" unfolding sq using P(2) small by (intro unat_of_nat_64) simp
    then have le: "Suc (length ?log) \<le> unat (cfg_iterations c)" using cp_call(3) by (simp add: word_le_nat_alt)
    have "length ?x \<le> N" using length_make_payload [OF checked_bounds(7) [OF D(1)]] N by simp
    then have q: "qinv q" "write_frame Q V (cr_q s) q" "cv_log V q = ?log @ [?x]" "\<not> cv_idle V q"
      using publish [OF D(2) idle _ _ cp_call(4)] le small by auto
    have log: "cv_log V q = cast_log c (Suc (length ?log))"
      unfolding q(3) cast_log_Suc sq using P(1) by (simp del: of_nat_Suc)
    have "cast_producer_ok V c t"
      using q(4) le sq P(3) unfolding cp_call(1) cast_producer_ok_def Let_def by (simp add: log cp_call(2))
    then show ?thesis using q cp_call by (intro cast_producer_inv [OF I, where xs = "[?x]"]) simp_all
  next
    case (cp_inside q)
    have busy: "\<not> cv_idle V (cr_q s)" using D(3) cp_inside(2) by (simp add: cast_producer_ok_def Let_def)
    note q = writes [OF D(2) busy cp_inside(3,4)]
    have "cast_producer_ok V c t"
      using D(3) q busy cp_inside(2) unfolding cp_inside(1) by (intro producer_ok_same [OF D(3)]) simp_all
    then show ?thesis using q cp_inside by (intro cast_producer_inv [OF I, where xs = "[]"]) simp_all
  next
    case (cp_result r)
    have busy: "\<not> cv_idle V (cr_q s)" and sq: "cr_sequence s = of_nat (length ?log)"
      using D(3) cp_result(2) by (simp_all add: cast_producer_ok_def Let_def)
    have r: "r = write_res Success (cr_sequence s)" using written [OF D(2) busy cp_result(3)] sq by simp
    note q = write_end [OF D(2) cp_result(3)]
    have t: "t = s\<lparr>cr_q := co_write_end Q (cr_q s), cr_sequence := cr_sequence s + 1, cr_producer := Cp_loop\<rparr>"
      using cp_result(1) by (simp add: r cast_on_publish_def)
    have "cast_producer_ok V c t"
      using q P cp_result(2) sq unfolding t cast_producer_ok_def Let_def by simp
    then show ?thesis using q cp_result(2) by (intro cast_producer_inv [OF I, where xs = "[]"]) (simp_all add: t)
  next
    case cp_exit
    then show ?thesis using D(2,3) by (intro cast_producer_inv [OF I, where xs = "[]"])
        (auto simp: write_frame_def cast_producer_ok_def Let_def)
  qed
qed

lemma read_moves_ok:
  assumes I: "cast_run_inv Q V qinv c f s" and k: "cr_consumer s k \<noteq> Cc_none" "co_got Q (cr_q s) k = None"
    and q: "read_moves Q V k (replicate (unat (cfg_payload_size c)) 0) (cr_q s) q"
    and t: "cr_q t = q" "cr_consumer t k = Cc_read" "cr_registered t = cr_registered s" "cr_done t = cr_done s"
      "cr_saw t k = cr_saw s k" "cr_metrics t k = cr_metrics s k" "cr_lagged t k = cr_lagged s k"
  shows "cast_consumer_ok Q V c t k"
proof -
  note D = cast_run_invD [OF I]
  note O = consumer_ok_registered [OF D(5) k(1)]
  let ?log = "cv_log V (cr_q s)"
  have P: "?log = cast_log c (length ?log)" "length ?log \<le> unat (cfg_iterations c)"
    using D(3) by (simp_all add: cast_producer_ok_def Let_def)
  have fit: "length x = length (replicate (unat (cfg_payload_size c)) (0 :: byte))" if "x \<in> set ?log" for x
    using cast_log_payload [OF D(1)] that P(1) by (metis length_replicate)
  have fr: "cv_log V q = ?log" "cv_current V (cr_q s) k \<Longrightarrow> cv_current V q k" "cv_mode V q k = Reading (replicate (unat (cfg_payload_size c)) 0)"
    using q by (auto simp: read_moves_def read_frame_def)
  have "metrics_ok c ?log (cr_metrics s k) (cr_lagged s k) (co_next Q q k) (co_got Q q k)"
  proof (cases "co_got Q q k")
    case None
    then show ?thesis using q O(3) k(2) by (simp add: read_moves_def)
  next
    case (Some rd)
    obtain res d where rd: "rd = (res, d)" by fastforce
    have "read_outcome ?log (co_next Q (cr_q s) k) (replicate (unat (cfg_payload_size c)) 0) res d (co_next Q q k)"
      using q Some rd by (simp add: read_moves_def)
    then show ?thesis
      using metrics_read [OF O(3) [unfolded k(2)] _ fit] P(2) checked_bounds(2) [OF D(1)] Some rd by simp
  qed
  then show ?thesis
    using O fr t unfolding cast_consumer_ok_def Let_def by simp
qed

lemma consumer_step_inv:
  assumes I: "cast_run_inv Q V qinv c f s" and k: "k < unat (cfg_consumers c)"
    and step: "cast_consumer_step Q label c k s t"
  shows "cast_run_inv Q V qinv c f t"
proof -
  note D = cast_run_invD [OF I]
  have alive: "cr_consumer s k \<noteq> Cc_none" "cr_consumer s k \<noteq> Cc_end" using step by (cases; simp)+
  note O = consumer_ok_registered [OF D(5) alive(1)]
  have same: "read_frame Q V k (cr_q s) (cr_q s)" by (simp add: read_frame_def)
  from step show ?thesis
  proof cases
    case cc_start
    then show ?thesis using D(2) D(5) [of k] same
      by (intro cast_consumer_inv [OF I k alive(2)]) (auto simp: cast_consumer_ok_def Let_def)
  next
    case cc_running
    then show ?thesis using D(2) D(5) [of k] same
      by (intro cast_consumer_inv [OF I k alive(2)]) (auto simp: cast_consumer_ok_def Let_def)
  next
    case cc_done
    have mode: "cv_mode V (cr_q s) k = Ready" using O(2) cc_done(2) by simp
    have idle: "cv_idle V (cr_q s)" using D(3) cc_done(3) by (auto simp: cast_producer_ok_def Let_def)
    note q = acquire [OF D(2) mode]
    have got: "co_got Q (cr_q s) k = None" "co_got Q (co_acquire Q k (cr_q s)) k = None"
      using ready [OF D(2) mode] ready q by blast+
    have "cast_consumer_ok Q V c t k"
      using O q idle got cc_done unfolding cast_consumer_ok_def Let_def read_frame_def by simp
    then show ?thesis using cc_done q by (intro cast_consumer_inv [OF I k alive(2)]) simp_all
  next
    case (cc_more v q)
    have mode: "cv_mode V (cr_q s) k = Ready" using O(2) cc_more(2) by simp
    note q = published [OF D(2) mode cc_more(3)]
    have got: "co_got Q (cr_q s) k = None" "co_got Q q k = None"
      using ready [OF D(2) mode] ready q by blast+
    have "cast_consumer_ok Q V c t k"
      using O q got cc_more unfolding cast_consumer_ok_def Let_def read_frame_def by simp
    then show ?thesis using cc_more q by (intro cast_consumer_inv [OF I k alive(2)]) simp_all
  next
    case (cc_stop v q)
    have mode: "cv_mode V (cr_q s) k = Ready" using O(2) cc_stop(2) by simp
    note q = published [OF D(2) mode cc_stop(3)]
    have got: "co_got Q (cr_q s) k = None" "co_got Q q k = None"
      using ready [OF D(2) mode] ready q by blast+
    have dn: "cr_done s" "cv_current V (cr_q s) k" using O(4,5) cc_stop(2) by simp_all
    then have idle: "cv_idle V (cr_q s)" and small: "length (cv_log V (cr_q s)) \<le> unat (cfg_iterations c)"
      using D(3) by (auto simp: cast_producer_ok_def Let_def)
    have "v = of_nat (length (cv_log V (cr_q s)))" using q idle dn(2) by blast
    then have "unat v = length (cv_log V (cr_q s))"
      using small checked_bounds(2) [OF D(1)] by (simp add: unat_of_nat_64)
    then have "unat (co_next Q (cr_q s) k) = Suc (length (cv_log V (cr_q s)))"
      using cc_stop(4) O(3) by (auto simp: word_less_nat_alt metrics_ok_def)
    then have "cast_consumer_ok Q V c t k"
      using O q got cc_stop unfolding cast_consumer_ok_def Let_def read_frame_def by simp
    then show ?thesis using cc_stop q by (intro cast_consumer_inv [OF I k alive(2)]) simp_all
  next
    case (cc_call q)
    have mode: "cv_mode V (cr_q s) k = Ready" using O(2) cc_call(2) by simp
    note q = read [OF D(2) mode cc_call(3)]
    have "cast_consumer_ok Q V c t k"
      using ready [OF D(2) mode] q cc_call(1,2) by (intro read_moves_ok [OF I, where q = q]) auto
    then show ?thesis using cc_call q by (intro cast_consumer_inv [OF I k alive(2)]) (simp_all add: read_moves_def)
  next
    case (cc_inside q)
    have mode: "cv_mode V (cr_q s) k = Reading (replicate (unat (cfg_payload_size c)) 0)" using O(2) cc_inside(2) by simp
    note q = reads [OF D(2) mode cc_inside(3,4)]
    have "cast_consumer_ok Q V c t k"
      using q cc_inside(1,2,3) by (intro read_moves_ok [OF I, where q = q]) auto
    then show ?thesis using cc_inside q by (intro cast_consumer_inv [OF I k alive(2)]) (simp_all add: read_moves_def)
  next
    case (cc_result r payload)
    have mode: "cv_mode V (cr_q s) k = Reading (replicate (unat (cfg_payload_size c)) 0)" using O(2) cc_result(2) by simp
    note q = read_end [OF D(2) cc_result(3) mode]
    let ?s = "s\<lparr>cr_q := co_read_end Q k (cr_q s)\<rparr>"
    have P: "cv_log V (cr_q s) = cast_log c (length (cv_log V (cr_q s)))" "length (cv_log V (cr_q s)) \<le> unat (cfg_iterations c)"
      using D(3) by (simp_all add: cast_producer_ok_def Let_def)
    have "metrics_ok c (cv_log V (cr_q s)) (cr_metrics ?s k) (cr_lagged ?s k) (co_next Q (cr_q s) k) (Some (r, payload))"
      using O(3) cc_result(3) by simp
    note m = cast_on_read_ok [OF D(1) P this, where label = label, folded cc_result(1)]
    have got: "co_got Q (co_read_end Q k (cr_q s)) k = None" using ready q by blast
    have "cast_consumer_ok Q V c t k"
      using O q got m cc_result(2) unfolding cast_consumer_ok_def Let_def read_frame_def by simp
    then show ?thesis using q m by (intro cast_consumer_inv [OF I k alive(2)]) simp_all
  qed
qed

lemma main_step_inv:
  assumes I: "cast_run_inv Q V qinv c f s" and step: "cast_main_step Q label c s t"
  shows "cast_run_inv Q V qinv c f t"
proof -
  note D = cast_run_invD [OF I]
  have keep: "cast_consumer_ok Q V c t j"
    if "cr_q t = cr_q s" "cr_registered t = cr_registered s" "cr_consumer t = cr_consumer s" "cr_saw t = cr_saw s"
      "cr_metrics t = cr_metrics s" "cr_lagged t = cr_lagged s" "cr_done t = cr_done s" for t j
    using D(5) [of j] unfolding cast_consumer_ok_def that .
  from step show ?thesis
  proof cases
    case (cm_register k q)
    have less: "k < unat (cfg_consumers c)" "cr_registered s = k" using cm_register by simp_all
    have none: "cr_producer s = Cp_none" "\<not> cr_start s" "cr_result s \<noteq> Some (r, printed)" for r printed
      using D(4,7) less unfolding cast_phases_def by auto
    then have P: "cv_log V (cr_q s) = []" "\<not> cr_done s" using D(3) by (simp_all add: cast_producer_ok_def Let_def)
    have old: "cr_consumer s k = Cc_none" "cv_mode V (cr_q s) k = Unregistered" "\<not> cr_saw s k" "\<not> cr_lagged s k"
        "cr_metrics s k = metrics_init"
      using D(5) [of k] less by (simp_all add: cast_consumer_ok_def)
    note q = register [OF D(2) P(1) old(2) cm_register(4)]
    have "unat (cfg_iterations c + 1) = Suc (unat (cfg_iterations c))"
      using checked_bounds(2) [OF D(1)] unat_Suc_word [of "cfg_iterations c"] by simp
    moreover have "cv_log V q = []" "co_got Q q k = None" using q P(1) ready by (auto simp: read_frame_def)
    ultimately have "cast_consumer_ok Q V c t k"
      using q old by (auto simp: cm_register(1) cast_consumer_ok_def less metrics_ok_def metrics_init_def simp del: replicate_Suc)
    moreover have "cast_consumer_ok Q V c t j" if "j \<noteq> k" for j
      using q that less(2) by (intro consumer_ok_other [OF D(5)]) (auto simp: cm_register(1))
    ultimately have "cast_consumer_ok Q V c t j" for j by (cases "j = k") simp_all
    moreover have "cast_producer_ok V c t"
      using q by (intro producer_ok_same [OF D(3)]) (simp_all add: cm_register(1) read_frame_def)
    ultimately show ?thesis using D(1,4,6) q less none by (auto simp: cast_run_inv_def cast_phases_def cm_register(1))
  next
    case cm_producer
    have "cast_producer_ok V c t" using D(3) cm_producer by (auto simp: cast_producer_ok_def Let_def)
    then show ?thesis
      using D(1,2,4,6,7) keep [of t] cm_producer by (auto simp: cast_run_inv_def cast_phases_def)
  next
    case cm_start
    have "cast_producer_ok V c t" using cm_start by (intro producer_ok_same [OF D(3)]) simp_all
    then show ?thesis
      using D(1,2,4,6,7) keep [of t] cm_start by (auto simp: cast_run_inv_def cast_phases_def)
  next
    case cm_finish
    have "cast_producer_ok V c t" using cm_finish by (intro producer_ok_same [OF D(3)]) simp_all
    then show ?thesis
      using D(1,2,4,6) keep [of t] cm_finish by (auto simp: cast_run_inv_def cast_phases_def)
  qed
qed

lemma run_inv_init:
  assumes "check_config c = None" "cast_run_init Q c f s"
  shows "cast_run_inv Q V qinv c f s"
proof -
  have q: "co_init Q (ucast (cfg_capacity c)) (cr_q s)"
    and s: "s = \<lparr>cr_q = cr_q s, cr_registered = 0, cr_start = False, cr_done = False, cr_sequence = 1,
       cr_producer = Cp_none, cr_consumer = (\<lambda>_. Cc_none), cr_saw = (\<lambda>_. False),
       cr_metrics = (\<lambda>_. metrics_init), cr_lagged = (\<lambda>_. False), cr_failures = f, cr_result = None\<rparr>"
    using assms(2) unfolding cast_run_init_def by blast+
  have f: "cr_registered s = 0" "\<not> cr_start s" "\<not> cr_done s" "cr_sequence s = 1" "cr_producer s = Cp_none"
      "cr_consumer s = (\<lambda>_. Cc_none)" "cr_saw s = (\<lambda>_. False)" "cr_metrics s = (\<lambda>_. metrics_init)"
      "cr_lagged s = (\<lambda>_. False)" "cr_failures s = f" "cr_result s = None"
    by (subst s; simp)+
  show ?thesis
    using assms(1) make [OF q]
    by (simp add: cast_run_inv_def cast_producer_ok_def cast_phases_def cast_consumer_ok_def f Let_def cast_log_def)
qed

lemma run_step_inv:
  assumes "cast_run_inv Q V qinv c f s" "max_payload_size \<le> N" "cast_run_step Q label c s t"
  shows "cast_run_inv Q V qinv c f t"
proof -
  have "unat (cfg_payload_size c) \<le> N"
    using checked_bounds(8) [OF cast_run_invD(1) [OF assms(1)]] assms(2) by (simp add: max_payload_size_def)
  then show ?thesis
    using assms producer_step_inv consumer_step_inv main_step_inv unfolding cast_run_step_def by blast
qed

lemma run_reach:
  assumes "cast_run_inv Q V qinv c f s" "max_payload_size \<le> N" "(cast_run_step Q label c)\<^sup>*\<^sup>* s t"
  shows "cast_run_inv Q V qinv c f t"
  using assms(3) by induction (use assms(1,2) run_step_inv in blast)+

text \<open>The end of a run: a consumer that was never told it lagged has read every publication.\<close>

lemma run_settled:
  assumes I: "cast_run_inv Q V qinv c f s" and r: "cr_result s = Some (passed, printed)"
  defines "published \<equiv> co_final Q (cr_q s)"
  shows "passed = (\<not> fr_failed f)" "cv_log V (cr_q s) = cast_log c (unat published)" "unat published \<le> unat (cfg_iterations c)"
    "k < unat (cfg_consumers c) \<Longrightarrow> \<not> cr_lagged s k \<Longrightarrow>
      mt_reads (cr_metrics s k) = published \<and> cast_unique c published (cr_metrics s) = published"
proof -
  note D = cast_run_invD [OF I]
  let ?log = "cv_log V (cr_q s)"
  have e: "passed = (\<not> fr_failed f)" "cr_producer s = Cp_end" "\<And>k. k < unat (cfg_consumers c) \<Longrightarrow> cr_consumer s k = Cc_end"
    using D(7) [OF r] by auto
  have P: "?log = cast_log c (length ?log)" "length ?log \<le> unat (cfg_iterations c)" "cv_idle V (cr_q s)"
    using D(3) e(2) by (simp_all add: cast_producer_ok_def Let_def)
  have pub: "unat published = length ?log"
    using final [OF D(2) P(3)] P(2) checked_bounds(2) [OF D(1)] by (simp add: published_def unat_of_nat_64)
  show "passed = (\<not> fr_failed f)" by (rule e(1))
  show "?log = cast_log c (unat published)" using P(1) pub by simp
  show "unat published \<le> unat (cfg_iterations c)" using P(2) pub by simp
  assume k: "k < unat (cfg_consumers c)" "\<not> cr_lagged s k"
  have reg: "k < cr_registered s" "cr_consumer s k = Cc_end" using D(5) [of k] e(3) k(1)
    by (auto simp: cast_consumer_ok_def Let_def split: if_splits)
  have end_k: "unat (co_next Q (cr_q s) k) = Suc (length ?log)" "cv_mode V (cr_q s) k = Ready"
      "metrics_ok c ?log (cr_metrics s k) (cr_lagged s k) (co_next Q (cr_q s) k) (co_got Q (cr_q s) k)"
    using D(5) [of k] reg by (simp_all add: cast_consumer_ok_def Let_def)
  then have m: "co_next Q (cr_q s) k = mt_last_sequence (cr_metrics s k) + 1" "mt_reads (cr_metrics s k) = mt_last_sequence (cr_metrics s k)"
      "\<And>i. 0 < i \<Longrightarrow> i \<le> unat (mt_last_sequence (cr_metrics s k)) \<Longrightarrow> mt_seen (cr_metrics s k) ! i = 1"
    using k(2) ready [OF D(2) end_k(2)] by (simp_all add: metrics_ok_def)
  have "mt_last_sequence (cr_metrics s k) = co_next Q (cr_q s) k - 1" using m(1) by simp
  moreover have "co_next Q (cr_q s) k \<noteq> 0" using end_k(1) by auto
  ultimately have last: "unat (mt_last_sequence (cr_metrics s k)) = length ?log" using end_k(1) by (simp add: unat_minus_one)
  then have eq: "mt_last_sequence (cr_metrics s k) = published" using pub by (simp add: word_unat_eq_iff)
  have "fold (\<lambda>sequence unique. unique +
      (if \<exists>k < unat (cfg_consumers c). mt_seen (cr_metrics s k) ! sequence \<noteq> 0 then 1 else 0)) [1..<Suc n] (0 :: u64) = of_nat n"
    if "n \<le> length ?log" for n
    using that
  proof (induction n)
    case (Suc n)
    have "mt_seen (cr_metrics s k) ! Suc n \<noteq> 0" using m(3) [of "Suc n"] last Suc.prems by simp
    then show ?case using Suc k(1) by auto
  qed simp
  then have "cast_unique c published (cr_metrics s) = of_nat (length ?log)" unfolding cast_unique_def pub by blast
  then have "cast_unique c published (cr_metrics s) = published" unfolding pub [symmetric] by simp
  then show "mt_reads (cr_metrics s k) = published \<and> cast_unique c published (cr_metrics s) = published"
    using m(2) eq by simp
qed

lemma run_outcome:
  assumes "check_config c = None" "max_payload_size \<le> N" "run_spmc_multicast Q label c f passed f' printed"
  shows "f' = f \<and> passed = (\<not> fr_failed f)"
proof -
  obtain s0 s where s: "cast_run_init Q c f s0" "(cast_run_step Q label c)\<^sup>*\<^sup>* s0 s" "cr_result s = Some (passed, printed)"
      "cr_failures s = f'"
    using assms(3) unfolding run_spmc_multicast_def by blast
  have I: "cast_run_inv Q V qinv c f s" by (rule run_reach [OF run_inv_init [OF assms(1) s(1)] assms(2) s(2)])
  show ?thesis using cast_run_invD(6) [OF I] cast_run_invD(7) [OF I s(3)] s(4) by simp
qed

end

end
