(* ===== verification/Stress_Multicast_Live.thy ===== *)
theory Stress_Multicast_Live
  imports Stress_Multicast
begin

text \<open>
  Every multicast stress run can be continued to its result. \<open>cast_progress\<close> adds to the contract
  of the queue that a call can always take its next step and has only finitely many left
  (\<open>wrank\<close>, \<open>rrank\<close>), and that a consumer that is behind an idle producer can advance its cursor.
\<close>

locale cast_progress = cast_service +
  fixes wrank :: "'a \<Rightarrow> nat" and rrank :: "'a \<Rightarrow> nat \<Rightarrow> nat"
  assumes can_register: "qinv q \<Longrightarrow> cv_mode V q k = Unregistered \<Longrightarrow> \<exists>q'. co_register Q k q q'"
    and can_write: "qinv q \<Longrightarrow> \<not> cv_idle V q \<Longrightarrow> co_written Q q = None \<Longrightarrow> \<exists>q'. co_writes Q q q' \<and> wrank q' < wrank q"
    and can_read: "qinv q \<Longrightarrow> cv_mode V q k = Ready \<Longrightarrow> \<exists>q'. co_read Q k dest q q'"
    and can_go_on: "qinv q \<Longrightarrow> cv_mode V q k = Reading dest \<Longrightarrow> co_got Q q k = None \<Longrightarrow>
      \<exists>q'. co_reads Q k q q' \<and> rrank q' k < rrank q k"
    and can_ask: "qinv q \<Longrightarrow> cv_mode V q k = Ready \<Longrightarrow> \<exists>v q'. co_published Q k v q q'"
    and catch_up: "qinv q \<Longrightarrow> cv_mode V q k = Ready \<Longrightarrow> cv_idle V q \<Longrightarrow> 0 < co_next Q q k \<Longrightarrow>
      unat (co_next Q q k) \<le> length (cv_log V q) \<Longrightarrow> (\<And>x. x \<in> set (cv_log V q) \<Longrightarrow> length x \<le> length dest) \<Longrightarrow>
      \<exists>q1 q2. co_read Q k dest q q1 \<and> (\<lambda>p p'. co_got Q p k = None \<and> co_reads Q k p p')\<^sup>*\<^sup>* q1 q2 \<and>
        co_got Q q2 k \<noteq> None \<and> co_next Q q k < co_next Q q2 k"

lemma consumer_step_run: "cast_consumer_step Q label c k s t \<Longrightarrow> (cast_consumer_step Q label c k)\<^sup>*\<^sup>* s t"
  by blast

lemma run_by_step:
  "(cast_consumer_step Q label c k)\<^sup>*\<^sup>* s u \<Longrightarrow> cast_consumer_step Q label c k u t \<Longrightarrow> P t \<Longrightarrow>
    \<exists>t. (cast_consumer_step Q label c k)\<^sup>*\<^sup>* s t \<and> P t"
  by (meson rtranclp.rtrancl_into_rtrancl)

lemma run_by_run:
  "(cast_consumer_step Q label c k)\<^sup>*\<^sup>* s u \<Longrightarrow> \<exists>t. (cast_consumer_step Q label c k)\<^sup>*\<^sup>* u t \<and> P t \<Longrightarrow>
    \<exists>t. (cast_consumer_step Q label c k)\<^sup>*\<^sup>* s t \<and> P t"
  by (meson rtranclp_trans)

lemma consumer_step_runs:
  "(cast_consumer_step Q label c k)\<^sup>*\<^sup>* s t \<Longrightarrow> k < unat (cfg_consumers c) \<Longrightarrow> (cast_run_step Q label c)\<^sup>*\<^sup>* s t"
  by (erule rtranclp_mono [THEN predicate2D, rotated]) (auto simp: cast_run_step_def)

text \<open>What the steps of consumer \<open>k\<close> leave alone.\<close>

lemma consumer_steps_beside:
  assumes "(cast_consumer_step Q label c k)\<^sup>*\<^sup>* s t"
  shows "cr_start t = cr_start s \<and> cr_producer t = cr_producer s \<and> cr_done t = cr_done s \<and> cr_result t = cr_result s \<and>
    (\<forall>j. j \<noteq> k \<longrightarrow> cr_consumer t j = cr_consumer s j)"
  using assms
proof (induction rule: rtranclp_induct)
  case (step t u)
  from step(2) show ?case using step(3)
    by cases (auto simp: cast_on_read_def Let_def split: prod.split)
qed simp

lemma cast_on_read_parts:
  "cr_q (cast_on_read label c k res d s) = cr_q s" "cr_consumer (cast_on_read label c k res d s) = (cr_consumer s)(k := Cc_loop)"
  "cr_saw (cast_on_read label c k res d s) = cr_saw s" "cr_done (cast_on_read label c k res d s) = cr_done s"
  by (auto simp: cast_on_read_def Let_def split: prod.split)

context cast_progress
begin

lemma consumer_run_inv:
  assumes "(cast_consumer_step Q label c k)\<^sup>*\<^sup>* s t" "cast_run_inv Q V qinv c f s" "k < unat (cfg_consumers c)"
  shows "cast_run_inv Q V qinv c f t"
  using assms by (induction rule: rtranclp_induct) (auto intro: consumer_step_inv)

text \<open>A read under way returns.\<close>

lemma read_returns:
  assumes "cast_run_inv Q V qinv c f s" "k < unat (cfg_consumers c)" "cr_consumer s k = Cc_read"
  shows "\<exists>t. (cast_consumer_step Q label c k)\<^sup>*\<^sup>* s t \<and> cr_consumer t k = Cc_loop"
  using assms
proof (induction "rrank (cr_q s) k" arbitrary: s rule: less_induct)
  case less
  note D = cast_run_invD [OF less(2)]
  have mode: "cv_mode V (cr_q s) k = Reading (replicate (unat (cfg_payload_size c)) 0)"
    using consumer_ok_registered(2) [OF D(5), of k] less(4) by simp
  show ?case
  proof (cases "co_got Q (cr_q s) k")
    case None
    obtain q where q: "co_reads Q k (cr_q s) q" "rrank q k < rrank (cr_q s) k" using can_go_on [OF D(2) mode None] by blast
    have step: "cast_consumer_step Q label c k s (s\<lparr>cr_q := q\<rparr>)" by (rule cc_inside [OF less(4) None q(1)])
    show ?thesis
      by (rule run_by_run [OF consumer_step_run [OF step] less(1)])
        (use q(2) consumer_step_inv [OF less(2,3) step] less(3,4) in simp_all)
  next
    case (Some rd)
    show ?thesis
      by (rule run_by_step [OF rtranclp.rtrancl_refl cc_result [OF less(4), of Q "fst rd" "snd rd"]])
        (simp_all add: cast_on_read_parts Some)
  qed
qed

lemma reaches_check:
  assumes I: "cast_run_inv Q V qinv c f s" and k: "k < unat (cfg_consumers c)"
    and dn: "cr_done s" "cr_start s" "cr_consumer s k \<noteq> Cc_none" "cr_consumer s k \<noteq> Cc_end"
  shows "\<exists>t. (cast_consumer_step Q label c k)\<^sup>*\<^sup>* s t \<and> cr_consumer t k = Cc_check"
proof -
  let ?R = "(cast_consumer_step Q label c k)\<^sup>*\<^sup>*"
  have loop: "\<exists>t. ?R s t \<and> cr_consumer t k = Cc_check" if "?R s u" "cr_consumer u k = Cc_loop" for u
  proof -
    have "cr_done u" using consumer_steps_beside [OF that(1)] dn by simp
    from cc_done [OF that(2) this] show ?thesis by (rule run_by_step [OF that(1)]) simp
  qed
  have read: "\<exists>t. ?R s t \<and> cr_consumer t k = Cc_check" if u: "?R s u" "cr_consumer u k = Cc_read" for u
    using read_returns [OF consumer_run_inv [OF u(1) I k] k u(2)] u(1) loop by (meson rtranclp_trans)
  show ?thesis
  proof (cases "cr_consumer s k")
    case Cc_wait
    show ?thesis by (rule loop [OF consumer_step_run [OF cc_start [OF Cc_wait dn(2)]]]) simp
  next
    case Cc_body
    have "cv_mode V (cr_q s) k = Ready" using consumer_ok_registered(2) [OF cast_run_invD(5) [OF I], of k] Cc_body by simp
    then obtain q where q: "co_read Q k (replicate (unat (cfg_payload_size c)) 0) (cr_q s) q"
      using can_read cast_run_invD(2) [OF I] by blast
    show ?thesis by (rule read [OF consumer_step_run [OF cc_call [OF Cc_body q]]]) simp
  qed (use dn loop read in blast)+
qed

lemma consumer_step_log:
  assumes I: "cast_run_inv Q V qinv c f s" and step: "cast_consumer_step Q label c k s t"
  shows "cv_log V (cr_q t) = cv_log V (cr_q s)"
proof -
  note D = cast_run_invD [OF I]
  have alive: "cr_consumer s k \<noteq> Cc_none" using step by (cases; simp)
  note O = consumer_ok_registered(2) [OF D(5) alive]
  from step show ?thesis
  proof cases
    case (cc_result r d)
    then show ?thesis using O read_end [OF D(2)] by (simp add: cast_on_read_parts read_frame_def)
  next
    case cc_done
    then show ?thesis using O acquire [OF D(2)] by (simp add: read_frame_def)
  next
    case (cc_more v q)
    then show ?thesis using O published [OF D(2) _ cc_more(3)] by (simp add: read_frame_def)
  next
    case (cc_stop v q)
    then show ?thesis using O published [OF D(2) _ cc_stop(3)] by (simp add: read_frame_def)
  next
    case (cc_call q)
    then show ?thesis using O read [OF D(2) _ cc_call(3)] by (simp add: read_moves_def read_frame_def)
  next
    case (cc_inside q)
    then show ?thesis using O reads [OF D(2) _ cc_inside(3,4)] by (simp add: read_moves_def read_frame_def)
  qed simp_all
qed

lemma consumer_run_log:
  assumes "(cast_consumer_step Q label c k)\<^sup>*\<^sup>* s t" "cast_run_inv Q V qinv c f s" "k < unat (cfg_consumers c)"
  shows "cv_log V (cr_q t) = cv_log V (cr_q s)"
  using assms
proof (induction rule: rtranclp_induct)
  case (step t u)
  then show ?case using consumer_step_log [OF consumer_run_inv [OF step(1) assms(2,3)] step(2)] by simp
qed simp

lemma reads_run:
  assumes "(\<lambda>p p'. co_got Q p k = None \<and> co_reads Q k p p')\<^sup>*\<^sup>* q q'" "cr_consumer s k = Cc_read" "cr_q s = q"
  shows "(cast_consumer_step Q label c k)\<^sup>*\<^sup>* s (s\<lparr>cr_q := q'\<rparr>)"
  using assms(1)
proof (induction rule: rtranclp_induct)
  case base
  then show ?case using assms(3) by auto
next
  case (step p p')
  have "cast_consumer_step Q label c k (s\<lparr>cr_q := p\<rparr>) ((s\<lparr>cr_q := p\<rparr>)\<lparr>cr_q := p'\<rparr>)"
    using step(2) assms(2) by (intro cc_inside) simp_all
  then show ?case using step(3) by simp
qed

text \<open>A consumer that tests the loop condition after the producer's end leaves the loop, after at most as many reads as it is behind.\<close>

lemma check_ends:
  assumes "cast_run_inv Q V qinv c f s" "k < unat (cfg_consumers c)" "cr_consumer s k = Cc_check"
  shows "\<exists>t. (cast_consumer_step Q label c k)\<^sup>*\<^sup>* s t \<and> cr_consumer t k = Cc_end"
  using assms
proof (induction "Suc (length (cv_log V (cr_q s))) - unat (co_next Q (cr_q s) k)" arbitrary: s rule: less_induct)
  case less
  let ?R = "cast_consumer_step Q label c k" and ?dest = "replicate (unat (cfg_payload_size c)) (0 :: byte)"
  let ?log = "cv_log V (cr_q s)" and ?n = "co_next Q (cr_q s) k"
  note D = cast_run_invD [OF less(2)]
  note O = consumer_ok_registered [OF D(5), of k, unfolded less(4), simplified]
  have log: "?log = cast_log c (length ?log)" "length ?log \<le> unat (cfg_iterations c)" and idle: "cv_idle V (cr_q s)"
    using D(3) O(4,5) by (auto simp: cast_producer_ok_def Let_def)
  obtain v q where v: "co_published Q k v (cr_q s) q" using can_ask [OF D(2) O(2)] by blast
  note q = published [OF D(2) O(2) v]
  have "v = of_nat (length ?log)" using q idle O(4,5) by blast
  then have uv: "unat v = length ?log" using log(2) checked_bounds(2) [OF D(1)] by (simp add: unat_of_nat_64)
  show ?case
  proof (cases "?n \<le> v")
    case False
    then have less_n: "v < ?n" by simp
    show ?thesis by (rule run_by_step [OF rtranclp.rtrancl_refl cc_stop [OF less(4) v less_n]]) simp
  next
    case True
    let ?s1 = "s\<lparr>cr_q := q, cr_consumer := (cr_consumer s)(k := Cc_body)\<rparr>"
    have s1: "?R s ?s1" by (rule cc_more [OF less(4) v True])
    have fit: "length x \<le> length ?dest" if "x \<in> set (cv_log V q)" for x
      using cast_log_payload [OF D(1)] that log(1) q by (metis order.refl length_replicate read_frame_def)
    have "0 < ?n" using O(3) by (auto simp: metrics_ok_def intro: order.strict_trans1 [OF word_zero_le])
    then obtain q1 q2 where r: "co_read Q k ?dest q q1" "(\<lambda>p p'. co_got Q p k = None \<and> co_reads Q k p p')\<^sup>*\<^sup>* q1 q2"
        "co_got Q q2 k \<noteq> None" "?n < co_next Q q2 k"
      using catch_up [of q k ?dest] q idle True fit uv by (auto simp: word_le_nat_alt read_frame_def)
    obtain res d where got: "co_got Q q2 k = Some (res, d)" using r(3) by auto
    let ?s2 = "?s1\<lparr>cr_q := q1, cr_consumer := (cr_consumer ?s1)(k := Cc_read)\<rparr>" and ?q3 = "co_read_end Q k q2"
    let ?s3 = "cast_on_read label c k res d (?s2\<lparr>cr_q := ?q3\<rparr>)"
    have "?R ?s1 ?s2" using r(1) by (intro cc_call) simp_all
    moreover have "?R\<^sup>*\<^sup>* ?s2 (?s2\<lparr>cr_q := q2\<rparr>)" using r(2) by (intro reads_run) simp_all
    ultimately have to2: "?R\<^sup>*\<^sup>* s (?s2\<lparr>cr_q := q2\<rparr>)" using s1 by (meson converse_rtranclp_into_rtranclp)
    have "?R (?s2\<lparr>cr_q := q2\<rparr>) (cast_on_read label c k res d (?s2\<lparr>cr_q := q2\<rparr>\<lparr>cr_q := co_read_end Q k (cr_q (?s2\<lparr>cr_q := q2\<rparr>))\<rparr>))"
      using got by (intro cc_result) simp_all
    then have to3: "?R\<^sup>*\<^sup>* s ?s3" using to2 by simp
    let ?s4 = "?s3\<lparr>cr_q := co_acquire Q k (cr_q ?s3), cr_saw := (cr_saw ?s3)(k := True), cr_consumer := (cr_consumer ?s3)(k := Cc_check)\<rparr>"
    have "?R ?s3 ?s4" using O(4,5) by (intro cc_done) (simp_all add: cast_on_read_parts)
    then have to4: "?R\<^sup>*\<^sup>* s ?s4" using to3 by simp
    have I2: "cast_run_inv Q V qinv c f (?s2\<lparr>cr_q := q2\<rparr>)" by (rule consumer_run_inv [OF to2 less(2,3)])
    have I3: "cast_run_inv Q V qinv c f ?s3" by (rule consumer_run_inv [OF to3 less(2,3)])
    have I4: "cast_run_inv Q V qinv c f ?s4" by (rule consumer_run_inv [OF to4 less(2,3)])
    have "cv_mode V q2 k = Reading ?dest"
      using consumer_ok_registered(2) [OF cast_run_invD(5) [OF I2], of k] by simp
    then have "co_next Q ?q3 k = co_next Q q2 k" using read_end [OF _ got] cast_run_invD(2) [OF I2] by simp
    moreover have "cv_mode V ?q3 k = Ready"
      using consumer_ok_registered(2) [OF cast_run_invD(5) [OF I3], of k] by (simp add: cast_on_read_parts)
    ultimately have "co_next Q (cr_q ?s4) k = co_next Q q2 k"
      using acquire [of ?q3 k] cast_run_invD(2) [OF I3] by (simp add: cast_on_read_parts)
    moreover have "cv_log V (cr_q ?s4) = ?log" by (rule consumer_run_log [OF to4 less(2,3)])
    ultimately have "Suc (length (cv_log V (cr_q ?s4))) - unat (co_next Q (cr_q ?s4) k) < Suc (length ?log) - unat ?n"
      using r(4) True uv by (simp add: word_less_nat_alt word_le_nat_alt)
    then show ?thesis by (intro run_by_run [OF to4] less(1) [OF _ I4 less(3)]) simp_all
  qed
qed

lemma consumer_ends:
  assumes I: "cast_run_inv Q V qinv c f s" and k: "k < unat (cfg_consumers c)"
    and dn: "cr_producer s = Cp_end" "cr_start s"
  shows "\<exists>t. (cast_consumer_step Q label c k)\<^sup>*\<^sup>* s t \<and> cr_consumer t k = Cc_end"
proof (cases "cr_consumer s k = Cc_end")
  case False
  note D = cast_run_invD [OF I]
  have "cr_registered s = unat (cfg_consumers c)" "cr_done s"
    using D(3,4) dn by (auto simp: cast_phases_def cast_producer_ok_def Let_def)
  then have "cr_consumer s k \<noteq> Cc_none" using D(5) [of k] k by (simp add: cast_consumer_ok_def Let_def)
  then obtain t where t: "(cast_consumer_step Q label c k)\<^sup>*\<^sup>* s t" "cr_consumer t k = Cc_check"
    using reaches_check [OF I k \<open>cr_done s\<close> dn(2) _ False] by blast
  show ?thesis by (rule run_by_run [OF t(1) check_ends [OF consumer_run_inv [OF t(1) I k] k t(2)]])
qed blast

lemma consumers_end:
  assumes "cast_run_inv Q V qinv c f s" "cr_producer s = Cp_end" "cr_start s" "n \<le> unat (cfg_consumers c)"
  shows "\<exists>t. (cast_run_step Q label c)\<^sup>*\<^sup>* s t \<and> cast_run_inv Q V qinv c f t \<and> cr_producer t = Cp_end \<and> cr_start t \<and>
    cr_result t = cr_result s \<and> (\<forall>k < n. cr_consumer t k = Cc_end)"
  using assms(4)
proof (induction n)
  case (Suc n)
  then obtain t where t: "(cast_run_step Q label c)\<^sup>*\<^sup>* s t" "cast_run_inv Q V qinv c f t" "cr_producer t = Cp_end" "cr_start t"
      "cr_result t = cr_result s" "\<forall>k < n. cr_consumer t k = Cc_end" by auto
  have n: "n < unat (cfg_consumers c)" using Suc.prems by simp
  obtain u where u: "(cast_consumer_step Q label c n)\<^sup>*\<^sup>* t u" "cr_consumer u n = Cc_end"
    using consumer_ends [OF t(2) n t(3,4)] by blast
  have "(cast_run_step Q label c)\<^sup>*\<^sup>* s u" using t(1) consumer_step_runs [OF u(1) n] by simp
  moreover have "\<forall>k < Suc n. cr_consumer u k = Cc_end"
    using consumer_steps_beside [OF u(1)] t(6) u(2) by (metis less_Suc_eq)
  ultimately show ?case
    using consumer_steps_beside [OF u(1)] consumer_run_inv [OF u(1) t(2) n] t(3-5) by auto
qed (use assms in auto)

text \<open>The producer: a publication under way returns, and the loop may be left at any test.\<close>

lemma producer_run_inv:
  assumes "(cast_producer_step Q label c)\<^sup>*\<^sup>* s t" "cast_run_inv Q V qinv c f s" "unat (cfg_payload_size c) \<le> N"
  shows "cast_run_inv Q V qinv c f t"
  using assms by (induction rule: rtranclp_induct) (auto intro: producer_step_inv)

lemma publish_returns:
  assumes "cast_run_inv Q V qinv c f s" "unat (cfg_payload_size c) \<le> N" "cr_producer s = Cp_publish"
  shows "\<exists>t. (cast_producer_step Q label c)\<^sup>*\<^sup>* s t \<and> (cr_producer t = Cp_loop \<or> cr_producer t = Cp_exit)"
  using assms
proof (induction "wrank (cr_q s)" arbitrary: s rule: less_induct)
  case less
  note D = cast_run_invD [OF less(2)]
  have busy: "\<not> cv_idle V (cr_q s)" using D(3) less(4) by (simp add: cast_producer_ok_def Let_def)
  show ?case
  proof (cases "co_written Q (cr_q s)")
    case None
    obtain q where q: "co_writes Q (cr_q s) q" "wrank q < wrank (cr_q s)" using can_write [OF D(2) busy None] by blast
    have step: "cast_producer_step Q label c s (s\<lparr>cr_q := q\<rparr>)" by (rule cp_inside [OF less(4) None q(1)])
    have "\<exists>t. (cast_producer_step Q label c)\<^sup>*\<^sup>* (s\<lparr>cr_q := q\<rparr>) t \<and> (cr_producer t = Cp_loop \<or> cr_producer t = Cp_exit)"
      using less(1) [of "s\<lparr>cr_q := q\<rparr>"] q(2) producer_step_inv [OF less(2,3) step] less(3,4) by simp
    then show ?thesis using step by (meson converse_rtranclp_into_rtranclp)
  next
    case (Some r)
    have "cast_producer_step Q label c s (cast_on_publish label c r (s\<lparr>cr_q := co_write_end Q (cr_q s)\<rparr>))"
      by (rule cp_result [OF less(4) Some])
    moreover have "cr_producer (cast_on_publish label c r (s\<lparr>cr_q := co_write_end Q (cr_q s)\<rparr>)) \<in> {Cp_loop, Cp_exit}"
      by (simp add: cast_on_publish_def)
    ultimately show ?thesis by blast
  qed
qed

lemma producer_ends:
  assumes I: "cast_run_inv Q V qinv c f s" and N: "unat (cfg_payload_size c) \<le> N"
    and p: "cr_producer s \<noteq> Cp_none" "cr_start s"
  shows "\<exists>t. (cast_producer_step Q label c)\<^sup>*\<^sup>* s t \<and> cr_producer t = Cp_end"
proof -
  let ?R = "(cast_producer_step Q label c)\<^sup>*\<^sup>*"
  have exit: "\<exists>t. ?R s t \<and> cr_producer t = Cp_end" if "?R s u" "cr_producer u = Cp_exit" for u
  proof -
    have "?R s (u\<lparr>cr_done := True, cr_producer := Cp_end\<rparr>)" using that(1) cp_exit [OF that(2), of Q label c] by simp
    moreover have "cr_producer (u\<lparr>cr_done := True, cr_producer := Cp_end\<rparr>) = Cp_end" by simp
    ultimately show ?thesis by blast
  qed
  have loop: "\<exists>t. ?R s t \<and> cr_producer t = Cp_end" if "?R s u" "cr_producer u = Cp_loop" for u
  proof -
    have "?R s (u\<lparr>cr_producer := Cp_exit\<rparr>)" using that(1) cp_leave [OF that(2), of Q label c] by simp
    then show ?thesis by (rule exit) simp
  qed
  show ?thesis
  proof (cases "cr_producer s")
    case Cp_wait
    have "?R s (s\<lparr>cr_producer := Cp_loop\<rparr>)" using cp_start [OF Cp_wait p(2), of Q label c] by blast
    then show ?thesis by (rule loop) simp
  next
    case Cp_publish
    then show ?thesis using publish_returns [OF I N] loop exit by blast
  qed (use p loop exit in blast)+
qed

text \<open>Registration.\<close>

lemma all_register:
  assumes "cast_run_inv Q V qinv c f s"
  shows "\<exists>t. (cast_main_step Q label c)\<^sup>*\<^sup>* s t \<and> cr_registered t = unat (cfg_consumers c)"
  using assms
proof (induction "unat (cfg_consumers c) - cr_registered s" arbitrary: s)
  case 0
  then show ?case using cast_run_invD(4) [OF 0(2)] by (auto simp: cast_phases_def)
next
  case (Suc n)
  note D = cast_run_invD [OF Suc(3)]
  let ?k = "cr_registered s"
  have "cv_mode V (cr_q s) ?k = Unregistered" using D(5) [of ?k] by (simp add: cast_consumer_ok_def Let_def)
  then obtain q where q: "co_register Q ?k (cr_q s) q" using can_register [OF D(2)] by blast
  let ?t = "s\<lparr>cr_q := q, cr_registered := Suc ?k,
         cr_metrics := (cr_metrics s)(?k := (cr_metrics s ?k)\<lparr>mt_seen := replicate (unat (cfg_iterations c + 1)) 0\<rparr>),
         cr_consumer := (cr_consumer s)(?k := Cc_wait)\<rparr>"
  have step: "cast_main_step Q label c s ?t" using Suc(2) q by (intro cm_register) simp_all
  have "\<exists>t. (cast_main_step Q label c)\<^sup>*\<^sup>* ?t t \<and> cr_registered t = unat (cfg_consumers c)"
    using Suc(1) [of ?t] Suc(2) main_step_inv [OF Suc(3) step] by simp
  then show ?case using step by (meson converse_rtranclp_into_rtranclp)
qed

lemma main_run_inv:
  assumes "(cast_main_step Q label c)\<^sup>*\<^sup>* s t" "cast_run_inv Q V qinv c f s"
  shows "cast_run_inv Q V qinv c f t"
  using assms by (induction rule: rtranclp_induct) (auto intro: main_step_inv)

lemma run_starts:
  assumes "cast_run_inv Q V qinv c f s"
  shows "\<exists>t. (cast_main_step Q label c)\<^sup>*\<^sup>* s t \<and> cr_producer t \<noteq> Cp_none \<and> cr_start t"
proof -
  let ?R = "(cast_main_step Q label c)\<^sup>*\<^sup>*"
  have start: "\<exists>t. ?R s t \<and> cr_producer t \<noteq> Cp_none \<and> cr_start t" if "?R s u" "cr_producer u \<noteq> Cp_none" for u
  proof (cases "cr_start u")
    case False
    have "?R s (u\<lparr>cr_start := True\<rparr>)" using that(1) cm_start [OF that(2) False, of Q label c] by simp
    moreover have "cr_producer (u\<lparr>cr_start := True\<rparr>) \<noteq> Cp_none" "cr_start (u\<lparr>cr_start := True\<rparr>)" using that(2) by simp_all
    ultimately show ?thesis by blast
  qed (use that in blast)
  obtain u where u: "?R s u" "cr_registered u = unat (cfg_consumers c)" using all_register [OF assms] by blast
  show ?thesis
  proof (cases "cr_producer u = Cp_none")
    case True
    have "?R s (u\<lparr>cr_producer := Cp_wait\<rparr>)" using u(1) cm_producer [OF u(2) True, of Q label] by simp
    then show ?thesis by (rule start) simp
  qed (use start u in blast)
qed

text \<open>Every run can be continued to its result.\<close>

lemma run_finishes:
  assumes I: "cast_run_inv Q V qinv c f s" and N: "unat (cfg_payload_size c) \<le> N"
  shows "\<exists>t r. (cast_run_step Q label c)\<^sup>*\<^sup>* s t \<and> cr_result t = Some r"
proof -
  obtain u where u: "(cast_main_step Q label c)\<^sup>*\<^sup>* s u" "cr_producer u \<noteq> Cp_none" "cr_start u"
    using run_starts [OF I] by blast
  have Iu: "cast_run_inv Q V qinv c f u" by (rule main_run_inv [OF u(1) I])
  obtain v where v: "(cast_producer_step Q label c)\<^sup>*\<^sup>* u v" "cr_producer v = Cp_end"
    using producer_ends [OF Iu N u(2,3)] by blast
  have start: "cr_start v" using v(1) u(3)
    by (induction rule: rtranclp_induct) (auto simp: cast_on_publish_def elim!: cast_producer_step.cases)
  obtain w where w: "(cast_run_step Q label c)\<^sup>*\<^sup>* v w" "cr_producer w = Cp_end" "cr_start w"
      "\<forall>k < unat (cfg_consumers c). cr_consumer w k = Cc_end"
    using consumers_end [OF producer_run_inv [OF v(1) Iu N] v(2) start order.refl] by blast
  have "(cast_run_step Q label c)\<^sup>*\<^sup>* s u"
    using u(1) by (rule rtranclp_mono [THEN predicate2D, rotated]) (auto simp: cast_run_step_def)
  moreover have "(cast_run_step Q label c)\<^sup>*\<^sup>* u v"
    using v(1) by (rule rtranclp_mono [THEN predicate2D, rotated]) (auto simp: cast_run_step_def)
  ultimately have run: "(cast_run_step Q label c)\<^sup>*\<^sup>* s w" using w(1) by simp
  show ?thesis
  proof (cases "cr_result w")
    case None
    let ?r = "(\<not> fr_failed (cr_failures w), cast_report label c (co_final Q (cr_q w)) w)"
    have "cast_run_step Q label c w (w\<lparr>cr_result := Some ?r\<rparr>)"
      using cm_finish [of w c Q label] w None by (simp add: cast_run_step_def)
    with run have "(cast_run_step Q label c)\<^sup>*\<^sup>* s (w\<lparr>cr_result := Some ?r\<rparr>)" by (rule rtranclp.rtrancl_into_rtrancl)
    moreover have "cr_result (w\<lparr>cr_result := Some ?r\<rparr>) = Some ?r" by simp
    ultimately show ?thesis by blast
  qed (use run in blast)
qed

lemma payload_fits: "check_config c = None \<Longrightarrow> max_payload_size \<le> N \<Longrightarrow> unat (cfg_payload_size c) \<le> N"
  using checked_bounds(8) [of c] by (simp add: max_payload_size_def)

text \<open>The run: no failure is recorded, it can always be brought to an end, and its result is right.\<close>

lemma run_correct:
  assumes c: "check_config c = None" "max_payload_size \<le> N" and run: "cast_run_init Q c f s0" "(cast_run_step Q label c)\<^sup>*\<^sup>* s0 s"
  shows "cr_failures s = f \<and>
    (case cr_result s of
       None \<Rightarrow> \<exists>t r. (cast_run_step Q label c)\<^sup>*\<^sup>* s t \<and> cr_result t = Some r
     | Some (passed, printed) \<Rightarrow> passed = (\<not> fr_failed f) \<and>
         (let published = co_final Q (cr_q s) in cv_log V (cr_q s) = cast_log c (unat published) \<and>
          (\<forall>k < unat (cfg_consumers c). \<not> cr_lagged s k \<longrightarrow>
             mt_reads (cr_metrics s k) = published \<and> cast_unique c published (cr_metrics s) = published)))"
proof -
  have I: "cast_run_inv Q V qinv c f s" by (rule run_reach [OF run_inv_init [OF c(1) run(1)] c(2) run(2)])
  show ?thesis
    using cast_run_invD(6) [OF I] run_finishes [OF I payload_fits [OF c]] run_settled [OF I]
    by (auto simp: Let_def split: option.split)
qed

lemma run_possible:
  assumes c: "check_config c = None" "max_payload_size \<le> N" and run: "cast_run_init Q c f s0"
  shows "\<exists>s printed. (cast_run_step Q label c)\<^sup>*\<^sup>* s0 s \<and> cr_result s = Some (\<not> fr_failed f, printed)"
proof -
  have I: "cast_run_inv Q V qinv c f s0" by (rule run_inv_init [OF c(1) run(1)])
  obtain s passed printed where s: "(cast_run_step Q label c)\<^sup>*\<^sup>* s0 s" "cr_result s = Some (passed, printed)"
    using run_finishes [OF I payload_fits [OF c]] by force
  then show ?thesis using run_settled(1) [OF run_reach [OF I c(2) s(1)] s(2)] by blast
qed

lemma run_returns:
  assumes c: "check_config c = None" "max_payload_size \<le> N" and run: "cast_run_init Q c f s0"
  shows "\<exists>printed. run_spmc_multicast Q label c f (\<not> fr_failed f) f printed"
proof -
  obtain s printed where s: "(cast_run_step Q label c)\<^sup>*\<^sup>* s0 s" "cr_result s = Some (\<not> fr_failed f, printed)"
    using run_possible [OF assms] by blast
  then show ?thesis using run run_correct [OF c run s(1)] unfolding run_spmc_multicast_def by blast
qed

end

end
