(* ===== verification/Stress_Spmc.thy ===== *)
theory Stress_Spmc
  imports Stress_Multicast_Live Spmc_Multicast Versioned_Weak
begin

text \<open>
  The two queues that \<open>run_spmc_multicast\<close> is instantiated with (\<open>main\<close> of
  \<open>stress/queue_stress.cpp\<close>). Every operation of \<open>SPMCMulticastQueue\<close> is one critical section and so
  one step. The operations of \<open>VersionedSPMCQueue\<close> are the steps of \<open>Versioned_Machine\<close>, one memory
  access each; here consumers also call \<open>published_sequence\<close>, an acquire load, and an acquire of
  \<open>producer_done\<close> lets a consumer see everything the producer has stored.
\<close>

section \<open>Definitions\<close>

subsection \<open>The mutex queue\<close>

text \<open>\<open>mcs_log\<close> is a ghost: the payloads published so far.\<close>

record mc_sys =
  mcs_queue :: multicast_queue
  mcs_result :: "write_result option"
  mcs_next :: "nat \<Rightarrow> u64 option"
  mcs_got :: "nat \<Rightarrow> (byte list \<times> read_result \<times> byte list) option"
  mcs_log :: "byte list list"

definition mc_ops :: "nat \<Rightarrow> mc_sys cast_ops" where
  "mc_ops N = \<lparr>
     co_init = (\<lambda>cap s. \<exists>q. mc_make N cap = Inr q \<and>
       s = \<lparr>mcs_queue = q, mcs_result = None, mcs_next = Map.empty, mcs_got = Map.empty, mcs_log = []\<rparr>),
     co_register = (\<lambda>k s t. t = s\<lparr>mcs_next := (mcs_next s)(k \<mapsto> mc_register (mcs_queue s))\<rparr>),
     co_publish = (\<lambda>x s t. case mc_try_publish N (mcs_queue s) x of (r, q) \<Rightarrow>
       t = s\<lparr>mcs_queue := q, mcs_result := Some r,
             mcs_log := mcs_log s @ (if wr_status r = Success then [x] else [])\<rparr>),
     co_writes = (\<lambda>s t. False),
     co_written = mcs_result,
     co_write_end = (\<lambda>s. s\<lparr>mcs_result := None\<rparr>),
     co_read = (\<lambda>k dest s t. \<exists>n. mcs_next s k = Some n \<and>
       (case mc_try_read (mcs_queue s) n dest of (res, d, n') \<Rightarrow>
          t = s\<lparr>mcs_next := (mcs_next s)(k \<mapsto> n'), mcs_got := (mcs_got s)(k \<mapsto> (dest, res, d))\<rparr>)),
     co_reads = (\<lambda>k s t. False),
     co_got = (\<lambda>s k. map_option snd (mcs_got s k)),
     co_read_end = (\<lambda>k s. s\<lparr>mcs_got := (mcs_got s)(k := None)\<rparr>),
     co_next = (\<lambda>s k. case mcs_next s k of Some n \<Rightarrow> n | None \<Rightarrow> 0),
     co_published = (\<lambda>k v s t. v = mc_published (mcs_queue s) \<and> t = s),
     co_acquire = (\<lambda>k s. s),
     co_final = (\<lambda>s. mc_published (mcs_queue s))\<rparr>"

fun mc_mode :: "u64 option \<Rightarrow> (byte list \<times> read_result \<times> byte list) option \<Rightarrow> read_mode" where
  "mc_mode None got = Unregistered"
| "mc_mode (Some n) None = Ready"
| "mc_mode (Some n) (Some (dest, rd)) = Reading dest"

definition mc_view :: "mc_sys cast_view" where
  "mc_view = \<lparr>cv_log = mcs_log, cv_idle = (\<lambda>s. mcs_result s = None),
     cv_mode = (\<lambda>s k. mc_mode (mcs_next s k) (mcs_got s k)),
     cv_current = (\<lambda>s k. True)\<rparr>"

definition mc_sys_inv :: "nat \<Rightarrow> mc_sys \<Rightarrow> bool" where
  "mc_sys_inv N s \<longleftrightarrow> mc_hist N (mcs_queue s) (mcs_log s) \<and> length (mcs_log s) < 2 ^ 63 \<and>
     (\<forall>r. mcs_result s = Some r \<longrightarrow> r = write_res Success (of_nat (length (mcs_log s)))) \<and>
     (\<forall>k n. mcs_next s k = Some n \<longrightarrow> 0 < unat n \<and> unat n \<le> Suc (length (mcs_log s))) \<and>
     (\<forall>k. mcs_next s k = None \<longrightarrow> mcs_got s k = None)"

subsection \<open>The versioned queue\<close>

definition vw_ops :: "nat \<Rightarrow> u64 \<Rightarrow> vw_sys cast_ops" where
  "vw_ops N cap =
     (let reads = \<lambda>k s t. \<exists>r. reader_step N cap (vw_mem s) (vw_reader s k) r \<and> t = s\<lparr>vw_reader := (vw_reader s)(k := r)\<rparr>
      in \<lparr>
     co_init = (\<lambda>capacity s. capacity = cap \<and> vw_init N cap s),
     co_register = (\<lambda>k s t. reads k s t \<and> rd_pc (vw_reader s k) = R_unregistered),
     co_publish = (\<lambda>x s t. vw_write N cap s t \<and> vw_writer s = W_idle \<and>
       vw_writer t = (if length x > N then W_done (write_res Message_too_large 0) else W_load x (vw_produced s + 1))),
     co_writes = vw_write N cap,
     co_written = (\<lambda>s. case vw_writer s of W_done r \<Rightarrow> Some r | _ \<Rightarrow> None),
     co_write_end = (\<lambda>s. s\<lparr>vw_writer := W_idle\<rparr>),
     co_read = (\<lambda>k dest s t. reads k s t \<and> rd_pc (vw_reader s k) = R_idle \<and> (\<exists>p. rd_pc (vw_reader t k) = R_check dest p)),
     co_reads = reads,
     co_got = (\<lambda>s k. case rd_pc (vw_reader s k) of R_done res d \<Rightarrow> Some (res, d) | _ \<Rightarrow> None),
     co_read_end = (\<lambda>k s. s\<lparr>vw_reader := (vw_reader s)(k := (vw_reader s k)\<lparr>rd_pc := R_idle\<rparr>)\<rparr>),
     co_next = (\<lambda>s k. rd_next (vw_reader s k)),
     co_published = (\<lambda>k v s t. \<exists>ts. can_load (vw_mem s) (rd_view (vw_reader s k)) Pub ts \<and> v = loaded (vw_mem s) Pub ts \<and>
       t = s\<lparr>vw_reader := (vw_reader s)(k := (vw_reader s k)
         \<lparr>rd_view := acquire_view (vw_mem s) (rd_view (vw_reader s k)) Pub ts\<rparr>)\<rparr>),
     co_acquire = (\<lambda>k s. s\<lparr>vw_reader := (vw_reader s)(k := (vw_reader s k)
       \<lparr>rd_view := join (rd_view (vw_reader s k)) (newest (vw_mem s))\<rparr>)\<rparr>),
     co_final = (\<lambda>s. m_val (last (vw_mem s Pub)))\<rparr>)"

fun reader_mode :: "reader \<Rightarrow> reader_pc \<Rightarrow> read_mode" where
  "reader_mode r R_unregistered = Unregistered"
| "reader_mode r R_idle = Ready"
| "reader_mode r (R_check dest p) = Reading dest"
| "reader_mode r (R_before dest want a) = Reading dest"
| "reader_mode r (R_data dest want a before vals) = Reading dest"
| "reader_mode r (R_after dest want a before vals) = Reading dest"
| "reader_mode r (R_end dest want sn) = Reading dest"
| "reader_mode r (R_done res d) = Reading (case last (rd_out r) of (want, res', dest, d') \<Rightarrow> dest)"

definition vw_view :: "vw_sys cast_view" where
  "vw_view = \<lparr>cv_log = vw_log, cv_idle = (\<lambda>s. vw_writer s = W_idle),
     cv_mode = (\<lambda>s k. reader_mode (vw_reader s k) (rd_pc (vw_reader s k))),
     cv_current = (\<lambda>s k. newest (vw_mem s) Pub \<le> rd_view (vw_reader s k) Pub)\<rparr>"

definition vw_sys_inv :: "nat \<Rightarrow> u64 \<Rightarrow> vw_sys \<Rightarrow> bool" where
  "vw_sys_inv N cap s \<longleftrightarrow> vw_inv N cap s \<and>
     (\<forall>r. vw_writer s = W_done r \<longrightarrow> r = write_res Success (of_nat (length (vw_log s))))"

text \<open>The two instantiations.\<close>

abbreviation spmc_ops :: "mc_sys cast_ops" where
  "spmc_ops \<equiv> mc_ops max_payload_size"

abbreviation versioned_ops :: "config \<Rightarrow> vw_sys cast_ops" where
  "versioned_ops c \<equiv> vw_ops max_payload_size (ucast (cfg_capacity c))"

section \<open>The mutex queue meets the contract\<close>

lemma mc_ops_simps [simp]:
  "co_written (mc_ops N) = mcs_result" "co_write_end (mc_ops N) s = s\<lparr>mcs_result := None\<rparr>" "co_writes (mc_ops N) s t = False"
  "co_reads (mc_ops N) k s t = False" "co_got (mc_ops N) s k = map_option snd (mcs_got s k)"
  "co_read_end (mc_ops N) k s = s\<lparr>mcs_got := (mcs_got s)(k := None)\<rparr>" "co_acquire (mc_ops N) k s = s"
  "co_next (mc_ops N) s k = (case mcs_next s k of Some n \<Rightarrow> n | None \<Rightarrow> 0)" "co_final (mc_ops N) s = mc_published (mcs_queue s)"
  "co_published (mc_ops N) k v s t \<longleftrightarrow> v = mc_published (mcs_queue s) \<and> t = s"
  "co_register (mc_ops N) k s t \<longleftrightarrow> t = s\<lparr>mcs_next := (mcs_next s)(k \<mapsto> mc_register (mcs_queue s))\<rparr>"
  "cv_log mc_view = mcs_log" "cv_idle mc_view s \<longleftrightarrow> mcs_result s = None" "cv_current mc_view s k"
  "cv_mode mc_view s k = mc_mode (mcs_next s k) (mcs_got s k)"
  by (simp_all add: mc_ops_def mc_view_def)

lemma mc_published_log: "mc_hist N q log \<Longrightarrow> mc_published q = of_nat (length log)"
  using word_of_unat [of "mc_published q"] by (simp add: mc_hist_def)

lemma mc_read_outcome:
  assumes hist: "mc_hist N q log" and n: "0 < unat n" "unat n \<le> Suc (length log)" and life: "length log < 2 ^ 63"
    and r: "mc_try_read q n dest = (res, d, n')"
  shows "read_outcome log n dest res d n'" "0 < unat n'"
proof -
  note lag = mc_read_lagged [OF hist] and C = mc_cap_pos [OF hist]
  consider "length log < unat n" | "unat n + mc_cap q \<le> length log" | "unat n \<le> length log" "length log < unat n + mc_cap q"
    by linarith
  then have "read_outcome log n dest res d n' \<and> 0 < unat n'"
  proof cases
    case 1
    then show ?thesis using mc_read_empty [OF hist 1, of dest] r n by (simp add: read_outcome_def)
  next
    case 2
    then have n': "n' = of_nat (Suc (length log) - mc_cap q)" and res: "rr_status res = Consumer_lagged"
      using lag [OF 2, of dest] r by (auto simp del: of_nat_Suc of_nat_diff)
    have "unat n' = Suc (length log) - mc_cap q" unfolding n' using life by (intro unat_of_nat_64) simp
    then show ?thesis using 2 C n res by (simp add: read_outcome_def word_le_nat_alt)
  next
    case 3
    show ?thesis
    proof (cases "length dest < length (log ! (unat n - 1))")
      case True
      then show ?thesis using mc_read_retained [OF hist n(1) 3, of dest] r 3 n by (auto simp: read_outcome_def)
    next
      case False
      have "unat (n + 1) = Suc (unat n)" using 3 life unat_Suc_word [of n] by simp
      then show ?thesis using mc_read_retained [OF hist n(1) 3, of dest] r 3 n False by (auto simp: read_outcome_def)
    qed
  qed
  then show "read_outcome log n dest res d n'" "0 < unat n'" by blast+
qed

lemma mc_mode_cases:
  "mc_mode n got = Unregistered \<longleftrightarrow> n = None"
  "mc_mode n got = Ready \<longleftrightarrow> n \<noteq> None \<and> got = None"
  "mc_mode n got = Reading dest \<longleftrightarrow> n \<noteq> None \<and> (\<exists>rd. got = Some (dest, rd))"
  by (cases "(n, got)" rule: mc_mode.cases; simp)+

interpretation mc_stress: cast_service "mc_ops N" mc_view "mc_sys_inv N" N for N
proof
  fix cap q assume "co_init (mc_ops N) cap q"
  then show "mc_sys_inv N q \<and> cv_log mc_view q = [] \<and> cv_idle mc_view q \<and> (\<forall>k. cv_mode mc_view q k = Unregistered)"
    using mc_make_hist by (auto simp: mc_ops_def mc_sys_inv_def)
next
  fix q k q'
  assume inv: "mc_sys_inv N q" "cv_log mc_view q = []" "cv_mode mc_view q k = Unregistered" and "co_register (mc_ops N) k q q'"
  then have q': "q' = q\<lparr>mcs_next := (mcs_next q)(k \<mapsto> mc_register (mcs_queue q))\<rparr>" by simp
  have "mc_published (mcs_queue q) = 0" using inv mc_published_log by (fastforce simp: mc_sys_inv_def)
  then have "mc_register (mcs_queue q) = 1" by (simp add: mc_register_def)
  then show "mc_sys_inv N q' \<and> read_frame (mc_ops N) mc_view k q q' \<and> cv_mode mc_view q' k = Ready \<and> co_next (mc_ops N) q' k = 1"
    using inv by (auto simp: q' mc_sys_inv_def read_frame_def mc_mode_cases)
next
  fix q x q'
  assume inv: "mc_sys_inv N q" "length x \<le> N" "Suc (length (cv_log mc_view q)) < 2 ^ 63" and "co_publish (mc_ops N) x q q'"
  moreover obtain qq where "mc_try_publish N (mcs_queue q) x = (write_res Success (of_nat (Suc (length (mcs_log q)))), qq)"
    "mc_hist N qq (mcs_log q @ [x])"
    by (rule mc_publish_success [of N "mcs_queue q" "mcs_log q" x]) (use inv in \<open>auto simp: mc_sys_inv_def\<close>)
  ultimately have "mc_hist N qq (mcs_log q @ [x])" "q' = q\<lparr>mcs_queue := qq,
      mcs_result := Some (write_res Success (of_nat (Suc (length (mcs_log q))))), mcs_log := mcs_log q @ [x]\<rparr>"
    by (simp_all add: mc_ops_def write_res_def)
  then show "mc_sys_inv N q' \<and> write_frame (mc_ops N) mc_view q q' \<and> cv_log mc_view q' = cv_log mc_view q @ [x] \<and>
      \<not> cv_idle mc_view q'"
    using inv by (auto simp: mc_sys_inv_def write_frame_def fun_eq_iff le_SucI)
next
  fix q k dest q'
  assume inv: "mc_sys_inv N q" "cv_mode mc_view q k = Ready" and "co_read (mc_ops N) k dest q q'"
  then obtain n where n: "mcs_next q k = Some n" and "case mc_try_read (mcs_queue q) n dest of (res, d, n') \<Rightarrow>
      q' = q\<lparr>mcs_next := (mcs_next q)(k \<mapsto> n'), mcs_got := (mcs_got q)(k \<mapsto> (dest, res, d))\<rparr>"
    by (auto simp: mc_ops_def)
  moreover obtain res d n' where r: "mc_try_read (mcs_queue q) n dest = (res, d, n')" by (rule prod_cases3)
  ultimately have q': "q' = q\<lparr>mcs_next := (mcs_next q)(k \<mapsto> n'), mcs_got := (mcs_got q)(k \<mapsto> (dest, res, d))\<rparr>"
    by simp
  have "read_outcome (mcs_log q) n dest res d n'" "0 < unat n'"
    using mc_read_outcome [OF _ _ _ _ r] inv n by (auto simp: mc_sys_inv_def)
  then show "mc_sys_inv N q' \<and> read_moves (mc_ops N) mc_view k dest q q'"
    using inv n by (auto simp: q' mc_sys_inv_def read_moves_def read_frame_def read_outcome_def)
qed (auto simp: mc_sys_inv_def mc_mode_cases read_frame_def write_frame_def fun_eq_iff mc_published_log)

section \<open>The versioned queue meets the contract\<close>

lemma vw_ops_simps [simp]:
  "co_init (vw_ops N cap) capacity s \<longleftrightarrow> capacity = cap \<and> vw_init N cap s"
  "co_writes (vw_ops N cap) = vw_write N cap" "co_next (vw_ops N cap) s k = rd_next (vw_reader s k)"
  "co_written (vw_ops N cap) s = (case vw_writer s of W_done r \<Rightarrow> Some r | _ \<Rightarrow> None)"
  "co_write_end (vw_ops N cap) s = s\<lparr>vw_writer := W_idle\<rparr>" "co_final (vw_ops N cap) s = m_val (last (vw_mem s Pub))"
  "co_got (vw_ops N cap) s k = (case rd_pc (vw_reader s k) of R_done res d \<Rightarrow> Some (res, d) | _ \<Rightarrow> None)"
  "cv_log vw_view = vw_log" "cv_idle vw_view s \<longleftrightarrow> vw_writer s = W_idle"
  "cv_mode vw_view s k = reader_mode (vw_reader s k) (rd_pc (vw_reader s k))"
  "cv_current vw_view s k \<longleftrightarrow> newest (vw_mem s) Pub \<le> rd_view (vw_reader s k) Pub"
  by (simp_all add: vw_ops_def vw_view_def Let_def)

lemma vw_got_cases:
  "co_got (vw_ops N cap) s k = None \<longleftrightarrow> (\<forall>res d. rd_pc (vw_reader s k) \<noteq> R_done res d)"
  "co_got (vw_ops N cap) s k = Some (res, d) \<longleftrightarrow> rd_pc (vw_reader s k) = R_done res d"
  by (auto split: reader_pc.splits)

lemma vw_written_cases:
  "co_written (vw_ops N cap) s = None \<longleftrightarrow> (\<forall>r. vw_writer s \<noteq> W_done r)"
  "co_written (vw_ops N cap) s = Some r \<longleftrightarrow> vw_writer s = W_done r"
  by (auto split: writer_pc.splits)

lemma reader_mode_cases:
  "reader_mode r pc = Unregistered \<longleftrightarrow> pc = R_unregistered"
  "reader_mode r pc = Ready \<longleftrightarrow> pc = R_idle"
  by (cases pc; simp)+

lemma reader_view_grows: "reader_step N cap mem r r' \<Longrightarrow> rd_view r l \<le> rd_view r' l"
  by (erule reader_step.cases) (auto simp: can_load_def join_def acquire_view_def)

text \<open>A call that goes on keeps its destination and the cursor; one that returns has the outcome the contract names.\<close>

lemma reader_call:
  assumes step: "reader_step N cap mem r r'" and mode: "reader_mode r (rd_pc r) = Reading dest" "\<And>res d. rd_pc r \<noteq> R_done res d"
    and ok: "ok_reader N (unat cap) log mem r" "ok_reader N (unat cap) log mem r'"
    and pub: "length (mem Pub) \<le> Suc (length log)"
  shows "reader_mode r' (rd_pc r') = Reading dest"
    "case rd_pc r' of R_done res d \<Rightarrow> read_outcome log (rd_next r) dest res d (rd_next r') | _ \<Rightarrow> rd_next r' = rd_next r"
proof -
  have out: "read_outcome log (rd_next r) dest res d (rd_next r')"
    if res: "ok_result (unat cap) log mem (rd_next r, res, dest, d)" and n: "rr_status res \<noteq> Success \<Longrightarrow> rd_next r \<le> rd_next r'"
      "rr_status res = Success \<Longrightarrow> rd_next r' = rd_next r + 1" "rr_status res = Empty \<Longrightarrow> rd_next r' = rd_next r" for res d
    using res ok(2) pub n by (auto simp: ok_result_def read_outcome_def ok_reader_def Let_def split: queue_status.splits)
  have last: "ok_result (unat cap) log mem x" if "rd_out r' = rd_out r @ [x]" for x
    using ok(2) that by (simp add: ok_reader_def)
  have *: "reader_mode r' (rd_pc r') = Reading dest \<and>
    (case rd_pc r' of R_done res d \<Rightarrow> read_outcome log (rd_next r) dest res d (rd_next r') | _ \<Rightarrow> rd_next r' = rd_next r)"
    using step
  proof cases
    case (r_early dest' p res n)
    then show ?thesis
      using mode last [of "(rd_next r, res, dest', dest')"] out [of res dest'] vq_read_begin_cursor [of cap p "rd_next r" res n]
      by (auto simp: vq_read_begin_def Let_def split: if_splits)
  next
    case (r_copy dest' want sn res d n)
    then have "want = rd_next r" using ok(1) by (simp add: ok_reader_def)
    then show ?thesis
      using r_copy mode last [of "(want, res, dest', d)"] out [of res d] read_end_copy [of sn want cap 0 dest' res d n] ok
      by (auto split: if_splits)
  next
    case (r_overwritten dest' want sn ts res d n)
    then have "want = rd_next r" using ok(1) by (simp add: ok_reader_def)
    then show ?thesis
      using r_overwritten mode last [of "(want, res, dest', d)"] out [of res d] vq_resume_ge
        read_end_overwritten [of sn want cap "loaded mem Pub ts" dest' res d n]
      by auto
  qed (use mode in auto)
  then show "reader_mode r' (rd_pc r') = Reading dest"
    "case rd_pc r' of R_done res d \<Rightarrow> read_outcome log (rd_next r) dest res d (rd_next r') | _ \<Rightarrow> rd_next r' = rd_next r"
    by blast+
qed

lemma pub_le_log: "vw_inv N cap s \<Longrightarrow> length (vw_mem s Pub) \<le> Suc (length (vw_log s))"
  by (cases "vw_writer s") (auto simp: vw_inv_def vw_core_def writing_def)

lemma pub_idle: "vw_inv N cap s \<Longrightarrow> vw_writer s = W_idle \<Longrightarrow> length (vw_mem s Pub) = Suc (length (vw_log s))"
  by (auto simp: vw_inv_def vw_core_def)

lemma pub_newest:
  assumes inv: "vw_inv N cap s" "vw_writer s = W_idle" and ts: "ts < length (vw_mem s Pub)" "length (vw_log s) \<le> ts"
  shows "loaded (vw_mem s) Pub ts = of_nat (length (vw_log s))"
proof -
  have "unat (loaded (vw_mem s) Pub ts) = length (vw_log s)"
    using loaded_pub [OF vw_invD(4) [OF inv(1)] _ ts(1)] ts pub_idle [OF inv] inv(1) by (simp add: vw_inv_def vw_core_def)
  then show ?thesis using word_of_unat [of "loaded (vw_mem s) Pub ts"] by simp
qed

text \<open>A consumer between two calls may learn more: its view grows within memory.\<close>

lemma vw_inv_learn:
  assumes inv: "vw_inv N cap s" and pc: "rd_pc (vw_reader s k) = R_idle" and b: "bounded (vw_mem s) W"
  shows "vw_inv N cap (s\<lparr>vw_reader := (vw_reader s)(k := (vw_reader s k)\<lparr>rd_view := W\<rparr>)\<rparr>)"
  using vw_invD(6) [OF inv, of k] pc b
  by (intro vw_inv_reader [OF inv] ok_reader_move [OF vw_invD(6) [OF inv, of k]]) (simp_all add: ok_reader_def)

lemma vw_sys_read:
  assumes inv: "vw_sys_inv N cap s" and step: "reader_step N cap (vw_mem s) (vw_reader s k) r"
    and t: "t = s\<lparr>vw_reader := (vw_reader s)(k := r)\<rparr>"
  shows "vw_sys_inv N cap t" "read_frame (vw_ops N cap) vw_view k s t"
  using inv vw_inv_read [OF _ step] reader_view_grows [OF step, of Pub]
  by (auto simp: t vw_sys_inv_def read_frame_def intro: le_trans)

lemma vw_sys_call:
  assumes inv: "vw_sys_inv N cap s" and step: "reader_step N cap (vw_mem s) (vw_reader s k) r"
    and t: "t = s\<lparr>vw_reader := (vw_reader s)(k := r)\<rparr>"
    and mode: "reader_mode (vw_reader s k) (rd_pc (vw_reader s k)) = Reading dest" "co_got (vw_ops N cap) s k = None"
  shows "vw_sys_inv N cap t \<and> read_moves (vw_ops N cap) vw_view k dest s t"
proof -
  have inv': "vw_inv N cap s" "vw_inv N cap t"
    using vw_sys_read(1) [OF inv step t] inv by (simp_all add: vw_sys_inv_def)
  note call = reader_call [OF step mode(1) _ vw_invD(6) [OF inv'(1)] _ pub_le_log [OF inv'(1)]]
  have "rd_pc (vw_reader s k) \<noteq> R_done res d" for res d using mode(2) by (simp add: vw_got_cases del: vw_ops_simps)
  then have "reader_mode r (rd_pc r) = Reading dest" "case rd_pc r of
      R_done res d \<Rightarrow> read_outcome (vw_log s) (rd_next (vw_reader s k)) dest res d (rd_next r) | _ \<Rightarrow> rd_next r = rd_next (vw_reader s k)"
    using call vw_invD(6) [OF inv'(2), of k] by (simp_all add: t)
  then show ?thesis
    using vw_sys_read [OF inv step t] by (simp add: read_moves_def t split: reader_pc.splits)
qed

lemma vw_sys_write:
  assumes inv: "vw_sys_inv N cap s" and step: "vw_write N cap s t" and w: "vw_writer s \<noteq> W_idle" "\<And>r. vw_writer s \<noteq> W_done r"
  shows "vw_sys_inv N cap t \<and> write_frame (vw_ops N cap) vw_view s t \<and> vw_log t = vw_log s \<and> vw_writer t \<noteq> W_idle"
proof -
  have *: "write_frame (vw_ops N cap) vw_view s t" "vw_log t = vw_log s" "vw_writer t \<noteq> W_idle"
    using step w by (auto simp: write_frame_def fun_eq_iff elim!: vw_write.cases)
  have core: "vw_inv N cap s" "vw_core N cap s" using inv by (simp_all add: vw_sys_inv_def vw_inv_def)
  have "r = write_res Success (of_nat (length (vw_log t)))" if "vw_writer t = W_done r" for r
    using step that w core(2) by cases (auto simp: vw_core_def writing_def)
  then show ?thesis
    using vw_inv_write [OF core(1) step] core(2) * by (simp add: vw_sys_inv_def vw_core_def)
qed

interpretation vw_stress: cast_service "vw_ops N cap" vw_view "vw_sys_inv N cap" N for N cap
proof
  fix capacity s assume "co_init (vw_ops N cap) capacity s"
  then show "vw_sys_inv N cap s \<and> cv_log vw_view s = [] \<and> cv_idle vw_view s \<and> (\<forall>k. cv_mode vw_view s k = Unregistered)"
    using vw_inv_init [of N cap s] by (auto simp: vw_sys_inv_def vw_init_def vw_init_reader_def)
next
  fix s k t
  assume inv: "vw_sys_inv N cap s" "cv_log vw_view s = []" and "co_register (vw_ops N cap) k s t"
  then obtain r where step: "reader_step N cap (vw_mem s) (vw_reader s k) r" and t: "t = s\<lparr>vw_reader := (vw_reader s)(k := r)\<rparr>"
    and pc: "rd_pc (vw_reader s k) = R_unregistered" by (auto simp: vw_ops_def)
  obtain ts where ts: "ts < length (vw_mem s Pub)" and r: "rd_pc r = R_idle" "rd_next r = loaded (vw_mem s) Pub ts + 1"
    using step pc by cases (auto simp: can_load_def)
  have vi: "vw_inv N cap s" using inv by (simp add: vw_sys_inv_def)
  have "unat (loaded (vw_mem s) Pub ts) = 0"
    using loaded_pub [OF vw_invD(4) [OF vi] _ ts] ts pub_le_log [OF vi] inv(2) by simp
  then have "loaded (vw_mem s) Pub ts = 0" by (simp add: unat_eq_zero)
  then show "vw_sys_inv N cap t \<and> read_frame (vw_ops N cap) vw_view k s t \<and> cv_mode vw_view t k = Ready \<and>
      co_next (vw_ops N cap) t k = 1"
    using vw_sys_read [OF inv(1) step t] r by (simp add: t)
next
  fix s x t
  assume inv: "vw_sys_inv N cap s" "length x \<le> N" "Suc (length (cv_log vw_view s)) < 2 ^ 63" and "co_publish (vw_ops N cap) x s t"
  then have step: "vw_write N cap s t" and w: "vw_writer s = W_idle" "vw_writer t = W_load x (vw_produced s + 1)"
    by (auto simp: vw_ops_def Let_def)
  then have t: "t = s\<lparr>vw_log := vw_log s @ [x], vw_writer := W_load x (vw_produced s + 1)\<rparr>"
    by (auto elim!: vw_write.cases)
  show "vw_sys_inv N cap t \<and> write_frame (vw_ops N cap) vw_view s t \<and> cv_log vw_view t = cv_log vw_view s @ [x] \<and> \<not> cv_idle vw_view t"
    using inv vw_inv_write [OF _ step] by (simp add: t vw_sys_inv_def write_frame_def fun_eq_iff)
next
  fix s t
  assume "vw_sys_inv N cap s" "\<not> cv_idle vw_view s" "co_written (vw_ops N cap) s = None" "co_writes (vw_ops N cap) s t"
  then show "vw_sys_inv N cap t \<and> write_frame (vw_ops N cap) vw_view s t \<and> cv_log vw_view t = cv_log vw_view s \<and> \<not> cv_idle vw_view t"
    using vw_sys_write [of N cap s t] vw_written_cases(1) [of N cap s] by simp
next
  fix s r assume "vw_sys_inv N cap s" "co_written (vw_ops N cap) s = Some r"
  then have inv: "vw_sys_inv N cap s" and w: "vw_writer s = W_done r" by (simp_all add: vw_written_cases del: vw_ops_simps)
  show "r = write_res Success (of_nat (length (cv_log vw_view s)))" using inv w by (simp add: vw_sys_inv_def)
  have "vw_inv N cap (s\<lparr>vw_writer := W_idle\<rparr>)"
    using inv vw_inv_write [OF _ w_return [OF w], of N cap] by (simp add: vw_sys_inv_def vw_inv_def vw_core_def)
  then show "vw_sys_inv N cap (co_write_end (vw_ops N cap) s) \<and> write_frame (vw_ops N cap) vw_view s (co_write_end (vw_ops N cap) s) \<and>
      cv_log vw_view (co_write_end (vw_ops N cap) s) = cv_log vw_view s \<and> cv_idle vw_view (co_write_end (vw_ops N cap) s)"
    by (simp add: vw_sys_inv_def write_frame_def fun_eq_iff)
next
  fix s k dest t
  assume inv: "vw_sys_inv N cap s" "cv_mode vw_view s k = Ready" and "co_read (vw_ops N cap) k dest s t"
  then obtain r p where step: "reader_step N cap (vw_mem s) (vw_reader s k) r" and t: "t = s\<lparr>vw_reader := (vw_reader s)(k := r)\<rparr>"
    and pc: "rd_pc (vw_reader s k) = R_idle" "rd_pc r = R_check dest p" by (auto simp: vw_ops_def)
  have "rd_next r = rd_next (vw_reader s k)" using step pc by cases auto
  then show "vw_sys_inv N cap t \<and> read_moves (vw_ops N cap) vw_view k dest s t"
    using vw_sys_read [OF inv(1) step t] pc by (simp add: read_moves_def t)
next
  fix s k dest t
  assume "vw_sys_inv N cap s" "cv_mode vw_view s k = Reading dest" "co_got (vw_ops N cap) s k = None" "co_reads (vw_ops N cap) k s t"
  then show "vw_sys_inv N cap t \<and> read_moves (vw_ops N cap) vw_view k dest s t"
    using vw_sys_call [of N cap s k _ t dest] by (auto simp: vw_ops_def vw_view_def)
next
  fix s k rd dest assume inv: "vw_sys_inv N cap s" and "co_got (vw_ops N cap) s k = Some rd"
  then obtain res d where "rd_pc (vw_reader s k) = R_done res d" by (cases rd) (simp add: vw_got_cases del: vw_ops_simps)
  then show "vw_sys_inv N cap (co_read_end (vw_ops N cap) k s) \<and> read_frame (vw_ops N cap) vw_view k s (co_read_end (vw_ops N cap) k s) \<and>
      cv_mode vw_view (co_read_end (vw_ops N cap) k s) k = Ready \<and> co_next (vw_ops N cap) (co_read_end (vw_ops N cap) k s) k = co_next (vw_ops N cap) s k"
    using vw_sys_read [OF inv r_return refl] by (simp add: vw_ops_def)
next
  fix s k v t
  assume inv: "vw_sys_inv N cap s" "cv_mode vw_view s k = Ready" and "co_published (vw_ops N cap) k v s t"
  then obtain ts where ts: "can_load (vw_mem s) (rd_view (vw_reader s k)) Pub ts" and v: "v = loaded (vw_mem s) Pub ts"
    and t: "t = s\<lparr>vw_reader := (vw_reader s)(k := (vw_reader s k)\<lparr>rd_view := acquire_view (vw_mem s) (rd_view (vw_reader s k)) Pub ts\<rparr>)\<rparr>"
    by (auto simp: vw_ops_def)
  have pc: "rd_pc (vw_reader s k) = R_idle" using inv(2) by (simp add: reader_mode_cases)
  have vi: "vw_inv N cap s" using inv(1) by (simp add: vw_sys_inv_def)
  have "vw_inv N cap t"
    unfolding t using ts vw_invD(6) [OF vi, of k]
    by (intro vw_inv_learn [OF vi pc] bounded_acquire [OF vw_invD(4) [OF vi]]) (simp_all add: can_load_def ok_reader_def)
  moreover have "v = of_nat (length (vw_log s))" if "vw_writer s = W_idle" "newest (vw_mem s) Pub \<le> rd_view (vw_reader s k) Pub"
    using pub_newest [OF vi that(1), of ts] ts that pub_idle [OF vi that(1)] by (simp add: v can_load_def newest_def)
  ultimately show "vw_sys_inv N cap t \<and> read_frame (vw_ops N cap) vw_view k s t \<and> cv_mode vw_view t k = Ready \<and>
      co_next (vw_ops N cap) t k = co_next (vw_ops N cap) s k \<and> (cv_idle vw_view s \<and> cv_current vw_view s k \<longrightarrow> v = of_nat (length (cv_log vw_view s)))"
    using inv pc ts acquire_view_ge(1) [of "rd_view (vw_reader s k)" Pub ts]
    by (auto simp: t vw_sys_inv_def read_frame_def can_load_def intro: le_trans)
next
  fix s k assume inv: "vw_sys_inv N cap s" "cv_mode vw_view s k = Ready"
  have pc: "rd_pc (vw_reader s k) = R_idle" using inv(2) by (simp add: reader_mode_cases)
  have vi: "vw_inv N cap s" using inv(1) by (simp add: vw_sys_inv_def)
  have "vw_inv N cap (co_acquire (vw_ops N cap) k s)"
    using vw_invD(4) [OF vi] vw_invD(6) [OF vi, of k]
    by (auto simp: vw_ops_def ok_reader_def ok_mem_def intro!: vw_inv_learn [OF vi pc] bounded_join bounded_newest)
  then show "vw_sys_inv N cap (co_acquire (vw_ops N cap) k s) \<and> read_frame (vw_ops N cap) vw_view k s (co_acquire (vw_ops N cap) k s) \<and>
      cv_mode vw_view (co_acquire (vw_ops N cap) k s) k = Ready \<and>
      co_next (vw_ops N cap) (co_acquire (vw_ops N cap) k s) k = co_next (vw_ops N cap) s k \<and>
      (cv_idle vw_view s \<longrightarrow> cv_current vw_view (co_acquire (vw_ops N cap) k s) k)"
    using inv pc by (auto simp: vw_ops_def vw_sys_inv_def read_frame_def join_def)
next
  fix s assume inv: "vw_sys_inv N cap s" "cv_idle vw_view s"
  then have vi: "vw_inv N cap s" "vw_writer s = W_idle" by (simp_all add: vw_sys_inv_def)
  then show "co_final (vw_ops N cap) s = of_nat (length (cv_log vw_view s))"
    using pub_newest [OF vi, of "length (vw_log s)"] pub_idle [OF vi] by (simp add: loaded_def last_conv_nth flip: length_greater_0_conv)
qed (auto simp: reader_mode_cases)

section \<open>Every run can be finished\<close>

lemma mc_catch_up:
  assumes hist: "mc_hist N q log" and n: "0 < unat n" "unat n \<le> length log" and life: "length log < 2 ^ 63"
    and fits: "\<And>x. x \<in> set log \<Longrightarrow> length x \<le> length dest" and r: "mc_try_read q n dest = (res, d, n')"
  shows "n < n'"
proof (cases "unat n + mc_cap q \<le> length log")
  case True
  then have n': "n' = of_nat (Suc (length log) - mc_cap q)"
    using mc_read_lagged [OF hist True, of dest] r by (auto simp del: of_nat_Suc of_nat_diff)
  have "unat n' = Suc (length log) - mc_cap q" unfolding n' using life by (intro unat_of_nat_64) simp
  then show ?thesis using True by (simp add: word_less_nat_alt)
next
  case False
  have "log ! (unat n - 1) \<in> set log" using n by simp
  then have "n' = n + 1" using mc_read_retained [OF hist n, of dest] False fits r by fastforce
  moreover have "unat (n + 1) = Suc (unat n)" using n life unat_Suc_word [of n] by simp
  ultimately show ?thesis by (simp add: word_less_nat_alt)
qed

interpretation mc_live: cast_progress "mc_ops N" mc_view "mc_sys_inv N" N "\<lambda>_. 0" "\<lambda>_ _. 0" for N
proof
  have read: "\<exists>q'. co_read (mc_ops N) k dest q q' \<and> co_got (mc_ops N) q' k \<noteq> None \<and>
      co_next (mc_ops N) q' k = snd (snd (mc_try_read (mcs_queue q) (co_next (mc_ops N) q k) dest))"
    if mode: "cv_mode mc_view q k = Ready" for q k dest
  proof -
    obtain n where n: "mcs_next q k = Some n" using mode by (auto simp: mc_mode_cases)
    obtain res d n' where r: "mc_try_read (mcs_queue q) n dest = (res, d, n')" by (rule prod_cases3)
    have "co_read (mc_ops N) k dest q (q\<lparr>mcs_next := (mcs_next q)(k \<mapsto> n'), mcs_got := (mcs_got q)(k \<mapsto> (dest, res, d))\<rparr>)"
      using n r by (simp add: mc_ops_def)
    then show ?thesis using n r by fastforce
  qed
  fix q k
  show "\<exists>q'. co_read (mc_ops N) k dest q q'" if "cv_mode mc_view q k = Ready" for dest using read [OF that] by blast
  assume inv: "mc_sys_inv N q" and mode: "cv_mode mc_view q k = Ready" and n: "0 < co_next (mc_ops N) q k"
      "unat (co_next (mc_ops N) q k) \<le> length (cv_log mc_view q)"
  fix dest :: "byte list" assume fits: "\<And>x. x \<in> set (cv_log mc_view q) \<Longrightarrow> length x \<le> length dest"
  obtain res d n' where r: "mc_try_read (mcs_queue q) (co_next (mc_ops N) q k) dest = (res, d, n')" by (rule prod_cases3)
  have "co_next (mc_ops N) q k < n'"
    using mc_catch_up [of N "mcs_queue q" "mcs_log q" _ dest, OF _ _ _ _ _ r] inv n fits by (simp add: mc_sys_inv_def word_less_nat_alt)
  then show "\<exists>q1 q2. co_read (mc_ops N) k dest q q1 \<and>
      (\<lambda>p p'. co_got (mc_ops N) p k = None \<and> co_reads (mc_ops N) k p p')\<^sup>*\<^sup>* q1 q2 \<and>
      co_got (mc_ops N) q2 k \<noteq> None \<and> co_next (mc_ops N) q k < co_next (mc_ops N) q2 k"
    using read [OF mode, of dest] r by fastforce
qed (auto simp: mc_mode_cases)

text \<open>Within one call of a consumer of the versioned queue no result is stored.\<close>

lemma reader_out_step:
  assumes "reader_step N cap mem r r'"
  shows "(\<exists>x. rd_out r' = rd_out r @ [x]) \<or> rd_out r' = rd_out r \<and> (\<forall>res d. rd_pc r' \<noteq> R_done res d)"
  using assms by cases auto

lemma call_path:
  assumes "(reader_step N cap mem)\<^sup>*\<^sup>* r r'" "\<forall>res d. rd_pc r \<noteq> R_done res d" "length (rd_out r') \<le> length (rd_out r)"
  shows "(\<lambda>p p'. (\<forall>res d. rd_pc p \<noteq> R_done res d) \<and> reader_step N cap mem p p')\<^sup>*\<^sup>* r r' \<and> (\<forall>res d. rd_pc r' \<noteq> R_done res d) \<and>
    length (rd_out r') = length (rd_out r)"
  using assms
proof (induction rule: rtranclp_induct)
  case (step p p')
  have out: "(\<exists>x. rd_out p' = rd_out p @ [x]) \<or> rd_out p' = rd_out p \<and> (\<forall>res d. rd_pc p' \<noteq> R_done res d)"
    by (rule reader_out_step [OF step(2)])
  then have "length (rd_out p) \<le> length (rd_out r)" using step(5) by auto
  note IH = step(3) [OF step(4) this]
  then show ?case using out step(2,5) by (auto intro: rtranclp.rtrancl_into_rtrancl)
qed simp

lemma vw_reads_run:
  assumes "(\<lambda>p p'. (\<forall>res d. rd_pc p \<noteq> R_done res d) \<and> reader_step N cap (vw_mem s) p p')\<^sup>*\<^sup>* r r'"
  shows "(\<lambda>p p'. co_got (vw_ops N cap) p k = None \<and> co_reads (vw_ops N cap) k p p')\<^sup>*\<^sup>*
    (s\<lparr>vw_reader := (vw_reader s)(k := r)\<rparr>) (s\<lparr>vw_reader := (vw_reader s)(k := r')\<rparr>)"
  using assms
proof (induction rule: rtranclp_induct)
  case (step p p')
  have "co_got (vw_ops N cap) (s\<lparr>vw_reader := (vw_reader s)(k := p)\<rparr>) k = None"
    using step(2) by (simp add: vw_got_cases del: vw_ops_simps)
  moreover have "co_reads (vw_ops N cap) k (s\<lparr>vw_reader := (vw_reader s)(k := p)\<rparr>) (s\<lparr>vw_reader := (vw_reader s)(k := p')\<rparr>)"
    using step(2) by (auto simp: vw_ops_def Let_def)
  ultimately show ?case by (intro rtranclp.rtrancl_into_rtrancl [OF step(3)]) blast
qed simp

lemma vw_lag_read:
  assumes inv: "vw_inv N cap s" and idle: "vw_writer s = W_idle" "rd_pc (vw_reader s k) = R_idle"
    and n: "unat (rd_next (vw_reader s k)) + unat cap \<le> length (vw_log s)"
  shows "\<exists>r1 r p. reader_step N cap (vw_mem s) (vw_reader s k) r1 \<and> rd_pc r1 = R_check dest p \<and>
    reader_step N cap (vw_mem s) r1 r \<and> (\<exists>res d. rd_pc r = R_done res d) \<and> rd_next (vw_reader s k) < rd_next r"
proof -
  let ?r = "vw_reader s k" and ?L = "length (vw_log s)"
  have life: "?L < 2 ^ 63" using inv by (simp add: vw_inv_def vw_core_def)
  have pub: "newest (vw_mem s) Pub = ?L" using pub_idle [OF inv idle(1)] by (simp add: newest_def)
  have ts: "can_load (vw_mem s) (rd_view ?r) Pub ?L"
    using load_newest [of "vw_mem s" "rd_view ?r" Pub] vw_invD(6) [OF inv, of k] pub by (simp add: ok_reader_def)
  define p where "p = loaded (vw_mem s) Pub ?L"
  have p: "unat p = ?L"
    using pub_newest [OF inv idle(1), of ?L] pub_idle [OF inv idle(1)] life by (simp add: p_def unat_of_nat_64)
  let ?r1 = "?r\<lparr>rd_pc := R_check dest p, rd_view := acquire_view (vw_mem s) (rd_view ?r) Pub ?L\<rparr>"
  have r1: "reader_step N cap (vw_mem s) ?r ?r1" unfolding p_def by (rule r_load [OF idle(2) ts])
  have "cap \<noteq> 0" using vw_invD(1) [OF inv] by auto
  then have old: "unat (vq_oldest_retained cap p) = Suc ?L - unat cap"
    using mc_oldest_unat [OF p, of cap] vw_invD(1) [OF inv] n by (auto simp: oldest_retained_eq)
  then have less: "rd_next ?r < vq_oldest_retained cap p" using n vw_invD(1) [OF inv] by (simp add: word_less_nat_alt)
  have "vq_read_begin cap p (rd_next ?r) = Some (read_res Consumer_lagged 0 (vq_oldest_retained cap p), vq_oldest_retained cap p)"
    using less n p by (simp add: vq_read_begin_def Let_def word_less_nat_alt)
  then have "reader_step N cap (vw_mem s) ?r1 (?r1\<lparr>rd_pc := R_done (read_res Consumer_lagged 0 (vq_oldest_retained cap p)) dest,
      rd_next := vq_oldest_retained cap p,
      rd_out := rd_out ?r1 @ [(rd_next ?r1, read_res Consumer_lagged 0 (vq_oldest_retained cap p), dest, dest)]\<rparr>)"
    by (intro r_early) simp_all
  then show ?thesis using r1 less by fastforce
qed

interpretation vw_live: cast_progress "vw_ops N cap" vw_view "vw_sys_inv N cap" N
    "\<lambda>s. write_rank (vw_writer s)" "\<lambda>s k. read_rank N (rd_pc (vw_reader s k))" for N cap
proof
  fix s :: vw_sys and k
  assume inv: "vw_sys_inv N cap s"
  then have vi: "vw_inv N cap s" by (simp add: vw_sys_inv_def)
  note ok = vw_invD(6) [OF vi, of k]
  have newest: "can_load (vw_mem s) (rd_view (vw_reader s k)) Pub (newest (vw_mem s) Pub)"
    using ok by (intro load_newest) (simp add: ok_reader_def)
  show "\<exists>t. co_register (vw_ops N cap) k s t" if "cv_mode vw_view s k = Unregistered"
    using read_enabled [OF ok, of cap] that by (auto simp: vw_ops_def reader_mode_cases)
  show "\<exists>t. co_writes (vw_ops N cap) s t \<and> write_rank (vw_writer t) < write_rank (vw_writer s)" if "\<not> cv_idle vw_view s"
    using write_enabled [of N cap s] write_rank_step [of N cap s] that by force
  show "\<exists>t. co_read (vw_ops N cap) k dest s t" if "cv_mode vw_view s k = Ready" for dest
    using r_load [OF _ newest, of N cap dest] that by (fastforce simp: vw_ops_def reader_mode_cases)
  show "\<exists>t. co_reads (vw_ops N cap) k s t \<and> read_rank N (rd_pc (vw_reader t k)) < read_rank N (rd_pc (vw_reader s k))"
    if mode: "cv_mode vw_view s k = Reading dest" for dest
  proof -
    have "rd_pc (vw_reader s k) \<notin> {R_unregistered, R_idle}" using mode by auto
    moreover obtain r where r: "reader_step N cap (vw_mem s) (vw_reader s k) r" using read_enabled [OF ok] by blast
    moreover have "ok_rpc N (unat cap) (vw_log s) (vw_mem s) (vw_reader s k) (rd_pc (vw_reader s k))"
      using ok by (simp add: ok_reader_def)
    ultimately have "read_rank N (rd_pc r) < read_rank N (rd_pc (vw_reader s k))" by (intro read_rank_step)
    then show ?thesis using r by (fastforce simp: vw_ops_def Let_def)
  qed
  show "\<exists>v t. co_published (vw_ops N cap) k v s t" using newest by (fastforce simp: vw_ops_def)
  fix dest :: "byte list"
  assume mode: "cv_mode vw_view s k = Ready" and idle: "cv_idle vw_view s" and n: "0 < co_next (vw_ops N cap) s k"
      "unat (co_next (vw_ops N cap) s k) \<le> length (cv_log vw_view s)"
    and fits: "\<And>x. x \<in> set (cv_log vw_view s) \<Longrightarrow> length x \<le> length dest"
  let ?n = "rd_next (vw_reader s k)" and ?R = "reader_step N cap (vw_mem s)"
  have pc: "vw_writer s = W_idle" "rd_pc (vw_reader s k) = R_idle" using mode idle by (simp_all add: reader_mode_cases)
  let ?C = "\<lambda>p p'. (\<forall>res d. rd_pc p \<noteq> R_done res d) \<and> ?R p p'"
  have "\<exists>r1 r p. ?R (vw_reader s k) r1 \<and> rd_pc r1 = R_check dest p \<and> ?C\<^sup>*\<^sup>* r1 r \<and> (\<exists>res d. rd_pc r = R_done res d) \<and> ?n < rd_next r"
  proof (cases "unat ?n + unat cap \<le> length (vw_log s)")
    case True
    obtain r1 r p where r: "?R (vw_reader s k) r1" "rd_pc r1 = R_check dest p" "?R r1 r" "\<exists>res d. rd_pc r = R_done res d" "?n < rd_next r"
      using vw_lag_read [OF vi pc True, of dest] by blast
    have "?C\<^sup>*\<^sup>* r1 r" using r(2,3) by (intro r_into_rtranclp) simp
    then show ?thesis using r by blast
  next
    case False
    have "vw_log s ! (unat ?n - 1) \<in> set (vw_log s)" using n by (simp add: word_less_nat_alt)
    then obtain r1 r2 r p sn where r: "?R (vw_reader s k) r1" "rd_pc r1 = R_check dest p" "rd_out r1 = rd_out (vw_reader s k)"
        "?R\<^sup>*\<^sup>* r1 r2" "rd_out r2 = rd_out (vw_reader s k)" "rd_pc r2 = R_end dest ?n sn" "?R r2 r" "rd_next r = ?n + 1"
        "\<exists>res d. rd_pc r = R_done res d"
      using idle_read_steps [OF vi pc, of "unat ?n" dest] n False fits by (auto simp: word_less_nat_alt)
    have "unat (?n + 1) = Suc (unat ?n)"
      using n vi unat_Suc_word [of ?n] by (simp add: vw_inv_def vw_core_def)
    then have "?n < rd_next r" using r(8) by (simp add: word_less_nat_alt)
    moreover have "?C\<^sup>*\<^sup>* r1 r2" using call_path [OF r(4)] r(2,3,5) by simp
    then have "?C\<^sup>*\<^sup>* r1 r" using r(6,7) by (intro rtranclp.rtrancl_into_rtrancl [of ?C r1 r2 r]) simp_all
    ultimately show ?thesis using r by blast
  qed
  then obtain r1 r p where r: "?R (vw_reader s k) r1" "rd_pc r1 = R_check dest p" "\<exists>res d. rd_pc r = R_done res d" "?n < rd_next r"
      "?C\<^sup>*\<^sup>* r1 r" by blast
  let ?u = "s\<lparr>vw_reader := (vw_reader s)(k := r)\<rparr>"
  have "co_read (vw_ops N cap) k dest s (s\<lparr>vw_reader := (vw_reader s)(k := r1)\<rparr>)" using r(1,2) pc by (auto simp: vw_ops_def)
  moreover have "co_got (vw_ops N cap) ?u k \<noteq> None" "co_next (vw_ops N cap) s k < co_next (vw_ops N cap) ?u k" using r(3,4) by auto
  ultimately show "\<exists>q1 q2. co_read (vw_ops N cap) k dest s q1 \<and>
      (\<lambda>p p'. co_got (vw_ops N cap) p k = None \<and> co_reads (vw_ops N cap) k p p')\<^sup>*\<^sup>* q1 q2 \<and>
      co_got (vw_ops N cap) q2 k \<noteq> None \<and> co_next (vw_ops N cap) s k < co_next (vw_ops N cap) q2 k"
    using vw_reads_run [OF r(5)] by blast
qed

section \<open>Properties\<close>

lemma cast_capacity: "check_config c = None \<Longrightarrow> (ucast (cfg_capacity c) :: u64) \<noteq> 0"
  using checked_bounds(9) [of c] unat_ucast_u32 [of "cfg_capacity c"] by (metis less_irrefl unsigned_0)

lemma mc_run_init: "check_config c = None \<Longrightarrow> \<exists>s. cast_run_init (mc_ops N) c f s"
  using cast_capacity [of c] by (auto simp: cast_run_init_def mc_ops_def mc_make_def intro!: exI)

lemma vw_run_init: "check_config c = None \<Longrightarrow> N < 2 ^ 64 \<Longrightarrow> \<exists>s. cast_run_init (vw_ops N (ucast (cfg_capacity c))) c f s"
  using checked_bounds(9) [of c] by (auto simp: cast_run_init_def vw_init_def intro!: exI)

text \<open>
  C31: The multicast stress run over \<open>SPMCMulticastQueue\<close> (\<open>run_spmc_multicast\<close>), in every interleaving of
  the producer and the consumers, for every accepted configuration: no failure is recorded. If the run has not
  returned it can be continued until it does. If it has, it returns true exactly when nothing had failed before;
  the queue was given exactly the payloads of the sequences 1 to \<open>published\<close>, in order; and a consumer that was
  never told that it lagged has read every one of them, and then \<open>unique_verified\<close> equals \<open>published\<close>.
\<close>

theorem stress_spmc_passes:
  assumes "check_config c = None" "cast_run_init spmc_ops c f s0" "(cast_run_step spmc_ops label c)\<^sup>*\<^sup>* s0 s"
  shows "cr_failures s = f \<and>
    (case cr_result s of
       None \<Rightarrow> \<exists>t r. (cast_run_step spmc_ops label c)\<^sup>*\<^sup>* s t \<and> cr_result t = Some r
     | Some (passed, printed) \<Rightarrow> passed = (\<not> fr_failed f) \<and>
         (let published = mc_published (mcs_queue (cr_q s)) in mcs_log (cr_q s) = cast_log c (unat published) \<and>
          (\<forall>k < unat (cfg_consumers c). \<not> cr_lagged s k \<longrightarrow>
             mt_reads (cr_metrics s k) = published \<and> cast_unique c published (cr_metrics s) = published)))"
  by (rule mc_live.run_correct [OF assms(1) order.refl assms(2,3), unfolded mc_ops_simps])

theorem stress_spmc_passes_witness:
  "\<exists>s0 s printed. check_config default_config = None \<and> cast_run_init spmc_ops default_config None s0 \<and>
     (cast_run_step spmc_ops ''spmc'' default_config)\<^sup>*\<^sup>* s0 s \<and> cr_result s = Some (True, printed) \<and>
     mcs_log (cr_q s) = cast_log default_config (unat (mc_published (mcs_queue (cr_q s))))"
proof -
  have chk: "check_config default_config = None" by code_simp
  obtain s0 where s0: "cast_run_init spmc_ops default_config None s0" using mc_run_init [OF chk] by blast
  obtain s printed where s: "(cast_run_step spmc_ops ''spmc'' default_config)\<^sup>*\<^sup>* s0 s"
      "cr_result s = Some (\<not> fr_failed None, printed)"
    using mc_live.run_possible [OF chk order.refl s0] by blast
  show ?thesis using stress_spmc_passes [OF chk s0 s(1)] chk s0 s by (auto simp: fr_failed_def Let_def)
qed

text \<open>
  C30: The multicast stress run over \<open>VersionedSPMCQueue\<close> (\<open>run_spmc_multicast\<close>), in every interleaving of
  the producer and the consumers, for every accepted configuration: no failure is recorded. If the run has not
  returned it can be continued until it does. If it has, it returns true exactly when nothing had failed before;
  the queue was given exactly the payloads of the sequences 1 to \<open>published\<close>, in order; and a consumer that was
  never told that it lagged has read every one of them, and then \<open>unique_verified\<close> equals \<open>published\<close>.
\<close>

theorem stress_versioned_passes:
  assumes "check_config c = None" "cast_run_init (versioned_ops c) c f s0" "(cast_run_step (versioned_ops c) label c)\<^sup>*\<^sup>* s0 s"
  shows "cr_failures s = f \<and>
    (case cr_result s of
       None \<Rightarrow> \<exists>t r. (cast_run_step (versioned_ops c) label c)\<^sup>*\<^sup>* s t \<and> cr_result t = Some r
     | Some (passed, printed) \<Rightarrow> passed = (\<not> fr_failed f) \<and>
         (let published = m_val (last (vw_mem (cr_q s) Pub)) in vw_log (cr_q s) = cast_log c (unat published) \<and>
          (\<forall>k < unat (cfg_consumers c). \<not> cr_lagged s k \<longrightarrow>
             mt_reads (cr_metrics s k) = published \<and> cast_unique c published (cr_metrics s) = published)))"
  by (rule vw_live.run_correct [OF assms(1) order.refl assms(2,3), unfolded vw_ops_simps])

theorem stress_versioned_passes_witness:
  "\<exists>s0 s printed. check_config default_config = None \<and> cast_run_init (versioned_ops default_config) default_config None s0 \<and>
     (cast_run_step (versioned_ops default_config) ''versioned'' default_config)\<^sup>*\<^sup>* s0 s \<and> cr_result s = Some (True, printed) \<and>
     vw_log (cr_q s) = cast_log default_config (unat (m_val (last (vw_mem (cr_q s) Pub))))"
proof -
  have chk: "check_config default_config = None" by code_simp
  obtain s0 where s0: "cast_run_init (versioned_ops default_config) default_config None s0"
    using vw_run_init [OF chk, of max_payload_size] by (auto simp: max_payload_size_def)
  obtain s printed where s: "(cast_run_step (versioned_ops default_config) ''versioned'' default_config)\<^sup>*\<^sup>* s0 s"
      "cr_result s = Some (\<not> fr_failed None, printed)"
    using vw_live.run_possible [OF chk order.refl s0] by blast
  show ?thesis using stress_versioned_passes [OF chk s0 s(1)] chk s0 s by (auto simp: fr_failed_def Let_def)
qed

end
