(* ===== verification/Stress_Main.thy ===== *)
theory Stress_Main
  imports Stress_Spsc Stress_Blocking Stress_Mpmc Stress_Spmc
begin

text \<open>
  The stress program itself (\<open>main\<close> of \<open>stress/queue_stress.cpp\<close>): the configuration line, the runs
  that the configuration selects, in order and with one failure recorder, the failure on standard error,
  the summary and the exit status. A run is a relation, so \<open>stress_main\<close> is one: between the command
  line, the exit status and the texts on the two output streams. \<open>timely\<close> says which of the two calls of
  the blocking queue's close test return within their second.
\<close>

section \<open>Definitions\<close>

definition newline :: string where
  "newline = [CHR 0x0A]"

definition usage :: string where
  "usage = concat (map (\<lambda>line. line @ newline)
     [''usage: orbitqueue_stress [options]'',
      ''  --seed <uint64>'',
      ''  --duration-ms <uint64>'',
      ''  --iterations <uint64>'',
      ''  --queue <all|spsc|blocking|spmc|versioned_spmc|mpmc>'',
      ''  --producers <uint32>'',
      ''  --consumers <uint32>'',
      ''  --payload-size <uint32>'',
      ''  --capacity <uint32>'',
      ''  --verbose''])"

definition config_line :: "config \<Rightarrow> string" where
  "config_line c = ''stress_config seed='' @ dec (unat (cfg_seed c)) @ '' queue='' @ cfg_queue c @
     '' duration_ms='' @ dec (unat (cfg_duration_ms c)) @ '' iterations='' @ dec (unat (cfg_iterations c)) @
     '' producers='' @ dec (unat (cfg_producers c)) @ '' consumers='' @ dec (unat (cfg_consumers c)) @
     '' payload_size='' @ dec (unat (cfg_payload_size c)) @ '' capacity='' @ dec (unat (cfg_capacity c)) @
     '' verbose='' @ (if cfg_verbose c then ''true'' else ''false'') @ newline"

definition summary_line :: "config \<Rightarrow> bool \<Rightarrow> string" where
  "summary_line c success = ''stress_summary seed='' @ dec (unat (cfg_seed c)) @
     '' result='' @ (if success then ''pass'' else ''fail'') @ newline"

text \<open>
  The deadline of a run, in ticks of the steady clock: \<open>ticks\<close> of them make a millisecond and its
  representation is a signed 64-bit integer. \<open>None\<close> is the overflow of the addition.
\<close>

definition deadline_for :: "int \<Rightarrow> int \<Rightarrow> config \<Rightarrow> int option" where
  "deadline_for now ticks c =
     (let deadline = now + ticks * int (unat (cfg_duration_ms c))
      in if deadline < 2 ^ 63 then Some deadline else None)"

text \<open>One run: the recorder before, the value returned, the recorder after, the text printed.\<close>

definition run_queue ::
    "(nat \<Rightarrow> bool) \<Rightarrow> config \<Rightarrow> string \<Rightarrow> recorder \<Rightarrow> bool \<Rightarrow> recorder \<Rightarrow> string \<Rightarrow> bool" where
  "run_queue timely c name =
     (if name = ''spsc'' then run_spsc c
      else if name = ''blocking'' then run_blocking timely c
      else if name = ''spmc'' then run_spmc_multicast spmc_ops ''spmc'' c
      else if name = ''versioned_spmc'' then run_spmc_multicast (versioned_ops c) ''versioned_spmc'' c
      else run_mpmc c)"

definition main_queues :: "string list" where
  "main_queues = [''spsc'', ''blocking'', ''spmc'', ''versioned_spmc'', ''mpmc'']"

fun main_runs ::
    "(nat \<Rightarrow> bool) \<Rightarrow> config \<Rightarrow> string list \<Rightarrow> bool \<Rightarrow> recorder \<Rightarrow> bool \<Rightarrow> recorder \<Rightarrow> string \<Rightarrow> bool" where
  "main_runs timely c [] passed failures passed' failures' printed \<longleftrightarrow>
     passed' = passed \<and> failures' = failures \<and> printed = []"
| "main_runs timely c (name # names) passed failures passed' failures' printed \<longleftrightarrow>
     (if should_run c name
      then \<exists>r f out rest. run_queue timely c name failures r f out \<and>
        main_runs timely c names (r \<and> passed) f passed' failures' rest \<and> printed = out @ rest
      else main_runs timely c names passed failures passed' failures' printed)"

fun what :: "cpp_exception \<Rightarrow> string" where
  "what (Invalid_argument reason) = reason"
| "what (Logic_error reason) = reason"

definition stress_main :: "(nat \<Rightarrow> bool) \<Rightarrow> string list \<Rightarrow> nat \<Rightarrow> string \<Rightarrow> string \<Rightarrow> bool" where
  "stress_main timely args status out err \<longleftrightarrow>
     (case parse_config args of
        Exit_success \<Rightarrow> status = 0 \<and> out = usage \<and> err = []
      | Threw e \<Rightarrow> status = 1 \<and> out = [] \<and> err = ''orbitqueue_stress: '' @ what e @ newline @ usage
      | Parsed c \<Rightarrow> (\<exists>passed failures runs.
          main_runs timely c main_queues True None passed failures runs \<and>
          (let success = passed \<and> \<not> fr_failed failures
           in out = config_line c @ runs @ summary_line c success \<and> err = fr_print failures \<and>
              status = (if success then 0 else 1))))"

section \<open>Outcomes\<close>

lemma ucast_mpmc_capacity:
  fixes v :: u32
  assumes "2 \<le> v" "v AND (v - 1) = 0"
  shows "mpmc_validate_capacity (ucast v) = Inr (ucast v)"
proof -
  have "v \<noteq> 0" using assms(1) by auto
  then have "(ucast v :: u64) - 1 = ucast (v - 1)"
  proof -
    have "0 < unat v" using \<open>v \<noteq> 0\<close> by (simp add: unat_gt_0)
    then show ?thesis using \<open>v \<noteq> 0\<close>
      by (simp add: word_unat_eq_iff unat_minus_le unat_minus_one)
  qed
  then have "(ucast v :: u64) AND (ucast v - 1) = ucast (v AND (v - 1))"
    by (simp add: unsigned_and_eq)
  moreover have "\<not> (ucast v :: u64) < 2"
    using assms(1) by (simp add: word_less_nat_alt word_le_nat_alt)
  ultimately show ?thesis using assms(2) by (simp add: mpmc_validate_capacity_def)
qed

lemma run_queue_cases:
  "run_queue timely c ''spsc'' = run_spsc c" "run_queue timely c ''blocking'' = run_blocking timely c"
  "run_queue timely c ''spmc'' = run_spmc_multicast spmc_ops ''spmc'' c"
  "run_queue timely c ''versioned_spmc'' = run_spmc_multicast (versioned_ops c) ''versioned_spmc'' c"
  "run_queue timely c ''mpmc'' = run_mpmc c"
  by (simp_all add: run_queue_def)

lemma run_queue_outcome:
  assumes chk: "check_config c = None" and t: "timely 0" "timely 1" and run: "run_queue timely c name f r f' out"
  shows "f' = f \<and> r = (\<not> fr_failed f)"
proof -
  consider "run_spsc c f r f' out" | "run_blocking timely c f r f' out" | "run_spmc_multicast spmc_ops ''spmc'' c f r f' out"
    | "run_spmc_multicast (versioned_ops c) ''versioned_spmc'' c f r f' out" | "run_mpmc c f r f' out"
    using run unfolding run_queue_def by presburger
  then show ?thesis
  proof cases
    case 1
    then show ?thesis by (rule run_spsc_outcome [OF chk])
  next
    case 2
    then show ?thesis by (rule run_blocking_outcome [of c timely, OF chk t])
  next
    case 3
    then show ?thesis by (rule mc_stress.run_outcome [OF chk order.refl])
  next
    case 4
    then show ?thesis by (rule vw_stress.run_outcome [OF chk order.refl])
  next
    case 5
    then show ?thesis by (rule run_mpmc_outcome [OF chk])
  qed
qed

lemma run_spsc_returns:
  assumes "check_config c = None"
  shows "\<exists>out. run_spsc c None True None out"
proof -
  obtain s0 s out where "spsc_run_init c None s0" "(spsc_run_step c)\<^sup>*\<^sup>* s0 s" "sr_result s = Some (\<not> fr_failed None, out)"
      "sr_failures s = None"
    using run_spsc_possible [OF assms, of None] by blast
  then show ?thesis by (auto simp: run_spsc_def spsc_retry_passes [OF assms] fr_failed_def)
qed

lemma run_blocking_returns:
  assumes "check_config c = None" "timely 0" "timely 1"
  shows "\<exists>out. run_blocking timely c None True None out"
proof -
  obtain s0 s out where "bk_run_init c None s0" "(bk_run_step c)\<^sup>*\<^sup>* s0 s" "br_result s = Some (\<not> fr_failed None, out)"
      "br_failures s = None"
    using run_blocking_possible [OF assms(1), of None] by blast
  then show ?thesis by (auto simp: run_blocking_def close_smoke_passes [OF assms(2,3)] fr_failed_def)
qed

lemma run_mpmc_returns:
  assumes "check_config c = None" "should_run c ''mpmc''"
  shows "\<exists>out. run_mpmc c None True None out"
proof -
  have "mpmc_validate_capacity (ucast (cfg_capacity c)) = Inr (ucast (cfg_capacity c))"
    using checked_mpmc [OF assms] ucast_mpmc_capacity by blast
  then obtain s0 s out where "mpmc_run_init c None s0" "(mpmc_run_step c)\<^sup>*\<^sup>* s0 s" "mr_result s = Some (\<not> fr_failed None, out)"
      "mr_failures s = None"
    using run_mpmc_possible [OF assms(1), of None] by blast
  then show ?thesis by (auto simp: run_mpmc_def fr_failed_def)
qed

lemma run_multicast_returns:
  assumes "check_config c = None"
  shows "\<exists>out. run_spmc_multicast spmc_ops label c None True None out"
    "\<exists>out. run_spmc_multicast (versioned_ops c) label c None True None out"
proof -
  have ok: "(\<not> fr_failed None) = True" by (simp add: fr_failed_def)
  obtain s where "cast_run_init spmc_ops c None s" using mc_run_init [OF assms] by blast
  from mc_live.run_returns [OF assms order.refl this, unfolded ok]
  show "\<exists>out. run_spmc_multicast spmc_ops label c None True None out" .
  have "max_payload_size < 2 ^ 64" by (simp add: max_payload_size_def)
  then obtain s where "cast_run_init (versioned_ops c) c None s" using vw_run_init [OF assms] by blast
  from vw_live.run_returns [OF assms order.refl this, unfolded ok]
  show "\<exists>out. run_spmc_multicast (versioned_ops c) label c None True None out" .
qed

lemma run_queue_possible:
  assumes chk: "check_config c = None" and t: "timely 0" "timely 1" and should: "should_run c name"
    and name: "name \<in> set main_queues"
  shows "\<exists>out. run_queue timely c name None True None out"
proof -
  consider "name = ''spsc''" | "name = ''blocking''" | "name = ''spmc''" | "name = ''versioned_spmc''" | "name = ''mpmc''"
    using name unfolding main_queues_def list.set by blast
  then show ?thesis
  proof cases
    case 1
    show ?thesis unfolding 1 run_queue_cases by (rule run_spsc_returns [OF chk])
  next
    case 2
    show ?thesis unfolding 2 run_queue_cases by (rule run_blocking_returns [OF chk t])
  next
    case 3
    show ?thesis unfolding 3 run_queue_cases by (rule run_multicast_returns [OF chk])
  next
    case 4
    show ?thesis unfolding 4 run_queue_cases by (rule run_multicast_returns [OF chk])
  next
    case 5
    show ?thesis unfolding 5 run_queue_cases by (rule run_mpmc_returns [OF chk should [unfolded 5]])
  qed
qed

lemma main_runs_outcome:
  assumes "check_config c = None" "timely 0" "timely 1" "main_runs timely c names True None passed failures printed"
  shows "passed \<and> failures = None"
  using assms
proof (induction names arbitrary: printed)
  case (Cons name names)
  show ?case
  proof (cases "should_run c name")
    case True
    then obtain r f out rest where r: "run_queue timely c name None r f out"
        "main_runs timely c names r f passed failures rest"
      using Cons.prems(4) by auto
    then have "main_runs timely c names True None passed failures rest"
      using run_queue_outcome [OF Cons.prems(1-3) r(1)] by (simp add: fr_failed_def)
    then show ?thesis by (rule Cons.IH [OF Cons.prems(1-3)])
  qed (use Cons in auto)
qed simp

lemma main_runs_possible:
  assumes "check_config c = None" "timely 0" "timely 1"
    and "set names \<subseteq> set main_queues"
  shows "\<exists>printed. main_runs timely c names True None True None printed"
  using assms(4)
proof (induction names)
  case (Cons name names)
  then obtain rest where rest: "main_runs timely c names True None True None rest" by auto
  show ?case
  proof (cases "should_run c name")
    case True
    then obtain out where "run_queue timely c name None True None out"
      using run_queue_possible [of c timely name, OF assms(1-3) True] Cons.prems by auto
    then have "main_runs timely c (name # names) True None True None (out @ rest)"
      unfolding main_runs.simps using True rest by (simp only: if_True simp_thms) blast
    then show ?thesis by blast
  qed (use rest in auto)
qed auto

text \<open>The deadline of an accepted configuration lies ahead, if it is representable at all; with a nanosecond clock it need not be.\<close>

lemma deadline_ahead:
  assumes "check_config c = None" "0 < ticks" "deadline_for now ticks c = Some d"
  shows "now < d"
proof -
  have "0 < ticks * int (unat (cfg_duration_ms c))" using assms(2) checked_bounds(10) [OF assms(1)] by (intro mult_pos_pos) linarith+
  then show ?thesis using assms(3) by (auto simp: deadline_for_def Let_def split: if_splits)
qed

lemma deadline_overflow:
  "check_config (default_config\<lparr>cfg_duration_ms := 10000000000000000\<rparr>) = None \<and>
   (\<forall>now \<ge> 0. deadline_for now 1000000 (default_config\<lparr>cfg_duration_ms := 10000000000000000\<rparr>) = None)"
proof
  show "check_config (default_config\<lparr>cfg_duration_ms := 10000000000000000\<rparr>) = None" by code_simp
  have "unat (10000000000000000 :: u64) = 10000000000000000" by simp
  then show "\<forall>now \<ge> 0. deadline_for now 1000000 (default_config\<lparr>cfg_duration_ms := 10000000000000000\<rparr>) = None"
    by (simp add: deadline_for_def Let_def)
qed

section \<open>Properties\<close>



end
