(* ===== verification/Spec2Isabelle.thy ===== *)
theory Spec2Isabelle
  imports Spsc_Concurrent Mpmc_Concurrent Blocking_Monitor Versioned_Weak Genmc_Cores Bench_Support Stress_Main
begin

text \<open>
  Line64: bounded concurrent queues (namespace \<open>orbitqueue\<close>).
\<close>

section \<open>Queues of an accepted configuration\<close>

text \<open>
  A stress run never fails for its configuration: once the command line is accepted, every queue
  that the run will use can be constructed with the configured capacity, and every payload the
  run makes fits the message buffers.
\<close>

lemma stress_config_constructs:
  assumes "parse_config args = Parsed c"
  defines "n \<equiv> ucast (cfg_capacity c) :: u64"
  shows "(\<exists>q. spsc_make max_payload_size n = Inr q) \<and> (\<exists>q :: byte list blocking_queue. bq_make n = Inr q) \<and>
    (\<exists>q. mc_make max_payload_size n = Inr q) \<and> (\<exists>q. vq_make max_payload_size n = Inr q) \<and>
    (should_run c ''mpmc'' \<longrightarrow> (\<exists>q. mpmc_make max_payload_size n = Inr q)) \<and>
    (\<forall>p l g. length (make_payload c p l g) \<le> max_payload_size)"
proof -
  note chk = parsed_checked [OF assms(1)]
  note b = checked_bounds [OF chk]
  have "unat n = unat (cfg_capacity c)"
    by (simp add: n_def)
  then have "n \<noteq> 0" using b(9) by auto
  moreover have "mpmc_validate_capacity n = Inr n" if "should_run c ''mpmc''"
    using checked_mpmc [OF chk that] ucast_mpmc_capacity unfolding n_def by blast
  moreover have "length (make_payload c p l g) \<le> max_payload_size" for p l g
    using length_make_payload [OF b(7)] b(8) by (simp add: max_payload_size_def)
  ultimately show ?thesis
    by (simp add: spsc_make_def bq_make_def mc_make_def vq_make_def vq_validate_capacity_def mpmc_make_def)
qed

section \<open>Properties that span components\<close>

text \<open>
  C26: A pop into a destination that is too small for the oldest message reports the size error with the message's
  sequence and leaves the destination alone, in both queues; but the SPSC queue keeps the
  message, so that a retry with enough room delivers it, while the MPMC queue has consumed it and goes on with
  the message behind it.
\<close>

theorem short_pop:
  assumes "spsc_inv N q" "spsc_contents q = x # xs" "mpmc_inv N m" "mpmc_contents m = x # xs"
    and "length small < length x" "length x \<le> length dest" "\<not> weak j"
  shows "spsc_try_pop q small = (read_res Message_too_large 0 (spsc_tail q + 1), small, q) \<and>
    (\<exists>q'. spsc_try_pop q dest = (read_res Success (length x) (spsc_tail q + 1), x @ drop (length x) dest, q') \<and>
       spsc_inv N q' \<and> spsc_contents q' = xs) \<and>
    (\<exists>m'. mpmc_try_pop weak m small = Some (read_res Message_too_large 0 (mq_dequeue_pos m + 1), small, m') \<and>
       mpmc_inv N m' \<and> mpmc_contents m' = xs)"
  using spsc_short_pop_retry [OF assms(1,2,5,6)] mpmc_short_pop_consumes [where weak = weak and j = j, OF assms(3,4,5,7)] by blast

theorem short_pop_witness:
  "\<exists>q q' m m'. spsc_contents q = [[7]] \<and> spsc_try_pop q [] = (read_res Message_too_large 0 1, [], q) \<and>
     spsc_try_pop q [0, 9] = (read_res Success 1 1, [7, 9], q') \<and> spsc_contents q' = [] \<and>
     mpmc_contents m = [[7]] \<and> mpmc_try_pop (\<lambda>_. False) m [] = Some (read_res Message_too_large 0 1, [], m') \<and>
     mpmc_contents m' = []"
proof -
  obtain q0 where q0: "spsc_inv 1 q0" "spsc_contents q0 = []" "spsc_capacity q0 = 2"
      "spsc_head q0 = 0" "spsc_tail q0 = 0"
    by (rule spsc_make_inv [of 2 1]) auto
  have room: "spsc_room q0 (Suc 0)" using q0 by (simp add: spsc_room_def ring_safe_def)
  have cnt: "spsc_count q0 < unat (spsc_capacity q0)" using q0 by (simp add: spsc_count_def)
  obtain q where q: "spsc_inv 1 q" "spsc_contents q = [[7]]" "spsc_tail q = 0"
    by (rule spsc_push_success [OF q0(1) _ cnt room, of "[7]"]) (use q0 in simp_all)
  have "mpmc_validate_capacity 2 = Inr 2" by code_simp
  then obtain m0 where m0: "mpmc_make 1 2 = Inr m0" by (simp add: mpmc_make_def)
  define m where "m = snd (mpmc_push_op (\<lambda>k. k < 0) 1 m0 [7])"
  have m: "mpmc_inv 1 m" "mpmc_contents m = [[7]]"
    using mpmc_push_op_success [of 1 m0 "[7]" 1 0] mpmc_make_inv [OF m0] by (simp_all add: m_def mpmc_room_def)
  have "mq_dequeue_pos (snd (mpmc_push_op (\<lambda>k. k < 0) 1 (projr (mpmc_make 1 2)) [7])) = 0" by code_simp
  then have pos: "mq_dequeue_pos m = 0" by (simp only: m_def m0 sum.sel)
  show ?thesis
    using short_pop [OF q(1,2) m, of "[]" "[0, 9]" "\<lambda>_. False" 0] q(2,3) m(2) pos by auto
qed

end
